(* ===== verification/KV_Prelude.thy ===== *)
theory KV_Prelude
  imports Main "HOL-Library.Word"
begin

text \<open>
  Shared vocabulary of the development: the Go value types the components use, Go maps as
  association lists, the faults an I/O primitive can report, the environment (clock, random
  source, I/O outcomes) a handler runs in, and generic list lemmas.

  Machine integers. Terms and log indices are \<open>uint64\<close> in the Go code. They are modelled by
  \<open>nat\<close>: an index counts entries that are really stored, and the places where a 64-bit operation can
  wrap on values that arrive from outside (the increment of the term, the multiplication in the
  occupancy percentage, the loop variable of a range request, conversions of a configured
  \<open>int\<close>) write the wrap-around out with \<open>u64\<close> or use \<open>64 word\<close>.
\<close>

type_synonym byte = "8 word"
type_synonym bytes = "byte list"
type_synonym uint64 = nat
type_synonym addr = string
type_synonym duration = int

named_theorems gomap_simps \<open>lookup and update laws of Go maps kept as association lists\<close>
named_theorems handler_defs \<open>unfolding equations of the consensus handlers\<close>
named_theorems frame_simps \<open>fields an operation leaves unchanged\<close>

definition u64 :: "nat \<Rightarrow> nat" where
  "u64 n = n mod 2 ^ 64"

lemma u64_id [simp]: "n < 2 ^ 64 \<Longrightarrow> u64 n = n"
  by (simp add: u64_def)

lemma u64_less: "u64 n < 2 ^ 64"
  by (simp add: u64_def)

text \<open>Subtraction of 64-bit unsigned values: below zero it wraps.\<close>

definition sub64 :: "nat \<Rightarrow> nat \<Rightarrow> nat" where
  "sub64 a b = u64 (a + 2 ^ 64 - b)"

lemma sub64_le: "b \<le> a \<Longrightarrow> a < 2 ^ 64 \<Longrightarrow> sub64 a b = a - b"
proof -
  assume a: "b \<le> a" "a < 2 ^ 64"
  then have "a + 2 ^ 64 - b = 2 ^ 64 + (a - b)" by simp
  then have "sub64 a b = (2 ^ 64 + (a - b)) mod 2 ^ 64" by (simp only: sub64_def u64_def)
  also have "\<dots> = a - b" using a by (simp only: mod_add_self1) simp
  finally show ?thesis .
qed

subsection \<open>Go maps\<close>

text \<open>
  A Go map is an association list with distinct keys. Reading a missing key gives the zero value of
  the element type, as \<open>m[k]\<close> does; \<open>gm_set\<close> is assignment, \<open>gm_del\<close> is
  \<open>delete\<close>.
\<close>

type_synonym ('k, 'v) gomap = "('k \<times> 'v) list"

definition gm_get :: "('k, nat) gomap \<Rightarrow> 'k \<Rightarrow> nat" where
  "gm_get m k = (case map_of m k of None \<Rightarrow> 0 | Some v \<Rightarrow> v)"

fun gm_set :: "'k \<Rightarrow> 'v \<Rightarrow> ('k, 'v) gomap \<Rightarrow> ('k, 'v) gomap" where
  "gm_set k v [] = [(k, v)]"
| "gm_set k v ((k', v') # m) = (if k = k' then (k, v) # m else (k', v') # gm_set k v m)"

definition gm_del :: "'k \<Rightarrow> ('k, 'v) gomap \<Rightarrow> ('k, 'v) gomap" where
  "gm_del k m = filter (\<lambda>(k', _). k' \<noteq> k) m"

definition gm_wf :: "('k, 'v) gomap \<Rightarrow> bool" where
  "gm_wf m \<longleftrightarrow> distinct (map fst m)"

lemma map_of_gm_set [simp, gomap_simps]: "map_of (gm_set k v m) = (map_of m)(k \<mapsto> v)"
  by (induction k v m rule: gm_set.induct) auto

lemma map_of_gm_del [simp, gomap_simps]: "map_of (gm_del k m) = (map_of m)(k := None)"
  by (induction m) (auto simp: gm_del_def)

lemma gm_get_set [simp, gomap_simps]: "gm_get (gm_set k v m) k' = (if k' = k then v else gm_get m k')"
  by (simp add: gm_get_def)

lemma keys_gm_set [simp]: "fst ` set (gm_set k v m) = insert k (fst ` set m)"
  by (induction k v m rule: gm_set.induct) auto

lemma gm_wf_Nil [simp]: "gm_wf []"
  by (simp add: gm_wf_def)

lemma gm_wf_set [simp]: "gm_wf m \<Longrightarrow> gm_wf (gm_set k v m)"
proof (induction k v m rule: gm_set.induct)
  case (2 k v k' v' m)
  then show ?case using keys_gm_set [of k v m] by (auto simp: gm_wf_def simp flip: image_set)
qed (simp add: gm_wf_def)

lemma gm_wf_del [simp]: "gm_wf m \<Longrightarrow> gm_wf (gm_del k m)"
  unfolding gm_wf_def gm_del_def by (simp add: distinct_map_filter)

lemma keys_gm_set_same: "k \<in> fst ` set m \<Longrightarrow> map fst (gm_set k v m) = map fst m"
  by (induction k v m rule: gm_set.induct) auto

subsection \<open>I/O outcomes and the environment of a handler\<close>

text \<open>
  What can go wrong in one call of the persistence layer: it fails before writing anything (a failing
  \<open>MkdirAll\<close>, \<open>OpenFile\<close> or \<open>ReadFile\<close>), the write stops after some bytes of the stream,
  everything is written and the \<open>Sync\<close> or \<open>Close\<close> reports an error, or the final
  \<open>Rename\<close> fails.
\<close>

datatype fault = NoFault | FailEarly | FailWrite nat | FailSync | FailRename

text \<open>
  One run of a handler sees a clock reading, a random source (\<open>draw n\<close> is the result of
  \<open>Int63n(n)\<close>) and one outcome per kind of persistence call the handler can make. Nothing depends on
  \<open>Remove\<close> of an outdated snapshot succeeding: a disk without other faults is \<open>healthy\<close>.
\<close>

record env =
  now :: int
  draw :: "int \<Rightarrow> int"
  ioObserve :: fault
  ioVote :: fault
  ioTruncate :: fault
  ioAppend :: fault
  ioSnapshot :: fault
  ioRewrite :: fault
  ioRemove :: fault

definition healthy :: "env \<Rightarrow> bool" where
  "healthy ev \<longleftrightarrow> ioObserve ev = NoFault \<and> ioVote ev = NoFault \<and> ioTruncate ev = NoFault \<and>
     ioAppend ev = NoFault \<and> ioSnapshot ev = NoFault \<and> ioRewrite ev = NoFault"

definition good_draw :: "env \<Rightarrow> bool" where
  "good_draw ev \<longleftrightarrow> (\<forall>span>0. 0 \<le> draw ev span \<and> draw ev span < span)"

definition calm :: env where
  "calm = \<lparr>now = 0, draw = (\<lambda>_. 0), ioObserve = NoFault, ioVote = NoFault, ioTruncate = NoFault,
     ioAppend = NoFault, ioSnapshot = NoFault, ioRewrite = NoFault, ioRemove = NoFault\<rparr>"

lemma healthy_calm [simp]: "healthy calm"
  by (simp add: healthy_def calm_def)

lemma healthyD [dest]:
  assumes "healthy ev"
  shows "ioObserve ev = NoFault" "ioVote ev = NoFault" "ioTruncate ev = NoFault"
    "ioAppend ev = NoFault" "ioSnapshot ev = NoFault" "ioRewrite ev = NoFault"
  using assms by (simp_all add: healthy_def)

subsection \<open>Generic list lemmas\<close>

lemma take_eq_mono: "take k xs = take k ys \<Longrightarrow> j \<le> k \<Longrightarrow> take j xs = take j ys"
  by (metis min.absorb1 take_take)

lemma take_eq_nth: "take k xs = take k ys \<Longrightarrow> i < k \<Longrightarrow> i < length xs \<Longrightarrow> xs ! i = ys ! i"
  by (metis nth_take)

lemma take_eq_length: "take k xs = take k ys \<Longrightarrow> k \<le> length xs \<Longrightarrow> k \<le> length ys"
  by (metis length_take min.absorb2 min.cobounded1)

lemma append_eq_take_drop: "n \<le> length xs \<Longrightarrow> take n (take n xs @ ys) = take n xs"
  by simp

end
