(* ===== verification/Go_Text.thy ===== *)
theory Go_Text
  imports KV_Prelude "HOL-Library.Char_ord" "HOL-Library.List_Lexorder"
begin

text \<open>
  The text functions of Go's standard library that the components use: decimal output
  (\<open>%d\<close>, \<open>FormatUint\<close>), \<open>strconv.Atoi\<close>, \<open>strings.Split\<close> at a
  comma, \<open>strings.TrimSpace\<close> and \<open>net.SplitHostPort\<close>. Strings are byte strings.
\<close>

section \<open>Decimal numbers\<close>

definition digitChar :: "nat \<Rightarrow> char" where
  "digitChar d = char_of (48 + d)"

fun showNat :: "nat \<Rightarrow> string" where
  "showNat n = (if n < 10 then [digitChar n] else showNat (n div 10) @ [digitChar (n mod 10)])"

declare showNat.simps [simp del]

definition isDigit :: "char \<Rightarrow> bool" where
  "isDigit c \<longleftrightarrow> 48 \<le> (of_char c :: nat) \<and> (of_char c :: nat) \<le> 57"

definition digitVal :: "char \<Rightarrow> nat" where
  "digitVal c = of_char c - 48"

definition digitsVal :: "string \<Rightarrow> nat" where
  "digitsVal s = foldl (\<lambda>a c. 10 * a + digitVal c) 0 s"

lemma of_char_digitChar: "d < 10 \<Longrightarrow> (of_char (digitChar d) :: nat) = 48 + d"
  by (simp add: digitChar_def)

lemma isDigit_digitChar [simp]: "d < 10 \<Longrightarrow> isDigit (digitChar d)"
  by (simp add: isDigit_def of_char_digitChar)

lemma digitVal_digitChar [simp]: "d < 10 \<Longrightarrow> digitVal (digitChar d) = d"
  by (simp add: digitVal_def of_char_digitChar)

lemma digitsVal_snoc: "digitsVal (s @ [c]) = 10 * digitsVal s + digitVal c"
  by (simp add: digitsVal_def)

lemma digitsVal_showNat [simp]: "digitsVal (showNat n) = n"
proof (induction n rule: showNat.induct)
  case (1 n)
  show ?case
  proof (cases "n < 10")
    case True
    then show ?thesis by (simp add: showNat.simps [of n] digitsVal_def)
  next
    case False
    with "1.IH" show ?thesis by (simp add: showNat.simps [of n] digitsVal_snoc)
  qed
qed

lemma showNat_digits: "c \<in> set (showNat n) \<Longrightarrow> isDigit c"
proof (induction n rule: showNat.induct)
  case (1 n)
  then show ?case
    by (cases "n < 10") (auto simp: showNat.simps [of n])
qed

lemma showNat_nonempty [simp]: "showNat n \<noteq> []"
  by (simp add: showNat.simps [of n])

lemma showNat_inj: "showNat m = showNat n \<Longrightarrow> m = n"
  by (metis digitsVal_showNat)

text \<open>
  \<open>strconv.Atoi\<close>: an optional sign, then decimal digits; anything else, and a value outside
  the 64-bit range, is an error.
\<close>

definition Atoi :: "string \<Rightarrow> int option" where
  "Atoi s =
     (let (neg, ds) = (case s of
          [] \<Rightarrow> (False, [])
        | c # r \<Rightarrow> if c = CHR ''-'' then (True, r) else if c = CHR ''+'' then (False, r) else (False, s))
      in if ds = [] \<or> \<not> list_all isDigit ds then None
         else (let v = (if neg then - int (digitsVal ds) else int (digitsVal ds))
               in if - (2 ^ 63) \<le> v \<and> v < 2 ^ 63 then Some v else None))"

lemma Atoi_range: "Atoi s = Some v \<Longrightarrow> - (2 ^ 63) \<le> v \<and> v < 2 ^ 63"
  by (auto simp: Atoi_def Let_def split: prod.splits if_splits)

lemma Atoi_showNat: "n < 2 ^ 63 \<Longrightarrow> Atoi (showNat n) = Some (int n)"
proof -
  assume n: "n < 2 ^ 63"
  obtain c r where s: "showNat n = c # r" by (cases "showNat n") auto
  have "isDigit c" using showNat_digits [of c n] s by simp
  then have "c \<noteq> CHR ''-''" "c \<noteq> CHR ''+''" by (auto simp: isDigit_def)
  moreover have "list_all isDigit (showNat n)"
    using showNat_digits [of _ n] by (simp add: list_all_iff)
  ultimately show ?thesis
    using n s digitsVal_showNat [of n] by (simp add: Atoi_def)
qed

section \<open>Splitting and trimming\<close>

fun splitOn :: "char \<Rightarrow> string \<Rightarrow> string list" where
  "splitOn c [] = [[]]"
| "splitOn c (x # xs) =
     (if x = c then [] # splitOn c xs
      else (case splitOn c xs of [] \<Rightarrow> [[x]] | s # ss \<Rightarrow> (x # s) # ss))"

lemma splitOn_nonempty [simp]: "splitOn c s \<noteq> []"
  by (cases s) (auto split: list.split)

definition isSpace :: "char \<Rightarrow> bool" where
  "isSpace c \<longleftrightarrow> (of_char c :: nat) \<in> {9, 10, 11, 12, 13, 32}"

definition TrimSpace :: "string \<Rightarrow> string" where
  "TrimSpace s = rev (dropWhile isSpace (rev (dropWhile isSpace s)))"

lemma TrimSpace_id: "\<forall>c \<in> set s. \<not> isSpace c \<Longrightarrow> TrimSpace s = s"
  unfolding TrimSpace_def by (metis dropWhile_eq_self_iff hd_in_set rev_rev_ident set_rev)

lemma splitOn_no_sep: "c \<notin> set s \<Longrightarrow> splitOn c s = [s]"
  by (induction s) auto

lemma splitOn_append: "c \<notin> set s \<Longrightarrow> splitOn c (s @ c # r) = s # splitOn c r"
  by (induction s) auto

fun joinWith :: "char \<Rightarrow> string list \<Rightarrow> string" where
  "joinWith c [] = []"
| "joinWith c [s] = s"
| "joinWith c (s # ss) = s @ c # joinWith c ss"

lemma splitOn_joinWith:
  "ss \<noteq> [] \<Longrightarrow> \<forall>s \<in> set ss. c \<notin> set s \<Longrightarrow> splitOn c (joinWith c ss) = ss"
  by (induction c ss rule: joinWith.induct) (auto simp: splitOn_no_sep splitOn_append)

text \<open>
  \<open>net.SplitHostPort\<close> on the forms \<open>host:port\<close> and \<open>[host]:port\<close>. The port is
  what follows the last colon; without brackets the host must not hold a second colon, and brackets
  are allowed only around the host.
\<close>

fun lastColon :: "string \<Rightarrow> (string \<times> string) option" where
  "lastColon [] = None"
| "lastColon (x # xs) =
     (case lastColon xs of
        Some (h, p) \<Rightarrow> Some (x # h, p)
      | None \<Rightarrow> if x = CHR '':'' then Some ([], xs) else None)"

definition SplitHostPort :: "string \<Rightarrow> (string \<times> string) option" where
  "SplitHostPort s =
     (case lastColon s of
        None \<Rightarrow> None
      | Some (h, p) \<Rightarrow>
          if CHR ''['' \<in> set p \<or> CHR '']'' \<in> set p then None
          else if h \<noteq> [] \<and> hd h = CHR ''['' then
            (if last h = CHR '']'' \<and> 2 \<le> length h \<and> CHR ''['' \<notin> set (butlast (tl h))
                \<and> CHR '']'' \<notin> set (butlast (tl h))
             then Some (butlast (tl h), p) else None)
          else if CHR '':'' \<in> set h \<or> CHR ''['' \<in> set h \<or> CHR '']'' \<in> set h then None
          else Some (h, p))"

lemma lastColon_no_colon: "CHR '':'' \<notin> set s \<Longrightarrow> lastColon s = None"
  by (induction s) auto

lemma lastColon_append: "CHR '':'' \<notin> set p \<Longrightarrow> lastColon (h @ CHR '':'' # p) = Some (h, p)"
  by (induction h) (auto simp: lastColon_no_colon)

lemma SplitHostPort_plain:
  assumes "set h \<inter> {CHR '':'', CHR ''['', CHR '']''} = {}"
    and "set p \<inter> {CHR '':'', CHR ''['', CHR '']''} = {}"
  shows "SplitHostPort (h @ CHR '':'' # p) = Some (h, p)"
proof -
  have "lastColon (h @ CHR '':'' # p) = Some (h, p)"
    using assms(2) by (intro lastColon_append) auto
  moreover have "h \<noteq> [] \<Longrightarrow> hd h \<noteq> CHR ''[''" using assms(1) by (cases h) auto
  ultimately show ?thesis using assms by (auto simp: SplitHostPort_def)
qed

end
