(* ===== verification/Go_Json.thy ===== *)
theory Go_Json
  imports Go_Text
begin

text \<open>
  The part of Go's \<open>encoding/json\<close> that the REST surface, its clients and the state file of a node use, on byte strings: the
  encoder of strings and the decoder of a JSON text. The parser refuses a nesting of more than 10000, and replaces bytes that are not UTF-8 by the replacement character, as the encoder does.
\<close>

section \<open>Hexadecimal digits and UTF-8\<close>

definition code :: "char \<Rightarrow> nat" where
  "code c = of_char c"

lemma code_less: "code c < 256"
  by (simp add: code_def)

lemma char_of_code [simp]: "char_of (code c) = c"
  by (simp add: code_def)

definition hexChar :: "string \<Rightarrow> nat \<Rightarrow> char" where
  "hexChar table d = table ! d"

definition lowerHex :: string where
  "lowerHex = ''0123456789abcdef''"

definition upperHex :: string where
  "upperHex = ''0123456789ABCDEF''"

definition hexVal :: "char \<Rightarrow> nat option" where
  "hexVal c =
     (if 48 \<le> code c \<and> code c \<le> 57 then Some (code c - 48)
      else if 97 \<le> code c \<and> code c \<le> 102 then Some (code c - 87)
      else if 65 \<le> code c \<and> code c \<le> 70 then Some (code c - 55)
      else None)"

definition hex4 :: "char \<Rightarrow> char \<Rightarrow> char \<Rightarrow> char \<Rightarrow> nat option" where
  "hex4 a b c d =
     (case (hexVal a, hexVal b, hexVal c, hexVal d) of
        (Some w, Some x, Some y, Some z) \<Rightarrow> Some (4096 * w + 256 * x + 16 * y + z)
      | _ \<Rightarrow> None)"

text \<open>The bytes of a code point, and the replacement character.\<close>

definition utf8 :: "nat \<Rightarrow> string" where
  "utf8 u =
     (if u < 128 then [char_of u]
      else if u < 2048 then [char_of (192 + u div 64), char_of (128 + u mod 64)]
      else if u < 65536 then [char_of (224 + u div 4096), char_of (128 + u div 64 mod 64), char_of (128 + u mod 64)]
      else [char_of (240 + u div 262144), char_of (128 + u div 4096 mod 64), char_of (128 + u div 64 mod 64), char_of (128 + u mod 64)])"

definition runeError :: string where
  "runeError = utf8 65533"

text \<open>
  \<open>utf8.DecodeRune\<close> on a text that starts with a byte of at least 128: the length of the sequence it starts, \<open>1\<close> for
  one that is not well-formed.
\<close>

definition leadByte :: "nat \<Rightarrow> nat \<times> nat \<times> nat" where
  "leadByte c =
     (if 194 \<le> c \<and> c \<le> 223 then (2, 128, 191)
      else if c = 224 then (3, 160, 191) else if c = 237 then (3, 128, 159) else if 225 \<le> c \<and> c \<le> 239 then (3, 128, 191)
      else if c = 240 then (4, 144, 191) else if c = 244 then (4, 128, 143) else if 241 \<le> c \<and> c \<le> 243 then (4, 128, 191)
      else (1, 0, 0))"

definition tailOk :: "nat \<times> nat \<times> nat \<Rightarrow> string \<Rightarrow> bool" where
  "tailOk l w =
     (case (l, w) of
        ((k, lo, hi), x # xs) \<Rightarrow> Suc (length w) = k \<and> lo \<le> code x \<and> code x \<le> hi \<and> list_all (\<lambda>y. 128 \<le> code y \<and> code y \<le> 191) xs
      | _ \<Rightarrow> False)"

definition runeLen :: "string \<Rightarrow> nat" where
  "runeLen s =
     (case s of
        [] \<Rightarrow> 1
      | b # r \<Rightarrow> let l = leadByte (code b) in if tailOk l (take (fst l - 1) r) then fst l else 1)"

lemma runeLen_pos: "0 < runeLen s"
  by (auto simp: runeLen_def leadByte_def Let_def split: list.split)

section \<open>Strings\<close>

abbreviation "quote \<equiv> CHR 0x22"
abbreviation "backslash \<equiv> CHR 0x5C"

text \<open>A string literal behind its opening quote: its value and the text behind the closing one.\<close>

definition isHigh :: "nat \<Rightarrow> bool" where
  "isHigh u \<longleftrightarrow> 55296 \<le> u \<and> u < 56320"

definition isLow :: "nat \<Rightarrow> bool" where
  "isLow u \<longleftrightarrow> 56320 \<le> u \<and> u < 57344"

definition lowSurrogate :: "string \<Rightarrow> nat option" where
  "lowSurrogate s =
     (case s of
        x # y # a # b # c # d # _ \<Rightarrow>
          if x = backslash \<and> y = CHR ''u'' then (case hex4 a b c d of Some l \<Rightarrow> if isLow l then Some l else None | None \<Rightarrow> None) else None
      | _ \<Rightarrow> None)"

definition simpleEscape :: "char \<Rightarrow> char option" where
  "simpleEscape c =
     (if c = quote \<or> c = backslash \<or> c = CHR ''/'' then Some c
      else if c = CHR ''b'' then Some (char_of (8::nat))
      else if c = CHR ''f'' then Some (char_of (12::nat))
      else if c = CHR ''n'' then Some (char_of (10::nat))
      else if c = CHR ''r'' then Some (char_of (13::nat))
      else if c = CHR ''t'' then Some (char_of (9::nat))
      else None)"

definition escape4 :: "string \<Rightarrow> (string \<times> string) option" where
  "escape4 r =
     (case r of
        w # x # y # z # r2 \<Rightarrow>
          (case hex4 w x y z of
             None \<Rightarrow> None
           | Some u \<Rightarrow>
               if isHigh u then
                 (case lowSurrogate r2 of
                    Some l \<Rightarrow> Some (utf8 (65536 + 1024 * (u - 55296) + (l - 56320)), drop 6 r2)
                  | None \<Rightarrow> Some (runeError, r2))
               else Some (if isLow u then runeError else utf8 u, r2))
      | _ \<Rightarrow> None)"

definition strElem :: "char \<Rightarrow> string \<Rightarrow> (string \<times> string) option" where
  "strElem c r =
     (if c = backslash then
        (case r of
           [] \<Rightarrow> None
         | e # r1 \<Rightarrow> if e = CHR ''u'' then escape4 r1 else map_option (\<lambda>v. ([v], r1)) (simpleEscape e))
      else if code c < 32 then None
      else if code c < 128 then Some ([c], r)
      else if runeLen (c # r) = 1 then Some (runeError, r)
      else Some (take (runeLen (c # r)) (c # r), drop (runeLen (c # r)) (c # r)))"

lemma strElem_shorter: "strElem c r = Some (p, r') \<Longrightarrow> length r' < Suc (length r)"
  using runeLen_pos [of "c # r"]
  by (auto simp: strElem_def escape4_def split: list.splits if_splits option.splits)

function pStr :: "string \<Rightarrow> (string \<times> string) option" where
  "pStr [] = None"
| "pStr (c # r) =
     (if c = quote then Some ([], r)
      else (case strElem c r of
              None \<Rightarrow> None
            | Some (p, r') \<Rightarrow> map_option (\<lambda>(v, rest). (p @ v, rest)) (pStr r')))"
  by pat_completeness auto
termination
  by (relation "measure length") (auto dest: strElem_shorter)

text \<open>The encoder: quotes, backslashes, control characters and the three HTML characters are escaped.\<close>

definition encChar :: "char \<Rightarrow> string" where
  "encChar c =
     (if c = quote \<or> c = backslash then [backslash, c]
      else if code c = 8 then [backslash, CHR ''b'']
      else if code c = 12 then [backslash, CHR ''f'']
      else if code c = 10 then [backslash, CHR ''n'']
      else if code c = 13 then [backslash, CHR ''r'']
      else if code c = 9 then [backslash, CHR ''t'']
      else if code c < 32 \<or> c = CHR ''<'' \<or> c = CHR ''>'' \<or> c = CHR ''&''
        then [backslash, CHR ''u'', CHR ''0'', CHR ''0'', hexChar lowerHex (code c div 16), hexChar lowerHex (code c mod 16)]
      else [c])"

definition encElem :: "char \<Rightarrow> string \<Rightarrow> string \<times> string" where
  "encElem c r =
     (let k = runeLen (c # r); rune = take k (c # r); rest = drop k (c # r) in
      if code c < 128 then (encChar c, r)
      else if k = 1 then (backslash # ''ufffd'', r)
      else if rune = utf8 8232 then (backslash # ''u2028'', rest)
      else if rune = utf8 8233 then (backslash # ''u2029'', rest)
      else (rune, rest))"

lemma encElem_shorter: "encElem c r = (p, r') \<Longrightarrow> length r' < Suc (length r)"
  using runeLen_pos [of "c # r"] by (auto simp: encElem_def Let_def split: if_splits)

function encBody :: "string \<Rightarrow> string" where
  "encBody [] = []"
| "encBody (c # r) = fst (encElem c r) @ encBody (snd (encElem c r))"
  by pat_completeness auto
termination
  by (relation "measure length") (simp_all add: encElem_shorter [OF surjective_pairing])

definition encStr :: "string \<Rightarrow> string" where
  "encStr s = quote # encBody s @ [quote]"

section \<open>Values\<close>

datatype json = JNull | JBool bool | JNum string | JStr string | JArr "json list" | JObj "(string \<times> json) list"

definition isWs :: "char \<Rightarrow> bool" where
  "isWs c \<longleftrightarrow> code c \<in> {9, 10, 13, 32}"

definition skipWs :: "string \<Rightarrow> string" where
  "skipWs s = dropWhile isWs s"

definition stripWord :: "string \<Rightarrow> string \<Rightarrow> string option" where
  "stripWord w s = (if take (length w) s = w then Some (drop (length w) s) else None)"

text \<open>A number: sign, integer part without leading zeros, fraction, exponent.\<close>

definition pDigits :: "string \<Rightarrow> (string \<times> string) option" where
  "pDigits s = (let ds = takeWhile isDigit s in if ds = [] then None else Some (ds, dropWhile isDigit s))"

definition pInt :: "string \<Rightarrow> (string \<times> string) option" where
  "pInt s =
     (case s of
        c # r \<Rightarrow> if c = CHR ''0'' then Some ([c], r) else pDigits s
      | [] \<Rightarrow> None)"

definition pFrac :: "string \<Rightarrow> (string \<times> string) option" where
  "pFrac s =
     (case s of
        c # r \<Rightarrow> if c = CHR ''.'' then map_option (\<lambda>(ds, r'). (c # ds, r')) (pDigits r) else Some ([], s)
      | [] \<Rightarrow> Some ([], []))"

definition pExp :: "string \<Rightarrow> (string \<times> string) option" where
  "pExp s =
     (case s of
        c # r \<Rightarrow>
          if c = CHR ''e'' \<or> c = CHR ''E'' then
            (let (sign, r1) = (case r of x # r1 \<Rightarrow> if x = CHR ''+'' \<or> x = CHR ''-'' then ([x], r1) else ([], r) | [] \<Rightarrow> ([], r))
             in map_option (\<lambda>(ds, r'). (c # sign @ ds, r')) (pDigits r1))
          else Some ([], s)
      | [] \<Rightarrow> Some ([], []))"

definition pNum :: "string \<Rightarrow> (json \<times> string) option" where
  "pNum s =
     (let (sign, r0) = (case s of c # r \<Rightarrow> if c = CHR ''-'' then ([c], r) else ([], s) | [] \<Rightarrow> ([], s))
      in case pInt r0 of None \<Rightarrow> None | Some (i, r1) \<Rightarrow>
           (case pFrac r1 of None \<Rightarrow> None | Some (f, r2) \<Rightarrow>
              (case pExp r2 of None \<Rightarrow> None | Some (e, r3) \<Rightarrow> Some (JNum (sign @ i @ f @ e), r3))))"

section \<open>Texts\<close>

datatype token = TOpen | TClose | TOpenArr | TCloseArr | TComma | TColon | TStr string | TLit json | TBad

definition punct :: "char \<Rightarrow> token option" where
  "punct c =
     (if c = CHR ''{'' then Some TOpen else if c = CHR ''}'' then Some TClose
      else if c = CHR ''['' then Some TOpenArr else if c = CHR '']'' then Some TCloseArr
      else if c = CHR '','' then Some TComma else if c = CHR '':'' then Some TColon else None)"

definition pWord :: "string \<Rightarrow> (json \<times> string) option" where
  "pWord s =
     (case stripWord ''null'' s of Some r \<Rightarrow> Some (JNull, r) | None \<Rightarrow>
     (case stripWord ''true'' s of Some r \<Rightarrow> Some (JBool True, r) | None \<Rightarrow>
     (case stripWord ''false'' s of Some r \<Rightarrow> Some (JBool False, r) | None \<Rightarrow> pNum s)))"

definition nextToken :: "string \<Rightarrow> (token \<times> string) option" where
  "nextToken s =
     (case skipWs s of
        [] \<Rightarrow> None
      | c # r \<Rightarrow>
          (case punct c of
             Some t \<Rightarrow> Some (t, r)
           | None \<Rightarrow>
               if c = quote then map_option (\<lambda>(v, r'). (TStr v, r')) (pStr r)
               else map_option (\<lambda>(v, r'). (TLit v, r')) (pWord (c # r))))"

lemma pStr_shorter: "pStr s = Some (v, r) \<Longrightarrow> length r < length s"
proof (induction s arbitrary: v r rule: pStr.induct)
  case (2 c s)
  show ?case
  proof (cases "c = quote")
    case False
    with "2.prems" obtain p r' w where "strElem c s = Some (p, r')" "pStr r' = Some (w, r)" by (auto split: option.splits)
    with "2.IH" [OF False, of "(p, r')"] strElem_shorter show ?thesis by fastforce
  qed (use "2.prems" in simp)
qed simp

lemma pDigits_shorter: "pDigits s = Some (v, r) \<Longrightarrow> length r < length s"
proof -
  assume "pDigits s = Some (v, r)"
  then have "s = takeWhile isDigit s @ r" "takeWhile isDigit s \<noteq> []" by (auto simp: pDigits_def Let_def split: if_splits)
  then show ?thesis by (metis add_diff_cancel_right' length_append length_greater_0_conv zero_less_diff)
qed

lemma pNum_shorter: "pNum s = Some (v, r) \<Longrightarrow> length r < length s"
proof -
  have i: "length r < length s" if "pInt s = Some (v, r)" for s v r
    using that by (auto simp: pInt_def split: list.splits if_splits dest: pDigits_shorter)
  have f: "length r \<le> length s" if "pFrac s = Some (v, r)" for s v r
    using that by (fastforce simp: pFrac_def split: list.splits if_splits dest: pDigits_shorter)
  have e: "length r \<le> length s" if "pExp s = Some (v, r)" for s v r
    using that by (fastforce simp: pExp_def Let_def split: list.splits if_splits prod.splits dest: pDigits_shorter)
  show "pNum s = Some (v, r) \<Longrightarrow> length r < length s"
    unfolding pNum_def Let_def
    by (auto split: prod.splits option.splits list.splits if_splits dest!: i f e)
qed

lemma nextToken_shorter: "nextToken s = Some (t, r) \<Longrightarrow> length r < length s"
proof -
  assume n: "nextToken s = Some (t, r)"
  have w: "length r < length s" if p: "pWord s = Some (v, r)" for s v r
  proof -
    have "length r < length s" if "stripWord w s = Some r" "w \<noteq> []" for w
      using that by (cases s) (auto simp: stripWord_def split: if_splits)
    with p pNum_shorter [of s v r] show ?thesis by (auto simp: pWord_def split: option.splits)
  qed
  have "length r < length (skipWs s)"
    using n by (auto simp: nextToken_def split: list.splits option.splits if_splits dest: pStr_shorter dest!: w)
  then show ?thesis using length_dropWhile_le [of isWs s] by (simp add: skipWs_def)
qed

function lexJson :: "string \<Rightarrow> token list" where
  "lexJson s = (case nextToken s of None \<Rightarrow> if skipWs s = [] then [] else [TBad] | Some (t, r) \<Rightarrow> t # lexJson r)"
  by pat_completeness auto
termination
  by (relation "measure length") (auto dest: nextToken_shorter)

declare lexJson.simps [simp del]

text \<open>
  The grammar, as the scanner of the library has it: a stack of the values that are open, and what may come next.
\<close>

datatype frame = InArr "json list" | InObj "(string \<times> json) list" | InMember "(string \<times> json) list" string

datatype pmode = WantValue | WantValueOrEnd | WantKey | WantKeyOrEnd | WantColon | AfterValue

definition maxNestingDepth :: nat where
  "maxNestingDepth = 10000"

definition complete :: "json \<Rightarrow> frame list \<Rightarrow> frame list" where
  "complete v st =
     (case st of
        InArr vs # st' \<Rightarrow> InArr (vs @ [v]) # st'
      | InMember ms k # st' \<Rightarrow> InObj (ms @ [(k, v)]) # st'
      | _ \<Rightarrow> st)"

fun pRun :: "frame list \<Rightarrow> pmode \<Rightarrow> token list \<Rightarrow> (json \<times> token list) option" where
  "pRun st m [] = None"
| "pRun st m (t # ts) =
     (let done = (\<lambda>v st. if st = [] then Some (v, ts) else pRun (complete v st) AfterValue ts);
          open' = (\<lambda>f m. if length st < maxNestingDepth then pRun (f # st) m ts else None)
      in case (m, t, st) of
           (WantColon, TColon, _) \<Rightarrow> pRun st WantValue ts
         | (WantKey, TStr k, InObj ms # st') \<Rightarrow> pRun (InMember ms k # st') WantColon ts
         | (WantKeyOrEnd, TStr k, InObj ms # st') \<Rightarrow> pRun (InMember ms k # st') WantColon ts
         | (WantKeyOrEnd, TClose, InObj ms # st') \<Rightarrow> done (JObj ms) st'
         | (AfterValue, TComma, InObj ms # _) \<Rightarrow> pRun st WantKey ts
         | (AfterValue, TComma, InArr vs # _) \<Rightarrow> pRun st WantValue ts
         | (AfterValue, TClose, InObj ms # st') \<Rightarrow> done (JObj ms) st'
         | (AfterValue, TCloseArr, InArr vs # st') \<Rightarrow> done (JArr vs) st'
         | (WantValueOrEnd, TCloseArr, InArr vs # st') \<Rightarrow> done (JArr vs) st'
         | _ \<Rightarrow>
             if m = WantValue \<or> m = WantValueOrEnd then
               (case t of
                  TOpen \<Rightarrow> open' (InObj []) WantKeyOrEnd
                | TOpenArr \<Rightarrow> open' (InArr []) WantValueOrEnd
                | TStr s \<Rightarrow> done (JStr s) st
                | TLit v \<Rightarrow> done v st
                | _ \<Rightarrow> None)
             else None)"

text \<open>\<open>Decoder.Decode\<close> stops behind the value; \<open>json.Unmarshal\<close> wants nothing but white space there.\<close>

definition jsonDecode :: "string \<Rightarrow> json option" where
  "jsonDecode s = map_option fst (pRun [] WantValue (lexJson s))"

definition jsonUnmarshal :: "string \<Rightarrow> json option" where
  "jsonUnmarshal s = (case pRun [] WantValue (lexJson s) of Some (v, []) \<Rightarrow> Some v | _ \<Rightarrow> None)"

text \<open>Names of members are compared without regard to case.\<close>

definition asciiLower :: "string \<Rightarrow> string" where
  "asciiLower s = map (\<lambda>c. if 65 \<le> code c \<and> code c \<le> 90 then char_of (code c + 32) else c) s"

text \<open>A member as the encoder writes it.\<close>

definition jsonMember :: "string \<Rightarrow> string \<Rightarrow> string" where
  "jsonMember k text = encStr k @ '':'' @ text"

definition newline :: string where
  "newline = [char_of (10::nat)]"

section \<open>Decoding what was encoded\<close>

text \<open>What a string is once its ill-formed bytes are replaced, and when it is left as it is.\<close>

definition cleanElem :: "char \<Rightarrow> string \<Rightarrow> string \<times> string" where
  "cleanElem c r =
     (if code c < 128 then ([c], r)
      else if runeLen (c # r) = 1 then (runeError, r)
      else (take (runeLen (c # r)) (c # r), drop (runeLen (c # r)) (c # r)))"

lemma cleanElem_shorter: "length (snd (cleanElem c r)) < Suc (length r)"
  using runeLen_pos [of "c # r"] by (auto simp: cleanElem_def)

function toValidUTF8 :: "string \<Rightarrow> string" where
  "toValidUTF8 [] = []"
| "toValidUTF8 (c # r) = fst (cleanElem c r) @ toValidUTF8 (snd (cleanElem c r))"
  by pat_completeness auto
termination
  by (relation "measure length") (simp_all add: cleanElem_shorter)

definition validUTF8 :: "string \<Rightarrow> bool" where
  "validUTF8 s \<longleftrightarrow> toValidUTF8 s = s"

lemma ascii_valid: "\<forall>c \<in> set s. code c < 128 \<Longrightarrow> validUTF8 s"
  unfolding validUTF8_def by (induction s) (auto simp: cleanElem_def)

text \<open>One element: what the encoder writes for it, whatever follows, the decoder reads back.\<close>

lemma hexVal_lower: "d < 16 \<Longrightarrow> hexVal (hexChar lowerHex d) = Some d"
proof -
  have "\<forall>d \<in> set [0..<16]. hexVal (hexChar lowerHex d) = Some d" by code_simp
  then show "d < 16 \<Longrightarrow> ?thesis" by simp
qed

lemma low_elem: "code c < 128 \<Longrightarrow> (encChar c @ t) \<noteq> [] \<and> hd (encChar c @ t) \<noteq> quote \<and>
   strElem (hd (encChar c @ t)) (tl (encChar c @ t)) = Some ([c], t)"
proof -
  assume c: "code c < 128"
  have h: "hexVal (CHR ''0'') = Some 0" "code backslash = 92" "hexVal (hexChar lowerHex (code c div 16)) = Some (code c div 16)"
    "hexVal (hexChar lowerHex (code c mod 16)) = Some (code c mod 16)" "16 * (code c div 16) + code c mod 16 = code c"
    using c by (simp_all add: hexVal_lower) code_simp+
  have n: "char_of (8::nat) = c" if "code c = 8" for c using that char_of_code [of c] by simp
  have n12: "char_of (12::nat) = c" if "code c = 12" for c using that char_of_code [of c] by simp
  have n10: "char_of (10::nat) = c" if "code c = 10" for c using that char_of_code [of c] by simp
  have n13: "char_of (13::nat) = c" if "code c = 13" for c using that char_of_code [of c] by simp
  have n9: "char_of (9::nat) = c" if "code c = 9" for c using that char_of_code [of c] by simp
  show ?thesis
    using c h by (auto simp: encChar_def strElem_def simpleEscape_def escape4_def hex4_def isHigh_def isLow_def utf8_def n n12 n10 n13 n9)
qed

lemma tailOk_length: "tailOk l w \<Longrightarrow> Suc (length w) = fst l"
  by (cases l; cases w) (auto simp: tailOk_def)

lemma runeLen_multi:
  assumes "1 < runeLen (c # r)"
  shows "runeLen (c # r) = fst (leadByte (code c))" "tailOk (leadByte (code c)) (take (runeLen (c # r) - 1) r)" "runeLen (c # r) \<le> length (c # r)"
proof -
  show "runeLen (c # r) = fst (leadByte (code c))" and t: "tailOk (leadByte (code c)) (take (runeLen (c # r) - 1) r)"
    using assms by (auto simp: runeLen_def Let_def split: if_splits)
  with tailOk_length [OF t] show "runeLen (c # r) \<le> length (c # r)" by simp
qed

lemma runeLen_take:
  assumes "1 < runeLen (c # r)"
  shows "runeLen (c # take (runeLen (c # r) - 1) r @ t) = runeLen (c # r)"
proof -
  define w where "w = take (runeLen (c # r) - 1) r"
  note m = runeLen_multi(1,2) [OF assms, folded w_def]
  then have "take (fst (leadByte (code c)) - 1) (w @ t) = w" using tailOk_length [OF m(2)] by simp
  then have "runeLen (c # w @ t) = fst (leadByte (code c))" using m(2) by (simp add: runeLen_def Let_def)
  then show ?thesis using m(1) by (simp add: w_def)
qed

lemma rune_elem:
  assumes "128 \<le> code c" "1 < runeLen (c # r)"
  shows "let w = take (runeLen (c # r)) (c # r) @ t in w \<noteq> [] \<and> hd w = c \<and> strElem (hd w) (tl w) = Some (take (runeLen (c # r)) (c # r), t)"
proof -
  let ?k = "runeLen (c # r)"
  have w: "take ?k (c # r) @ t = c # (take (?k - 1) r @ t)" using assms(2) by (cases ?k) auto
  have k: "runeLen (c # (take (?k - 1) r @ t)) = ?k" using runeLen_take [OF assms(2)] by simp
  have "take ?k (take ?k (c # r) @ t) = take ?k (c # r)" "drop ?k (take ?k (c # r) @ t) = t"
    using runeLen_multi(3) [OF assms(2)] by simp_all
  moreover have "code backslash = 92" by code_simp
  ultimately show ?thesis using assms k w by (auto simp: Let_def strElem_def)
qed

lemma u_elem:
  "strElem backslash (''ufffd'' @ t) = Some (runeError, t)" "strElem backslash (''u2028'' @ t) = Some (utf8 8232, t)"
  "strElem backslash (''u2029'' @ t) = Some (utf8 8233, t)"
proof -
  have h: "hex4 (CHR ''f'') (CHR ''f'') (CHR ''f'') (CHR ''d'') = Some 65533" by (simp add: hex4_def hexVal_def code_def)
  have h1: "hex4 (CHR ''2'') (CHR ''0'') (CHR ''2'') (CHR ''8'') = Some 8232" by (simp add: hex4_def hexVal_def code_def)
  have h2: "hex4 (CHR ''2'') (CHR ''0'') (CHR ''2'') (CHR ''9'') = Some 8233" by (simp add: hex4_def hexVal_def code_def)
  show "strElem backslash (''ufffd'' @ t) = Some (runeError, t)" "strElem backslash (''u2028'' @ t) = Some (utf8 8232, t)"
    "strElem backslash (''u2029'' @ t) = Some (utf8 8233, t)"
    by (simp_all add: strElem_def escape4_def isHigh_def isLow_def runeError_def h h1 h2)
qed

definition decodesTo :: "string \<Rightarrow> string \<Rightarrow> bool" where
  "decodesTo w v \<longleftrightarrow> (\<forall>t. w @ t \<noteq> [] \<and> hd (w @ t) \<noteq> quote \<and> strElem (hd (w @ t)) (tl (w @ t)) = Some (v, t))"

lemma u_decodes: "decodesTo (backslash # ''ufffd'') runeError" "decodesTo (backslash # ''u2028'') (utf8 8232)" "decodesTo (backslash # ''u2029'') (utf8 8233)"
  using u_elem by (simp_all add: decodesTo_def)

lemma encElem_decoded: "snd (encElem c r) = snd (cleanElem c r)" "decodesTo (fst (encElem c r)) (fst (cleanElem c r))"
proof -
  have q: "code quote = 34" by code_simp
  show "snd (encElem c r) = snd (cleanElem c r)" by (simp add: encElem_def cleanElem_def Let_def)
  show "decodesTo (fst (encElem c r)) (fst (cleanElem c r))"
  proof (cases "code c < 128")
    case True
    then show ?thesis using low_elem [OF True] by (simp add: encElem_def cleanElem_def decodesTo_def)
  next
    case False
    define w where "w = take (runeLen (c # r)) (c # r)"
    have "decodesTo w w" if "runeLen (c # r) \<noteq> 1"
    proof -
      have "1 < runeLen (c # r)" using that runeLen_pos [of "c # r"] by linarith
      then have "let u = w @ t in u \<noteq> [] \<and> hd u = c \<and> strElem (hd u) (tl u) = Some (w, t)" for t
        using rune_elem [of c r t] False by (simp add: w_def)
      moreover have "c \<noteq> quote" using False q by auto
      ultimately show ?thesis unfolding decodesTo_def Let_def by metis
    qed
    then show ?thesis using False u_decodes by (auto simp: encElem_def cleanElem_def Let_def w_def [symmetric])
  qed
qed

text \<open>
  A string literal reads back as the string, with ill-formed bytes replaced.
\<close>

lemma pStr_encBody: "pStr (encBody s @ quote # t) = Some (toValidUTF8 s, t)"
proof (induction s rule: toValidUTF8.induct)
  case (2 c r)
  obtain w r1 where e: "encElem c r = (w, r1)" by (cases "encElem c r")
  obtain v where v: "cleanElem c r = (v, r1)" "decodesTo w v"
    using encElem_decoded [of c r] e by (cases "cleanElem c r") auto
  then have n: "w @ encBody r1 @ quote # t \<noteq> []" "hd (w @ encBody r1 @ quote # t) \<noteq> quote"
    "strElem (hd (w @ encBody r1 @ quote # t)) (tl (w @ encBody r1 @ quote # t)) = Some (v, encBody r1 @ quote # t)"
    unfolding decodesTo_def by blast+
  from n(1) obtain x y where xy: "w @ encBody r1 @ quote # t = x # y" by (cases "w @ encBody r1 @ quote # t") auto
  have "pStr (encBody (c # r) @ quote # t) = pStr (x # y)" using e xy by simp
  also have "\<dots> = Some (v @ toValidUTF8 r1, t)" using n(2,3) "2.IH" v xy by simp
  finally show ?case using v by simp
qed simp

lemma lex_string: "lexJson (encStr s @ t) = TStr (toValidUTF8 s) # lexJson t"
proof -
  have "\<not> isWs quote" "punct quote = None" by code_simp+
  then have "nextToken (encStr s @ t) = Some (TStr (toValidUTF8 s), t)"
    by (simp add: nextToken_def encStr_def skipWs_def pStr_encBody)
  then show ?thesis by (simp add: lexJson.simps [of "encStr s @ t"])
qed

lemma lex_punct: "punct c = Some p \<Longrightarrow> \<not> isWs c \<Longrightarrow> lexJson (c # t) = p # lexJson t"
  by (simp add: lexJson.simps [of "c # t"] nextToken_def skipWs_def)

lemma lex_simps:
  "lexJson (CHR ''{'' # t) = TOpen # lexJson t" "lexJson (CHR ''}'' # t) = TClose # lexJson t"
  "lexJson (CHR '','' # t) = TComma # lexJson t" "lexJson (CHR '':'' # t) = TColon # lexJson t"
  by (rule lex_punct; simp add: punct_def isWs_def code_def)+

text \<open>A decimal number, in front of a character that cannot continue one.\<close>

lemma showNat_head: "showNat n = CHR ''0'' # r \<Longrightarrow> r = [] \<and> n = 0"
proof (induction n arbitrary: r rule: showNat.induct)
  case (1 n)
  show ?case
  proof (cases "n < 10")
    case True
    then have "digitChar n = CHR ''0''" "r = []" using "1.prems" by (simp_all add: showNat.simps [of n])
    moreover have "digitVal (CHR ''0'') = 0" by code_simp
    ultimately show ?thesis using digitVal_digitChar [OF True] by simp
  next
    case False
    then obtain r' where "showNat (n div 10) = CHR ''0'' # r'" using "1.prems" showNat_nonempty [of "n div 10"]
      by (cases "showNat (n div 10)") (auto simp: showNat.simps [of n])
    with "1.IH" [OF False] have "n div 10 = 0" by blast
    with False show ?thesis by (simp add: div_eq_0_iff)
  qed
qed

lemma pInt_showNat: "\<not> isDigit c \<Longrightarrow> pInt (showNat n @ c # t) = Some (showNat n, c # t)"
proof -
  assume c: "\<not> isDigit c"
  obtain d r where d: "showNat n = d # r" by (cases "showNat n") auto
  have ds: "\<forall>x \<in> set (showNat n). isDigit x" using showNat_digits by blast
  show ?thesis
  proof (cases "d = CHR ''0''")
    case True
    with showNat_head [of n r] d show ?thesis by (simp add: pInt_def)
  next
    case False
    have "takeWhile isDigit (showNat n @ c # t) = showNat n" "dropWhile isDigit (showNat n @ c # t) = c # t"
      using ds c by (simp_all add: takeWhile_append2 dropWhile_append2)
    with False d show ?thesis by (simp add: pInt_def pDigits_def Let_def)
  qed
qed

lemma lex_number:
  assumes "c = CHR '','' \<or> c = CHR ''}'' \<or> c = CHR 0x0A"
  shows "lexJson (showNat n @ c # t) = TLit (JNum (showNat n)) # lexJson (c # t)"
proof -
  obtain d r where d: "showNat n = d # r" by (cases "showNat n") auto
  then have dd: "isDigit d" using showNat_digits [of d n] by simp
  have nd: "\<not> isDigit c" "c \<noteq> CHR ''.''" "c \<noteq> CHR ''e''" "c \<noteq> CHR ''E''" using assms by (auto simp: isDigit_def)
  have w: "\<not> isWs d" "punct d = None" "d \<noteq> quote" "d \<noteq> CHR ''-''" "d \<noteq> CHR ''n''" "d \<noteq> CHR ''t''" "d \<noteq> CHR ''f''"
    using dd by (auto simp: isDigit_def isWs_def code_def punct_def)
  have "pFrac (c # t) = Some ([], c # t)" "pExp (c # t) = Some ([], c # t)" using nd by (simp_all add: pFrac_def pExp_def)
  with pInt_showNat [OF nd(1), of n t] d w(4) have "pNum (showNat n @ c # t) = Some (JNum (showNat n), c # t)"
    by (simp add: pNum_def)
  with d w have "nextToken (showNat n @ c # t) = Some (TLit (JNum (showNat n)), c # t)"
    by (simp add: nextToken_def skipWs_def pWord_def stripWord_def)
  then show ?thesis by (simp add: lexJson.simps [of "showNat n @ c # t"])
qed

declare pStr.simps [simp del] encBody.simps [simp del] toValidUTF8.simps [simp del] pRun.simps(2) [simp del]

text \<open>The steps of the grammar on the texts of the REST surface.\<close>

lemma pRun_steps:
  "pRun st WantValue (TOpen # ts) = (if length st < maxNestingDepth then pRun (InObj [] # st) WantKeyOrEnd ts else None)"
  "pRun (InObj ms # st) WantKeyOrEnd (TStr k # ts) = pRun (InMember ms k # st) WantColon ts"
  "pRun (InObj ms # st) WantKey (TStr k # ts) = pRun (InMember ms k # st) WantColon ts"
  "pRun st WantColon (TColon # ts) = pRun st WantValue ts"
  "pRun (InMember ms k # st) WantValue (TStr v # ts) = pRun (InObj (ms @ [(k, JStr v)]) # st) AfterValue ts"
  "pRun (InMember ms k # st) WantValue (TLit j # ts) = pRun (InObj (ms @ [(k, j)]) # st) AfterValue ts"
  "pRun (InObj ms # st) AfterValue (TComma # ts) = pRun (InObj ms # st) WantKey ts"
  "pRun (InObj ms # InMember ms' k # st) AfterValue (TClose # ts) = pRun (InObj (ms' @ [(k, JObj ms)]) # st) AfterValue ts"
  "pRun [InObj ms] AfterValue (TClose # ts) = Some (JObj ms, ts)"
  by (simp_all add: pRun.simps(2) complete_def)

lemma depth_small: "0 < maxNestingDepth" "Suc 0 < maxNestingDepth"
  by (simp_all add: maxNestingDepth_def)

lemma lex_Nil: "lexJson [] = []"
  by (simp add: lexJson.simps [of "[]"] nextToken_def skipWs_def)

lemmas decode_simps = jsonDecode_def jsonUnmarshal_def lex_simps lex_Nil lex_string lex_number pRun_steps depth_small

end
