(* ===== verification/Persistence.thy ===== *)
theory Persistence
  imports KV_Prelude
begin

text \<open>
  The durability layer of one node, \<open>internal/raft/persistence/persistence.go\<close>: the record
  format and the recovery scan of \<open>log.dat\<close>, the append, truncate and rewrite primitives, and
  the term and vote in \<open>state.json\<close>.

  \<open>log.dat\<close> is modelled byte for byte: a four-byte big-endian length, then the gob stream of
  one \<open>LogEntry\<close>. The gob stream is the one the encoding's documentation prescribes for this
  struct on a fresh encoder: one type-definition message, then one value message with
  delta-numbered fields, zero fields left out. The type is given the id 65, the first a process hands
  out. The decoder model accepts the streams of this type and rejects every other byte string.
  \<open>state.json\<close> is always replaced as a whole by a rename, so its content is modelled as the
  value it decodes to; \<open>State_Json\<close> shows that this is what its text amounts to.
\<close>

section \<open>The record format\<close>

record LogEntry =
  Term :: uint64
  Index :: uint64
  Command :: bytes

subsection \<open>Unsigned integers in gob\<close>

text \<open>Big-endian bytes without leading zeros.\<close>

fun be_bytes :: "nat \<Rightarrow> bytes" where
  "be_bytes n = (if n = 0 then [] else be_bytes (n div 256) @ [of_nat (n mod 256)])"

declare be_bytes.simps [simp del]

definition be_value :: "bytes \<Rightarrow> nat" where
  "be_value bs = foldl (\<lambda>a b. a * 256 + unat b) 0 bs"

text \<open>
  A number below 128 is one byte; a larger one is the negated byte count followed by the bytes.
\<close>

definition gobUint :: "nat \<Rightarrow> bytes" where
  "gobUint n = (if n < 128 then [of_nat n]
     else (let bs = be_bytes n in of_nat (256 - length bs) # bs))"

fun readUint :: "bytes \<Rightarrow> (nat \<times> bytes) option" where
  "readUint [] = None"
| "readUint (b # bs) =
     (if unat b < 128 then Some (unat b, bs)
      else (let k = 256 - unat b in
        if 8 < k \<or> length bs < k then None else Some (be_value (take k bs), drop k bs)))"

lemma be_value_snoc: "be_value (bs @ [b]) = be_value bs * 256 + unat b"
  by (simp add: be_value_def)

lemma be_value_be_bytes [simp]: "be_value (be_bytes n) = n"
proof (induction n rule: be_bytes.induct)
  case (1 n)
  show ?case
  proof (cases "n = 0")
    case True
    then show ?thesis by (simp add: be_bytes.simps be_value_def)
  next
    case False
    have "unat (of_nat (n mod 256) :: byte) = n mod 256"
      by (simp add: unat_of_nat)
    with False "1.IH" [OF False] show ?thesis
      by (simp add: be_bytes.simps [of n] be_value_snoc)
  qed
qed

lemma length_be_bytes: "n < 256 ^ k \<Longrightarrow> length (be_bytes n) \<le> k"
proof (induction k arbitrary: n)
  case 0
  then show ?case by (simp add: be_bytes.simps)
next
  case (Suc k)
  then have "n div 256 < 256 ^ k" by (simp add: less_mult_imp_div_less mult.commute)
  then have "length (be_bytes (n div 256)) \<le> k" by (rule Suc.IH)
  then show ?case by (simp add: be_bytes.simps [of n])
qed

lemma be_bytes_nonempty: "0 < n \<Longrightarrow> be_bytes n \<noteq> []"
  by (simp add: be_bytes.simps [of n])

lemma gobUint_nonempty [simp]: "gobUint n \<noteq> []"
  by (simp add: gobUint_def Let_def)

lemma readUint_gobUint:
  assumes "n < 2 ^ 64"
  shows "readUint (gobUint n @ r) = Some (n, r)"
proof (cases "n < 128")
  case True
  then have "unat (of_nat n :: byte) = n" by (simp add: unat_of_nat)
  with True show ?thesis by (simp add: gobUint_def)
next
  case False
  let ?bs = "be_bytes n"
  have le: "length ?bs \<le> 8" using assms by (intro length_be_bytes) simp
  have pos: "0 < length ?bs" using False be_bytes_nonempty [of n] by simp
  have u: "unat (of_nat (256 - length ?bs) :: byte) = 256 - length ?bs"
    using pos by (simp add: unat_of_nat)
  have "\<not> 256 - length ?bs < 128" and "256 - (256 - length ?bs) = length ?bs"
    using le by simp_all
  with False le u show ?thesis by (simp add: gobUint_def Let_def)
qed

subsection \<open>The gob stream of a log entry\<close>

definition asciiBytes :: "string \<Rightarrow> bytes" where
  "asciiBytes s = map of_char s"

definition gobString :: "string \<Rightarrow> bytes" where
  "gobString s = gobUint (length s) @ asciiBytes s"

definition gobField :: "string \<Rightarrow> byte \<Rightarrow> bytes" where
  "gobField name tid = [1] @ gobString name @ [1, tid, 0]"

text \<open>The type-definition message: type id \<open>-65\<close>, a struct type, its name, id and fields.\<close>

definition typeDef :: bytes where
  "typeDef =
     (let body = [0xff, 0x81, 3, 1, 1] @ gobString ''LogEntry'' @ [1, 0xff, 0x82, 0, 1, 3]
            @ gobField ''Term'' 6 @ gobField ''Index'' 6 @ gobField ''Command'' 10 @ [0, 0]
      in gobUint (length body) @ body)"

text \<open>
  A field is preceded by the distance to the last field written; a zero field is not written, so its
  distance is added to the next one.
\<close>

definition encUintField :: "nat \<Rightarrow> nat \<Rightarrow> bytes" where
  "encUintField d v = (if v = 0 then [] else gobUint d @ gobUint v)"

definition encBytesField :: "nat \<Rightarrow> bytes \<Rightarrow> bytes" where
  "encBytesField d v = (if v = [] then [] else gobUint d @ gobUint (length v) @ v)"

definition gobValue :: "LogEntry \<Rightarrow> bytes" where
  "gobValue e =
     (let d2 = (if Term e = 0 then 2 else 1);
          d3 = (if Index e = 0 then d2 + 1 else 1)
      in encUintField 1 (Term e) @ encUintField d2 (Index e) @ encBytesField d3 (Command e) @ [0])"

definition gobEncode :: "LogEntry \<Rightarrow> bytes" where
  "gobEncode e = (let v = [0xff, 0x82] @ gobValue e in typeDef @ gobUint (length v) @ v)"

text \<open>
  Decoding the fields of a value: \<open>f\<close> is the number of the last field read. Distances are
  positive, so \<open>f\<close> grows with every field and never passes the three fields of the struct.
\<close>

function decFields :: "nat \<Rightarrow> LogEntry \<Rightarrow> bytes \<Rightarrow> LogEntry option" where
  "decFields f e bs =
     (case readUint bs of
        None \<Rightarrow> None
      | Some (d, r) \<Rightarrow>
          if d = 0 then Some e
          else if 3 < f + d then None
          else (case readUint r of
             None \<Rightarrow> None
           | Some (v, r') \<Rightarrow>
               if f + d = 1 then decFields (f + d) (e\<lparr>Term := v\<rparr>) r'
               else if f + d = 2 then decFields (f + d) (e\<lparr>Index := v\<rparr>) r'
               else if length r' < v then None
               else decFields (f + d) (e\<lparr>Command := take v r'\<rparr>) (drop v r')))"
  by pat_completeness auto
termination
  by (relation "measure (\<lambda>(f, e, bs). 3 - f)") auto

declare decFields.simps [simp del]

definition gobDecode :: "bytes \<Rightarrow> LogEntry option" where
  "gobDecode bs =
     (if take (length typeDef) bs \<noteq> typeDef then None
      else (case readUint (drop (length typeDef) bs) of
          None \<Rightarrow> None
        | Some (n, r) \<Rightarrow>
            if length r < n \<or> take 2 r \<noteq> [0xff, 0x82] then None
            else decFields 0 \<lparr>Term = 0, Index = 0, Command = []\<rparr> (drop 2 (take n r))))"


definition entry_ok :: "LogEntry \<Rightarrow> bool" where
  "entry_ok e \<longleftrightarrow> Term e < 2 ^ 64 \<and> Index e < 2 ^ 64 \<and> length (gobEncode e) < 2 ^ 32"

lemma readUint_gobUint_only: "n < 2 ^ 64 \<Longrightarrow> readUint (gobUint n) = Some (n, [])"
  using readUint_gobUint [of n "[]"] by simp

lemma readUint_zero [simp]: "readUint (0 # r) = Some (0, r)"
  by simp

lemma decFields_end [simp]: "decFields f e (0 # r) = Some e"
  by (simp add: decFields.simps)

lemma decFields_Term:
  "v < 2 ^ 64 \<Longrightarrow> decFields 0 e (gobUint 1 @ gobUint v @ r) = decFields 1 (e\<lparr>Term := v\<rparr>) r"
  by (simp add: decFields.simps [of 0] readUint_gobUint)

lemma decFields_Index:
  "v < 2 ^ 64 \<Longrightarrow> f + d = 2 \<Longrightarrow> 0 < d \<Longrightarrow>
     decFields f e (gobUint d @ gobUint v @ r) = decFields 2 (e\<lparr>Index := v\<rparr>) r"
  by (simp add: decFields.simps [of f] readUint_gobUint)

lemma decFields_Command:
  "length v < 2 ^ 64 \<Longrightarrow> f + d = 3 \<Longrightarrow> 0 < d \<Longrightarrow>
     decFields f e (gobUint d @ gobUint (length v) @ v @ r) = decFields 3 (e\<lparr>Command := v\<rparr>) r"
  by (simp add: decFields.simps [of f] readUint_gobUint)

lemma decFields_gobValue:
  assumes "Term e < 2 ^ 64" "Index e < 2 ^ 64" "length (Command e) < 2 ^ 64"
  shows "decFields 0 \<lparr>Term = 0, Index = 0, Command = []\<rparr> (gobValue e) = Some e"
proof -
  have last: "decFields f e' (encBytesField d (Command e) @ [0]) = Some (e'\<lparr>Command := Command e\<rparr>)"
    if "f + d = 3" "0 < d" "Command e' = []" for f d e'
    using that assms(3) decFields_Command [of "Command e" f d e' "[0]"]
    by (cases e') (auto simp: encBytesField_def)
  have mid: "decFields f e' (encUintField d (Index e) @ encBytesField (if Index e = 0 then d + 1 else 1)
        (Command e) @ [0]) = Some (e'\<lparr>Index := Index e, Command := Command e\<rparr>)"
    if "f + d = 2" "0 < d" "Command e' = []" "Index e' = 0" for f d e'
  proof (cases "Index e = 0")
    case True
    with that last [of f "d + 1" e'] show ?thesis
      by (cases e') (simp add: encUintField_def)
  next
    case False
    with that last [of 2 1 "e'\<lparr>Index := Index e\<rparr>"] assms(2) show ?thesis
      by (simp add: encUintField_def decFields_Index)
  qed
  show ?thesis
  proof (cases "Term e = 0")
    case True
    then have "gobValue e = encUintField 2 (Index e)
        @ encBytesField (if Index e = 0 then 2 + 1 else 1) (Command e) @ [0]"
      by (simp add: gobValue_def encUintField_def [of _ 0])
    with True mid [of 0 2 "\<lparr>Term = 0, Index = 0, Command = []\<rparr>"] show ?thesis by simp
  next
    case False
    let ?rest = "encUintField 1 (Index e)
        @ encBytesField (if Index e = 0 then 1 + 1 else 1) (Command e) @ [0]"
    have "gobValue e = gobUint 1 @ gobUint (Term e) @ ?rest"
      using False by (simp add: gobValue_def encUintField_def [of _ "Term e"])
    then have "decFields 0 \<lparr>Term = 0, Index = 0, Command = []\<rparr> (gobValue e)
        = decFields 1 \<lparr>Term = Term e, Index = 0, Command = []\<rparr> ?rest"
      by (simp only: decFields_Term [OF assms(1)], simp)
    also have "\<dots> = Some e"
      by (subst mid) simp_all
    finally show ?thesis .
  qed
qed

lemma length_gobValue_Command: "length (Command e) \<le> length (gobValue e)"
  by (simp add: gobValue_def Let_def encBytesField_def)

lemma gobDecode_gobEncode:
  assumes "entry_ok e"
  shows "gobDecode (gobEncode e) = Some e"
proof -
  let ?v = "[0xff, 0x82] @ gobValue e"
  have len: "length ?v < 2 ^ 64" and cmd: "length (Command e) < 2 ^ 64"
    using assms length_gobValue_Command [of e] by (simp_all add: entry_ok_def gobEncode_def Let_def)
  have "readUint (gobUint (length ?v) @ ?v) = Some (length ?v, ?v)"
    by (rule readUint_gobUint [OF len])
  moreover have "decFields 0 \<lparr>Term = 0, Index = 0, Command = []\<rparr> (gobValue e) = Some e"
    using assms cmd by (intro decFields_gobValue) (simp_all add: entry_ok_def)
  ultimately show ?thesis
    by (simp add: gobDecode_def gobEncode_def Let_def)
qed

lemma gobDecode_Nil [simp]: "gobDecode [] = None"
  by (simp add: gobDecode_def typeDef_def Let_def)

subsection \<open>Length-prefixed records\<close>

definition be32 :: "nat \<Rightarrow> bytes" where
  "be32 n = [of_nat (n div 2 ^ 24), of_nat (n div 2 ^ 16), of_nat (n div 2 ^ 8), of_nat n]"

definition encodeRecord :: "LogEntry \<Rightarrow> bytes" where
  "encodeRecord e = (let buf = gobEncode e in be32 (length buf) @ buf)"

definition records :: "LogEntry list \<Rightarrow> bytes" where
  "records es = concat (map encodeRecord es)"

lemma length_be32 [simp]: "length (be32 n) = 4"
  by (simp add: be32_def)

lemma be_value_be32:
  assumes "n < 2 ^ 32"
  shows "be_value (be32 n) = n"
proof -
  have m: "unat (of_nat k :: byte) = k mod 256" for k :: nat
    by (simp add: unat_of_nat)
  have split: "n div 2 ^ (8 * j) = n div 2 ^ (8 * Suc j) * 256 + n div 2 ^ (8 * j) mod 256" for j
    using div_mult_mod_eq [of "n div 2 ^ (8 * j)" 256]
    by (simp add: div_mult2_eq [symmetric] power_add mult.commute)
  have "n div 2 ^ 24 mod 256 = n div 2 ^ 24" using assms by simp
  with split [of 0] split [of 1] split [of 2] show ?thesis
    by (simp add: be_value_def be32_def m)
qed

lemma records_Nil [simp]: "records [] = []"
  by (simp add: records_def)

lemma records_Cons [simp]: "records (e # es) = encodeRecord e @ records es"
  by (simp add: records_def)

lemma records_append: "records (xs @ ys) = records xs @ records ys"
  by (simp add: records_def)

section \<open>The recovery scan\<close>

text \<open>
  \<open>scanLog\<close> is the loop of \<open>ReadAllLogEntries\<close>: the entries read, the offset behind the
  last complete record, and whether the scan ended at a clean end of file. A partial length prefix, a
  partial payload and a payload that does not decode all end it at the current offset.
\<close>

function scanLog :: "bytes \<Rightarrow> LogEntry list \<times> nat \<times> bool" where
  "scanLog bs =
     (if bs = [] then ([], 0, True)
      else if length bs < 4 then ([], 0, False)
      else (let len = be_value (take 4 bs); rest = drop 4 bs in
        if length rest < len then ([], 0, False)
        else (case gobDecode (take len rest) of
            None \<Rightarrow> ([], 0, False)
          | Some e \<Rightarrow>
              (let (es, off, eof) = scanLog (drop len rest) in (e # es, 4 + len + off, eof)))))"
  by pat_completeness auto
termination
  by (relation "measure length") auto

declare scanLog.simps [simp del]

lemma scanLog_Nil [simp]: "scanLog [] = ([], 0, True)"
  by (simp add: scanLog.simps)

lemma length_encodeRecord [simp]: "length (encodeRecord e) = 4 + length (gobEncode e)"
  by (simp add: encodeRecord_def Let_def)

lemma encodeRecord_nonempty [simp]: "encodeRecord e \<noteq> []"
  by (simp add: encodeRecord_def be32_def Let_def)

lemma take4_encodeRecord [simp]: "take 4 (encodeRecord e) = be32 (length (gobEncode e))"
  by (simp add: encodeRecord_def Let_def)

lemma scanLog_record:
  assumes "entry_ok e"
  shows "scanLog (encodeRecord e @ r) =
    (let (es, off, eof) = scanLog r in (e # es, length (encodeRecord e) + off, eof))"
proof -
  have v: "be_value (be32 (length (gobEncode e))) = length (gobEncode e)"
    using assms by (intro be_value_be32) (simp add: entry_ok_def)
  have t: "take 4 (encodeRecord e @ r) = be32 (length (gobEncode e))"
    and d: "drop 4 (encodeRecord e @ r) = gobEncode e @ r"
    by (simp_all add: encodeRecord_def Let_def)
  have ne: "encodeRecord e @ r \<noteq> []" "\<not> length (encodeRecord e @ r) < 4"
    by (auto simp: encodeRecord_def be32_def Let_def)
  have d': "take (length (gobEncode e)) (gobEncode e @ r) = gobEncode e"
    and d'': "drop (length (gobEncode e)) (gobEncode e @ r) = r"
    and nl: "\<not> length (gobEncode e @ r) < length (gobEncode e)"
    by simp_all
  show ?thesis
    by (subst scanLog.simps)
      (simp only: ne nl if_False t d d' d'' v gobDecode_gobEncode [OF assms] Let_def option.case
        length_encodeRecord)
qed

text \<open>A torn tail: bytes on which the scan reads nothing.\<close>

definition torn :: "bytes \<Rightarrow> bool" where
  "torn bs \<longleftrightarrow> fst (scanLog bs) = [] \<and> fst (snd (scanLog bs)) = 0"

lemma scanLog_records:
  assumes "\<forall>e \<in> set es. entry_ok e"
  shows "scanLog (records es @ r) =
    (let (es', off, eof) = scanLog r in (es @ es', length (records es) + off, eof))"
  using assms
proof (induction es)
  case Nil
  then show ?case by (simp split: prod.split)
next
  case (Cons e es)
  then show ?case by (simp add: scanLog_record split: prod.split)
qed

lemma scanLog_whole:
  "\<forall>e \<in> set es. entry_ok e \<Longrightarrow> scanLog (records es) = (es, length (records es), True)"
  using scanLog_records [of es "[]"] by simp

text \<open>A proper prefix of one record is torn.\<close>

lemma take_record_torn:
  assumes "entry_ok e" and "k < length (encodeRecord e)"
  shows "scanLog (take k (encodeRecord e)) = ([], 0, k = 0)"
proof (cases "k < 4")
  case True
  then show ?thesis using assms(2) by (subst scanLog.simps) auto
next
  case False
  have v: "be_value (be32 (length (gobEncode e))) = length (gobEncode e)"
    using assms by (intro be_value_be32) (simp add: entry_ok_def)
  show ?thesis using False assms(2)
    by (subst scanLog.simps) (simp add: v Let_def)
qed

section \<open>The files of a node\<close>

datatype perror = IOError

text \<open>
  \<open>state.json\<close> is absent, holds text that does not unmarshal, or holds a \<open>diskState\<close>.
\<close>

datatype stateFile = NoState | BadState | SavedState uint64 string

record disk =
  logFile :: "bytes option"
  stateJson :: stateFile

definition logBytes :: "'a disk_scheme \<Rightarrow> bytes" where
  "logBytes d = (case logFile d of None \<Rightarrow> [] | Some c \<Rightarrow> c)"

definition LoadState :: "fault \<Rightarrow> 'a disk_scheme \<Rightarrow> perror + (uint64 \<times> string)" where
  "LoadState flt d =
     (case stateJson d of
        NoState \<Rightarrow> Inr (0, '''')
      | BadState \<Rightarrow> Inl IOError
      | SavedState t v \<Rightarrow> (if flt = FailEarly then Inl IOError else Inr (t, v)))"

definition SaveState :: "fault \<Rightarrow> uint64 \<Rightarrow> string \<Rightarrow> 'a disk_scheme \<Rightarrow> perror option \<times> 'a disk_scheme" where
  "SaveState flt t v d =
     (if flt = NoFault then (None, d\<lparr>stateJson := SavedState t v\<rparr>) else (Some IOError, d))"

definition AppendLogEntries :: "fault \<Rightarrow> LogEntry list \<Rightarrow> 'a disk_scheme \<Rightarrow> perror option \<times> 'a disk_scheme" where
  "AppendLogEntries flt es d =
     (if es = [] then (None, d)
      else (case flt of
          NoFault \<Rightarrow> (None, d\<lparr>logFile := Some (logBytes d @ records es)\<rparr>)
        | FailEarly \<Rightarrow> (Some IOError, d)
        | FailWrite k \<Rightarrow> (Some IOError, d\<lparr>logFile := Some (logBytes d @ take k (records es))\<rparr>)
        | _ \<Rightarrow> (Some IOError, d\<lparr>logFile := Some (logBytes d @ records es)\<rparr>)))"

definition ReadAllLogEntries :: "fault \<Rightarrow> 'a disk_scheme \<Rightarrow> (perror + LogEntry list) \<times> 'a disk_scheme" where
  "ReadAllLogEntries flt d =
     (if flt = FailEarly then (Inl IOError, d)
      else (let (es, off, eof) = scanLog (logBytes d) in
        if eof then (Inr es, d\<lparr>logFile := Some (logBytes d)\<rparr>)
        else if flt = NoFault then (Inr es, d\<lparr>logFile := Some (take off (logBytes d))\<rparr>)
        else (Inl IOError, d)))"

definition RewriteLog :: "fault \<Rightarrow> LogEntry list \<Rightarrow> 'a disk_scheme \<Rightarrow> perror option \<times> 'a disk_scheme" where
  "RewriteLog flt es d =
     (if flt = NoFault then (None, d\<lparr>logFile := Some (records es)\<rparr>) else (Some IOError, d))"

definition TruncateLogFrom :: "fault \<Rightarrow> uint64 \<Rightarrow> 'a disk_scheme \<Rightarrow> perror option \<times> 'a disk_scheme" where
  "TruncateLogFrom flt index d =
     (case ReadAllLogEntries flt d of
        (Inl err, d') \<Rightarrow> (Some err, d')
      | (Inr es, d') \<Rightarrow> RewriteLog flt (filter (\<lambda>e. Index e < index) es) d')"

section \<open>What the log file stores\<close>

text \<open>
  A disk stores the list \<open>es\<close> when the log file is exactly the records of \<open>es\<close> and every
  entry survives its encoding.
\<close>

definition stored :: "'a disk_scheme \<Rightarrow> LogEntry list \<Rightarrow> bool" where
  "stored d es \<longleftrightarrow> logBytes d = records es \<and> (\<forall>e \<in> set es. entry_ok e)"

lemma stored_scan: "stored d es \<Longrightarrow> scanLog (logBytes d) = (es, length (records es), True)"
  by (simp add: stored_def scanLog_whole)

lemma stored_unique: "stored d es \<Longrightarrow> stored d es' \<Longrightarrow> es = es'"
  by (drule stored_scan)+ simp

lemma logBytes_update [simp]: "logBytes (d\<lparr>logFile := Some c\<rparr>) = c"
  by (simp add: logBytes_def)

lemma logBytes_stateJson [simp]: "logBytes (d\<lparr>stateJson := st\<rparr>) = logBytes d"
  by (simp add: logBytes_def)

lemma stored_stateJson [simp]: "stored (d\<lparr>stateJson := st\<rparr>) es = stored d es"
  by (simp add: stored_def)

lemma ReadAll_stored:
  assumes "stored d es" "flt \<noteq> FailEarly"
  shows "ReadAllLogEntries flt d = (Inr es, d\<lparr>logFile := Some (records es)\<rparr>)"
  using assms by (simp add: ReadAllLogEntries_def stored_scan) (simp add: stored_def)

lemma Append_stored:
  assumes "stored d es" "\<forall>e \<in> set new. entry_ok e"
  shows "fst (AppendLogEntries NoFault new d) = None"
    and "stored (snd (AppendLogEntries NoFault new d)) (es @ new)"
  using assms by (auto simp: AppendLogEntries_def stored_def records_append)

lemma Rewrite_stored:
  assumes "\<forall>e \<in> set es. entry_ok e"
  shows "fst (RewriteLog NoFault es d) = None" and "stored (snd (RewriteLog NoFault es d)) es"
  using assms by (auto simp: RewriteLog_def stored_def)

lemma Truncate_stored:
  assumes "stored d es"
  shows "fst (TruncateLogFrom NoFault i d) = None"
    and "stored (snd (TruncateLogFrom NoFault i d)) (filter (\<lambda>e. Index e < i) es)"
  using assms by (auto simp: TruncateLogFrom_def ReadAll_stored RewriteLog_def stored_def)

lemma stateJson_log_ops [frame_simps]:
  "stateJson (snd (AppendLogEntries flt es d)) = stateJson d"
  "stateJson (snd (TruncateLogFrom flt i d)) = stateJson d"
  "stateJson (snd (RewriteLog flt es d)) = stateJson d"
  "stateJson (snd (ReadAllLogEntries flt d)) = stateJson d"
  by (simp_all add: AppendLogEntries_def TruncateLogFrom_def RewriteLog_def ReadAllLogEntries_def
      split: fault.split prod.split sum.split)

subsection \<open>The contract of a durable log\<close>

text \<open>
  What the consensus core relies on: a reader, three writers that succeed on a healthy disk, and how
  the list read back changes. \<open>holds s es\<close> says that the store \<open>s\<close> holds the list
  \<open>es\<close>.
\<close>

locale durable_log =
  fixes holds :: "'s \<Rightarrow> 'e list \<Rightarrow> bool"
    and fine :: "'e \<Rightarrow> bool"
    and pos :: "'e \<Rightarrow> nat"
    and rd :: "'s \<Rightarrow> 'e list option"
    and app :: "'e list \<Rightarrow> 's \<Rightarrow> 's"
    and cut :: "nat \<Rightarrow> 's \<Rightarrow> 's"
    and rew :: "'e list \<Rightarrow> 's \<Rightarrow> 's"
  assumes holds_fine: "holds s es \<Longrightarrow> e \<in> set es \<Longrightarrow> fine e"
    and rd_holds: "holds s es \<Longrightarrow> rd s = Some es"
    and app_holds: "holds s es \<Longrightarrow> (\<And>e. e \<in> set new \<Longrightarrow> fine e) \<Longrightarrow> holds (app new s) (es @ new)"
    and cut_holds: "holds s es \<Longrightarrow> holds (cut i s) (filter (\<lambda>e. pos e < i) es)"
    and rew_holds: "(\<And>e. e \<in> set es \<Longrightarrow> fine e) \<Longrightarrow> holds (rew es s) es"
begin

definition positional :: "nat \<Rightarrow> 'e list \<Rightarrow> bool" where
  "positional off es \<longleftrightarrow> (\<forall>i < length es. pos (es ! i) = off + i + 1)"

lemma filter_positional:
  "positional off es \<Longrightarrow> filter (\<lambda>e. pos e < i) es = take (i - off - 1) es"
proof (induction es arbitrary: off)
  case Nil
  then show ?case by simp
next
  case (Cons e es)
  have p: "pos e = off + 1" and tl: "positional (Suc off) es"
    using Cons.prems by (auto simp: positional_def nth_Cons split: nat.splits)
  show ?case
  proof (cases "off + 1 < i")
    case True
    then have "i - off - 1 = Suc (i - Suc off - 1)" by simp
    with Cons.IH [OF tl] p True show ?thesis by simp
  next
    case False
    then have "i - Suc off - 1 = 0" "i - off - 1 = 0" by simp_all
    with Cons.IH [OF tl] p False show ?thesis by simp
  qed
qed

text \<open>Cutting a positional log at an index keeps the entries in front of it.\<close>

lemma cut_positional:
  "holds s es \<Longrightarrow> positional off es \<Longrightarrow> holds (cut i s) (take (i - off - 1) es)"
  using cut_holds [of s es i] by (simp add: filter_positional)

text \<open>Log repair: cut at the conflict, then append.\<close>

lemma repair_holds:
  assumes "holds s es" "positional off es" "\<And>e. e \<in> set new \<Longrightarrow> fine e"
  shows "holds (app new (cut i s)) (take (i - off - 1) es @ new)"
  by (rule app_holds [OF cut_positional [OF assms(1,2)] assms(3)])

lemma recover_repair:
  assumes "holds s es" "positional off es" "\<And>e. e \<in> set new \<Longrightarrow> fine e"
  shows "rd (app new (cut i s)) = Some (take (i - off - 1) es @ new)"
  by (rule rd_holds [OF repair_holds [OF assms]])

end

definition readBack :: "'a disk_scheme \<Rightarrow> LogEntry list option" where
  "readBack d = (case fst (ReadAllLogEntries NoFault d) of Inl _ \<Rightarrow> None | Inr es \<Rightarrow> Some es)"

interpretation dlog: durable_log stored entry_ok Index readBack
  "\<lambda>new d. snd (AppendLogEntries NoFault new d)"
  "\<lambda>i d. snd (TruncateLogFrom NoFault i d)"
  "\<lambda>es d. snd (RewriteLog NoFault es d)"
proof unfold_locales
  show "\<And>s es e. stored s es \<Longrightarrow> e \<in> set es \<Longrightarrow> entry_ok e"
    by (simp add: stored_def)
  show "\<And>s es. stored s es \<Longrightarrow> readBack s = Some es"
    by (simp add: readBack_def ReadAll_stored)
qed (blast intro: Append_stored Truncate_stored Rewrite_stored)+

section \<open>Crash recovery\<close>

text \<open>Any prefix of a record stream is whole records followed by a torn rest.\<close>

lemma scan_prefix:
  assumes "\<forall>e \<in> set es. entry_ok e"
  shows "\<exists>j \<le> length es. fst (scanLog (take k (records es))) = take j es
    \<and> take (fst (snd (scanLog (take k (records es))))) (take k (records es)) = records (take j es)
    \<and> (snd (snd (scanLog (take k (records es)))) \<longrightarrow> take k (records es) = records (take j es))"
  using assms
proof (induction es arbitrary: k)
  case Nil
  then show ?case by simp
next
  case (Cons e es)
  let ?r = "encodeRecord e"
  have e: "entry_ok e" and es: "\<forall>e \<in> set es. entry_ok e" using Cons.prems by simp_all
  show ?case
  proof (cases "k < length ?r")
    case True
    then have split: "take k (records (e # es)) = take k ?r" by simp
    have "scanLog (take k ?r) = ([], 0, k = 0)"
      by (rule take_record_torn [OF e True])
    then show ?thesis unfolding split by (intro exI [of _ 0]) simp
  next
    case False
    define q where "q = take (k - length ?r) (records es)"
    have split: "take k (records (e # es)) = ?r @ q" using False by (simp add: q_def)
    from Cons.IH [OF es, of "k - length ?r", folded q_def] obtain j where j: "j \<le> length es"
      "fst (scanLog q) = take j es" "take (fst (snd (scanLog q))) q = records (take j es)"
      "snd (snd (scanLog q)) \<longrightarrow> q = records (take j es)" by blast
    obtain es' off eof where q: "scanLog q = (es', off, eof)" by (cases "scanLog q") auto
    have "scanLog (?r @ q) = (e # es', length ?r + off, eof)"
      by (simp add: scanLog_record [OF e] q)
    with j q show ?thesis unfolding split
      by (intro exI [of _ "Suc j"]) simp
  qed
qed

lemma ReadAll_torn:
  assumes d: "logBytes d = records es @ take k (records new)"
    and ok: "\<forall>e \<in> set es. entry_ok e" "\<forall>e \<in> set new. entry_ok e"
  shows "\<exists>j \<le> length new. fst (ReadAllLogEntries NoFault d) = Inr (es @ take j new)
    \<and> stored (snd (ReadAllLogEntries NoFault d)) (es @ take j new)"
proof -
  let ?q = "take k (records new)"
  obtain es' off eof where q: "scanLog ?q = (es', off, eof)" by (cases "scanLog ?q") auto
  from scan_prefix [OF ok(2), of k] q obtain j where j: "j \<le> length new" "es' = take j new"
    "take off ?q = records (take j new)" "eof \<longrightarrow> ?q = records (take j new)" by auto
  have "scanLog (logBytes d) = (es @ es', length (records es) + off, eof)"
    by (simp add: d scanLog_records [OF ok(1)] q)
  moreover have "\<forall>e \<in> set (es @ take j new). entry_ok e"
    using ok by (auto dest: in_set_takeD)
  ultimately show ?thesis using j d
    by (intro exI [of _ j]) (simp add: ReadAllLogEntries_def stored_def records_append)
qed

text \<open>
  The append of a record behind a torn one is not read back: the four bytes of a torn length prefix
  make the scan read the next record's prefix as payload.
\<close>

lemma hd_typeDef: "take (Suc 0) typeDef = [53]"
  by (simp add: typeDef_def gobField_def gobString_def gobUint_def asciiBytes_def)

lemma gobDecode_wrong_start:
  assumes "bs = b # r" "b \<noteq> 53"
  shows "gobDecode bs = None"
proof -
  have "take (length typeDef) bs \<noteq> typeDef"
  proof
    assume "take (length typeDef) bs = typeDef"
    then have "take 1 (take (length typeDef) bs) = take 1 typeDef" by simp
    moreover have "typeDef \<noteq> []" using hd_typeDef by auto
    then have "1 \<le> length typeDef" by (simp add: Suc_le_eq)
    ultimately have "take 1 bs = take 1 typeDef" by (simp add: take_take min_def)
    with assms show False by (simp add: hd_typeDef)
  qed
  then show ?thesis by (simp add: gobDecode_def)
qed

lemma scan_after_torn_prefix:
  assumes "entry_ok e1" "length (gobEncode e2) < 2 ^ 24"
  shows "scanLog (take 4 (encodeRecord e1) @ encodeRecord e2 @ r) = ([], 0, False)"
proof -
  let ?n = "length (gobEncode e1)" and ?p = "encodeRecord e2 @ r"
  have n: "be_value (be32 ?n) = ?n"
    using assms(1) by (intro be_value_be32) (simp add: entry_ok_def)
  have p: "?p = 0 # tl ?p"
    using assms(2) by (simp add: encodeRecord_def be32_def Let_def div_less)
  have "gobDecode (take ?n ?p) = None"
  proof (cases ?n)
    case 0
    then show ?thesis by simp
  next
    case (Suc m)
    then have "take ?n ?p = 0 # take m (tl ?p)" using p by (metis take_Suc_Cons)
    then show ?thesis by (rule gobDecode_wrong_start) simp
  qed
  then show ?thesis
    by (subst scanLog.simps) (simp add: n Let_def be32_def [symmetric])
qed

section \<open>Properties\<close>

lemma logBytes_append:
  "stored d es \<Longrightarrow> \<exists>k. logBytes (snd (AppendLogEntries flt new d)) = records es @ take k (records new)"
  by (cases flt)
    (auto simp: AppendLogEntries_def stored_def intro: exI [of _ 0] exI [of _ "length (records new)"])

lemma ReadAll_after_append:
  assumes "stored d es" "\<forall>e \<in> set new. entry_ok e"
  shows "\<exists>j \<le> length new. fst (ReadAllLogEntries NoFault (snd (AppendLogEntries flt new d))) = Inr (es @ take j new)
    \<and> stored (snd (ReadAllLogEntries NoFault (snd (AppendLogEntries flt new d)))) (es @ take j new)"
proof -
  obtain k where "logBytes (snd (AppendLogEntries flt new d)) = records es @ take k (records new)"
    using logBytes_append [OF assms(1)] by blast
  from ReadAll_torn [OF this _ assms(2)] show ?thesis using assms(1) by (simp add: stored_def)
qed

text \<open>
  C12: whatever way an append fails (before writing, after any number of bytes, at the fsync), a
  restart reads back the entries stored before it, followed by a prefix of the new ones; nothing
  older is lost and nothing is invented.
\<close>

theorem append_crash_recovery:
  assumes "stored d es" "\<forall>e \<in> set new. entry_ok e"
  shows "\<exists>j \<le> length new.
    fst (ReadAllLogEntries NoFault (snd (AppendLogEntries flt new d))) = Inr (es @ take j new)"
  using ReadAll_after_append [OF assms] by blast

definition demoEntry :: "nat \<Rightarrow> LogEntry" where
  "demoEntry i = \<lparr>Term = 1, Index = i, Command = [7]\<rparr>"

definition emptyDisk :: disk where
  "emptyDisk = \<lparr>logFile = None, stateJson = NoState\<rparr>"

lemma stored_emptyDisk [simp]: "stored emptyDisk []"
  by (simp add: stored_def emptyDisk_def logBytes_def)

lemma gobEncode_demoEntry: "i < 128 \<Longrightarrow> length (gobEncode (demoEntry i)) < 2 ^ 24"
  by (simp add: gobEncode_def demoEntry_def gobValue_def encUintField_def encBytesField_def
      gobUint_def typeDef_def gobField_def gobString_def asciiBytes_def Let_def)

lemma entry_ok_demoEntry [simp]: "i < 128 \<Longrightarrow> entry_ok (demoEntry i)"
  using gobEncode_demoEntry [of i] by (simp add: entry_ok_def) (simp add: demoEntry_def)

theorem append_crash_recovery_witness:
  "stored emptyDisk [] \<and> entry_ok (demoEntry 1) \<and> entry_ok (demoEntry 2) \<and>
   (\<exists>j \<le> length [demoEntry 1, demoEntry 2].
      fst (ReadAllLogEntries NoFault (snd (AppendLogEntries (FailWrite 20) [demoEntry 1, demoEntry 2] emptyDisk)))
        = Inr ([] @ take j [demoEntry 1, demoEntry 2]))"
  using append_crash_recovery [of emptyDisk "[]" "[demoEntry 1, demoEntry 2]" "FailWrite 20"] by simp

text \<open>
  An append that fails is not undone, and the next one writes behind it. If the failed one left part of a record, the
  scan stops there and an entry whose append succeeded is not read back; if it failed at the sync, the entry it had reported
  as failed comes back in front of the one that took its place.
\<close>

theorem failed_append_corrupts_later:
  assumes "stored d es" "entry_ok e1" "entry_ok e2" "length (gobEncode e2) < 2 ^ 24"
  shows "fst (AppendLogEntries NoFault [e2] (snd (AppendLogEntries (FailWrite 4) [e1] d))) = None \<and>
    fst (ReadAllLogEntries NoFault (snd (AppendLogEntries NoFault [e2] (snd (AppendLogEntries (FailWrite 4) [e1] d))))) = Inr es \<and>
    fst (AppendLogEntries FailSync [e1] d) = Some IOError \<and>
    fst (ReadAllLogEntries NoFault (snd (AppendLogEntries NoFault [e2] (snd (AppendLogEntries FailSync [e1] d))))) = Inr (es @ [e1, e2])"
proof -
  have ok: "\<forall>e \<in> set es. entry_ok e" and b: "logBytes d = records es" using assms(1) by (simp_all add: stored_def)
  have "scanLog (records es @ take 4 (encodeRecord e1) @ encodeRecord e2) = (es, length (records es), False)"
    using scanLog_records [OF ok, of "take 4 (encodeRecord e1) @ encodeRecord e2"] scan_after_torn_prefix [OF assms(2,4), of "[]"] by simp
  then show ?thesis using assms(2,3) scanLog_whole [of "es @ [e1, e2]"] ok
    by (simp add: AppendLogEntries_def ReadAllLogEntries_def b records_append)
qed

end
