(* ===== verification/Pb_Messages.thy ===== *)
theory Pb_Messages
  imports Persistence
begin

text \<open>
  The protobuf messages the services exchange (\<open>pkg/pb\<close>, generated from \<open>api/proto\<close>), one record
  per message with a field per protobuf field. The generated getters return the field, or its zero
  value on a nil message; the handlers are only ever called with a message, so a getter is the
  selector. How messages are put on the wire is the protobuf library's.
\<close>

section \<open>consensus.proto\<close>

datatype PbRole = Role_FOLLOWER | Role_CANDIDATE | Role_LEADER

record RequestVoteRequest =
  rvTerm :: uint64
  rvCandidateId :: string
  rvLastLogIndex :: uint64
  rvLastLogTerm :: uint64

record RequestVoteReply =
  rvrTerm :: uint64
  rvrVoteGranted :: bool

record PbLogEntry =
  peTerm :: uint64
  peIndex :: uint64
  peCommand :: bytes

record AppendEntriesRequest =
  aeTerm :: uint64
  aeLeaderId :: addr
  aePrevLogIndex :: uint64
  aePrevLogTerm :: uint64
  aeEntries :: "PbLogEntry list"
  aeLeaderCommit :: uint64

record AppendEntriesReply =
  aerTerm :: uint64
  aerSuccess :: bool
  aerConflictIndex :: uint64
  aerConflictTerm :: uint64

record GetStatusReply =
  gsRole :: PbRole
  gsTerm :: uint64
  gsAddress :: addr
  gsNodeId :: string

record ReadIndexReply =
  riOk :: bool
  riReadIndex :: uint64
  riRedirectLeader :: addr

text \<open>The conversions between the wire's log entries and the log's.\<close>

definition pbOfEntry :: "LogEntry \<Rightarrow> PbLogEntry" where
  "pbOfEntry e = \<lparr>peTerm = Term e, peIndex = Index e, peCommand = Command e\<rparr>"

definition entryOfPb :: "PbLogEntry \<Rightarrow> LogEntry" where
  "entryOfPb e = \<lparr>Term = peTerm e, Index = peIndex e, Command = peCommand e\<rparr>"

lemma entryOfPb_pbOfEntry [simp]: "entryOfPb (pbOfEntry e) = e"
  by (simp add: entryOfPb_def pbOfEntry_def)

lemma entryOfPb_o_pbOfEntry [simp]: "entryOfPb \<circ> pbOfEntry = id"
  by (rule ext) simp

lemma pb_sel [simp]:
  "peTerm (pbOfEntry e) = Term e" "peIndex (pbOfEntry e) = Index e"
  "Term (entryOfPb p) = peTerm p" "Index (entryOfPb p) = peIndex p"
  by (simp_all add: entryOfPb_def pbOfEntry_def)

section \<open>kv.proto\<close>

record GetRequest =
  grKey :: string

record GetReply =
  grFound :: bool
  grValue :: string
  grRedirectLeader :: addr
  grOk :: bool

record PutRequest =
  prKey :: string
  prValue :: string

record DeleteRequest =
  drKey :: string

record WriteReply =
  wrSuccess :: bool
  wrRedirectLeader :: addr
  wrCommitIndex :: uint64

section \<open>snapshot.proto\<close>

record LogStatusReply =
  lsTotalEntries :: uint64
  lsOccupancyPercent :: uint64
  lsFirstIndex :: uint64
  lsLastIndex :: uint64

record LogRangeRequest =
  lrFromIndex :: uint64
  lrToIndex :: uint64

record CompactionAck =
  caTruncatedUpToIndex :: uint64
  caStateMachineSnapshot :: bytes

record SnapshotInfo =
  siLastIncludedIndex :: uint64
  siLastIncludedTerm :: uint64
  siAvailable :: bool

record SnapshotChunk =
  scData :: bytes
  scIsLast :: bool

section \<open>discovery.proto\<close>

record NodeInfo =
  niNodeId :: string
  niAddress :: addr
  niRole :: PbRole
  niTerm :: uint64

record ClusterView =
  cvLeaderAddress :: addr
  cvFollowers :: "NodeInfo list"
  cvAllNodes :: "NodeInfo list"

end
