(* ===== verification/Circuitbreaker.thy ===== *)
theory Circuitbreaker
  imports Pb_Messages
begin

text \<open>
  The proxy's registry of circuit breakers (\<open>internal/circuitbreaker/circuitbreaker.go\<close>): one breaker of the
  gobreaker library per node address, created on first use.

  The library is not part of the repository: its operations are an argument, a record of functions
  over an arbitrary type of breakers. \<open>Execute\<close> is its two halves, the admission before the call and the report of
  the outcome after it; the report says whether the breaker went into the open state, which is when the library runs the
  state-change callback for it.
\<close>

section \<open>The library's interface\<close>

datatype cbState = StateClosed | StateHalfOpen | StateOpen

datatype cbError = ErrOpenState | ErrTooManyRequests

record breakerSettings =
  setName :: addr
  MaxRequests :: nat
  Interval :: int
  Timeout :: int
  ReadyToTrip :: "nat \<Rightarrow> bool"

record 'b breakerLib =
  libNew :: "int \<Rightarrow> breakerSettings \<Rightarrow> 'b"
  libBefore :: "int \<Rightarrow> 'b \<Rightarrow> cbError option \<times> 'b"
  libAfter :: "int \<Rightarrow> bool \<Rightarrow> 'b \<Rightarrow> bool \<times> 'b"
  libState :: "int \<Rightarrow> 'b \<Rightarrow> cbState \<times> 'b"

section \<open>The registry\<close>

text \<open>Times are in nanoseconds.\<close>

definition consecutiveFailuresToTrip :: nat where
  "consecutiveFailuresToTrip = 3"

definition openTimeout :: int where
  "openTimeout = 2000000000"

definition halfOpenMaxRequests :: nat where
  "halfOpenMaxRequests = 1"

definition closedInterval :: int where
  "closedInterval = 30000000000"

record 'b BreakerRegistry =
  brTimeout :: int
  breakers :: "(addr, 'b) gomap"

definition NewBreakerRegistry :: "'b BreakerRegistry" where
  "NewBreakerRegistry = \<lparr>brTimeout = openTimeout, breakers = []\<rparr>"

definition settingsFor :: "int \<Rightarrow> addr \<Rightarrow> breakerSettings" where
  "settingsFor timeout a = \<lparr>setName = a, MaxRequests = halfOpenMaxRequests, Interval = closedInterval, Timeout = timeout,
     ReadyToTrip = (\<lambda>fails. consecutiveFailuresToTrip \<le> fails)\<rparr>"

definition breakerFor :: "'b breakerLib \<Rightarrow> int \<Rightarrow> addr \<Rightarrow> 'b BreakerRegistry \<Rightarrow> 'b \<times> 'b BreakerRegistry" where
  "breakerFor lib t a r =
     (case map_of (breakers r) a of
        Some cb \<Rightarrow> (cb, r)
      | None \<Rightarrow> (let cb = libNew lib t (settingsFor (brTimeout r) a) in (cb, r\<lparr>breakers := gm_set a cb (breakers r)\<rparr>)))"

text \<open>
  \<open>Call\<close>: the call is admitted at time \<open>t\<close> and reported at time \<open>t'\<close>; \<open>outcome\<close> is what the function
  returns if it is run, an error being \<open>Inl\<close>. The result says, besides the value, whether the function was run and
  whether the callback \<open>onTrip\<close> ran.
\<close>

datatype 'e callError = Skipped cbError | Failed 'e

definition breakerCall :: "'b breakerLib \<Rightarrow> int \<Rightarrow> int \<Rightarrow> addr \<Rightarrow> 'e + 'a \<Rightarrow> 'b BreakerRegistry
    \<Rightarrow> ('e callError + 'a) \<times> bool \<times> bool \<times> 'b BreakerRegistry" where
  "breakerCall lib t t' a outcome r =
     (case breakerFor lib t a r of (cb, r1) \<Rightarrow>
        (case libBefore lib t cb of
           (Some e, cb1) \<Rightarrow> (Inl (Skipped e), False, False, r1\<lparr>breakers := gm_set a cb1 (breakers r1)\<rparr>)
         | (None, cb1) \<Rightarrow>
             (case libAfter lib t' (\<not> isl outcome) cb1 of
                (trip, cb2) \<Rightarrow> (map_sum Failed id outcome, True, trip, r1\<lparr>breakers := gm_set a cb2 (breakers r1)\<rparr>))))"

definition breakerState :: "'b breakerLib \<Rightarrow> int \<Rightarrow> addr \<Rightarrow> 'b BreakerRegistry \<Rightarrow> cbState \<times> 'b BreakerRegistry" where
  "breakerState lib t a r =
     (case map_of (breakers r) a of
        Some cb \<Rightarrow> (case libState lib t cb of (st, cb1) \<Rightarrow> (st, r\<lparr>breakers := gm_set a cb1 (breakers r)\<rparr>))
      | None \<Rightarrow> (StateClosed, r))"

fun allOpenLoop :: "'b breakerLib \<Rightarrow> int \<Rightarrow> addr list \<Rightarrow> 'b BreakerRegistry \<Rightarrow> bool \<times> 'b BreakerRegistry" where
  "allOpenLoop lib t [] r = (True, r)"
| "allOpenLoop lib t (a # as) r =
     (case breakerState lib t a r of (st, r1) \<Rightarrow> if st \<noteq> StateOpen then (False, r1) else allOpenLoop lib t as r1)"

definition AllOpen :: "'b breakerLib \<Rightarrow> int \<Rightarrow> addr list \<Rightarrow> 'b BreakerRegistry \<Rightarrow> bool \<times> 'b BreakerRegistry" where
  "AllOpen lib t as r = (if as = [] then (False, r) else allOpenLoop lib t as r)"

definition Prune :: "(addr \<Rightarrow> bool) \<Rightarrow> 'b BreakerRegistry \<Rightarrow> 'b BreakerRegistry" where
  "Prune live r = r\<lparr>breakers := filter (\<lambda>(a, _). live a) (breakers r)\<rparr>"

section \<open>Breakers do not share state\<close>

lemma breakerCall_frame:
  assumes "breakerCall lib t t' a outcome r = (res, didrun, trip, r')" "b \<noteq> a"
  shows "map_of (breakers r') b = map_of (breakers r) b"
  using assms by (auto simp: breakerCall_def breakerFor_def Let_def split: prod.splits option.splits)

lemma breakerCall_keeps:
  assumes "breakerCall lib t t' a outcome r = (res, didrun, trip, r')"
  shows "brTimeout r' = brTimeout r" "map_of (breakers r') a \<noteq> None" "\<not> didrun \<Longrightarrow> isl res \<and> \<not> trip"
  using assms by (auto simp: breakerCall_def breakerFor_def Let_def split: prod.splits option.splits)

lemma Prune_lookup: "gm_wf (breakers r) \<Longrightarrow> map_of (breakers (Prune live r)) a = (if live a then map_of (breakers r) a else None)"
proof -
  have "map_of (filter (\<lambda>(a, _). live a) xs) a = (if live a then map_of xs a else None)" for xs :: "(addr \<times> 'a) list"
    by (induction xs) auto
  then show ?thesis by (simp add: Prune_def)
qed

section \<open>Tripping\<close>

text \<open>
  What the library documents of a closed breaker, for the times before its counts are cleared: it admits every call, a success
  resets the count of consecutive failures, a failure increments it, and the breaker opens when the predicate
  holds of the new count. \<open>view\<close> reads settings, state, count and the time of the next clearing.
\<close>

definition closed_breaker :: "'b breakerLib \<Rightarrow> ('b \<Rightarrow> breakerSettings \<times> cbState \<times> nat \<times> int) \<Rightarrow> bool" where
  "closed_breaker lib view \<longleftrightarrow>
     (\<forall>t s. view (libNew lib t s) = (s, StateClosed, 0, t + Interval s)) \<and>
     (\<forall>t b s k x. view b = (s, StateClosed, k, x) \<and> t < x \<longrightarrow>
        fst (libBefore lib t b) = None \<and> view (snd (libBefore lib t b)) = (s, StateClosed, k, x) \<and>
        fst (libAfter lib t False b) = ReadyToTrip s (Suc k) \<and>
        (if ReadyToTrip s (Suc k) then fst (snd (view (snd (libAfter lib t False b)))) = StateOpen
         else view (snd (libAfter lib t False b)) = (s, StateClosed, Suc k, x)))"

lemma closed_call:
  assumes "closed_breaker lib view" "map_of (breakers r) a = Some b \<or> (map_of (breakers r) a = None \<and> b = libNew lib t (settingsFor (brTimeout r) a))"
    "view b = (settingsFor tm a, StateClosed, k, x)" "t < x" "t' < x" "breakerCall lib t t' a (Inl e) r = (res, didrun, trip, r')"
  shows "didrun \<and> res = Inl (Failed e) \<and> (trip \<longleftrightarrow> 2 \<le> k) \<and>
    (\<exists>b'. map_of (breakers r') a = Some b' \<and>
      (if 2 \<le> k then fst (snd (view b')) = StateOpen else view b' = (settingsFor tm a, StateClosed, Suc k, x)))"
proof -
  note doc = assms(1) [unfolded closed_breaker_def, THEN conjunct2, rule_format]
  have trips: "ReadyToTrip (settingsFor tm a) (Suc k) \<longleftrightarrow> 2 \<le> k" by (auto simp: settingsFor_def consecutiveFailuresToTrip_def)
  obtain b1 where adm: "libBefore lib t b = (None, b1)" "view b1 = (settingsFor tm a, StateClosed, k, x)"
    using doc [of b "settingsFor tm a" k x t] assms(3,4) by (cases "libBefore lib t b") auto
  note rep = doc [of b1 "settingsFor tm a" k x t', OF conjI [OF adm(2) assms(5)], unfolded trips]
  obtain b2 where after: "libAfter lib t' False b1 = (2 \<le> k, b2)" using rep by (cases "libAfter lib t' False b1") simp
  obtain r1 where r1: "breakerFor lib t a r = (b, r1)" using assms(2) by (auto simp: breakerFor_def Let_def)
  have "res = Inl (Failed e)" "didrun" "trip = (2 \<le> k)" "r' = r1\<lparr>breakers := gm_set a b2 (breakers r1)\<rparr>"
    using assms(6) by (auto simp: breakerCall_def r1 adm(1) after)
  then show ?thesis using rep by (cases "2 \<le> k") (simp_all add: after)
qed

text \<open>
  C36: Three failures in a row open a node's breaker. On an address without a breaker, three calls that fail within the clearing
  interval are all attempted, the callback runs exactly once, at the third, the breaker is then open,
  and the breakers of all other addresses are as they were.
\<close>

theorem three_failures_trip:
  assumes "closed_breaker lib view" "map_of (breakers r) a = None"
    "t1 < t + closedInterval" "t2 < t + closedInterval" "t3 < t + closedInterval"
    "t4 < t + closedInterval" "t5 < t + closedInterval"
    "breakerCall lib t t1 a (Inl e1) r = (res1, didrun1, trip1, r1)"
    "breakerCall lib t2 t3 a (Inl e2) r1 = (res2, didrun2, trip2, r2)"
    "breakerCall lib t4 t5 a (Inl e3) r2 = (res3, didrun3, trip3, r3)"
  shows "didrun1 \<and> didrun2 \<and> didrun3 \<and> \<not> trip1 \<and> \<not> trip2 \<and> trip3 \<and>
    (\<exists>b. map_of (breakers r3) a = Some b \<and> fst (snd (view b)) = StateOpen) \<and>
    (a' \<noteq> a \<longrightarrow> map_of (breakers r3) a' = map_of (breakers r) a')"
proof -
  let ?s = "settingsFor (brTimeout r) a" and ?x = "t + closedInterval"
  have n: "view (libNew lib t ?s) = (?s, StateClosed, 0, ?x)" using assms(1) by (simp add: closed_breaker_def settingsFor_def)
  have t: "t < ?x" by (simp add: closedInterval_def)
  from closed_call [OF assms(1) _ n t assms(3,8)] assms(2) obtain b1 where
    1: "didrun1" "\<not> trip1" "map_of (breakers r1) a = Some b1" "view b1 = (?s, StateClosed, Suc 0, ?x)" by auto
  from closed_call [OF assms(1) _ 1(4) assms(4,5,9)] 1(3) obtain b2 where
    2: "didrun2" "\<not> trip2" "map_of (breakers r2) a = Some b2" "view b2 = (?s, StateClosed, Suc (Suc 0), ?x)" by auto
  from closed_call [OF assms(1) _ 2(4) assms(6,7,10)] 2(3) obtain b3 where
    3: "didrun3" "trip3" "map_of (breakers r3) a = Some b3" "fst (snd (view b3)) = StateOpen" by (auto simp: numeral_2_eq_2)
  from 1 2 3 breakerCall_frame [OF assms(8)] breakerCall_frame [OF assms(9)] breakerCall_frame [OF assms(10)] show ?thesis by auto
qed

text \<open>A library that does what is documented of closed breakers, for the witness.\<close>

definition demoLib :: "(breakerSettings \<times> cbState \<times> nat \<times> int) breakerLib" where
  "demoLib = \<lparr>libNew = (\<lambda>t s. (s, StateClosed, 0, t + Interval s)),
     libBefore = (\<lambda>t b. case b of (s, st, k, x) \<Rightarrow>
       if st = StateOpen \<and> t < x then (Some ErrOpenState, b) else if st = StateOpen then (None, (s, StateHalfOpen, 0, 0)) else (None, b)),
     libAfter = (\<lambda>t ok b. case b of (s, st, k, x) \<Rightarrow>
       if ok then (False, (s, StateClosed, 0, t + Interval s))
       else if st = StateClosed \<and> \<not> ReadyToTrip s (Suc k) then (False, (s, StateClosed, Suc k, x))
       else (True, (s, StateOpen, 0, t + Timeout s))),
     libState = (\<lambda>t b. case b of (s, st, k, x) \<Rightarrow> (st, b))\<rparr>"

lemma demoLib_closed: "closed_breaker demoLib id"
  by (auto simp: closed_breaker_def demoLib_def)

theorem three_failures_trip_witness:
  "let call = (\<lambda>t r. snd (snd (breakerCall demoLib t t ''a:1'' (Inl ''refused'' :: string + unit) r)));
       (trip1, r1) = call 0 NewBreakerRegistry; (trip2, r2) = call 1 r1; (trip3, r3) = call 2 r2
   in \<not> trip1 \<and> \<not> trip2 \<and> trip3 \<and> map_option (\<lambda>b. fst (snd b)) (map_of (breakers r3) ''a:1'') = Some StateOpen"
proof -
  let ?call = "\<lambda>t r. breakerCall demoLib t t ''a:1'' (Inl ''refused'' :: string + unit) r"
  let ?r1 = "snd (snd (snd (?call 0 NewBreakerRegistry)))"
  let ?r2 = "snd (snd (snd (?call 1 ?r1)))"
  have c: "?call t r = (fst (?call t r), fst (snd (?call t r)), fst (snd (snd (?call t r))), snd (snd (snd (?call t r))))" for t r by simp
  have n: "map_of (breakers (NewBreakerRegistry :: (breakerSettings \<times> cbState \<times> nat \<times> int) BreakerRegistry)) ''a:1'' = None"
    by (simp add: NewBreakerRegistry_def)
  from three_failures_trip [OF demoLib_closed n _ _ _ _ _ c [of 0] c [of 1 ?r1] c [of 2 ?r2]]
  show ?thesis by (auto simp: Let_def closedInterval_def split_beta)
qed

end
