(* ===== verification/Statemachine.thy ===== *)
theory Statemachine
  imports KV_Prelude
begin

text \<open>
  The replicated key-value map, \<open>internal/statemachine/statemachine.go\<close>, and the apply
  callback \<open>cmd/consensus-node/main.go\<close> installs in the consensus core.

  The map is a HOL map from keys to values. Commands reach it as serialised \<open>KVCommand\<close>
  messages; the protobuf codec is third-party code and is a parameter of the callback.
\<close>

section \<open>Commands and the map\<close>

text \<open>
  The operation is an open proto3 enumeration: a decoded message can carry a number with no name.
\<close>

datatype KVOp = PUT | DELETE | UPDATE | UnknownOp nat

record KVCommand =
  cmdOp :: KVOp
  cmdKey :: string
  cmdValue :: string

type_synonym kvdata = "string \<rightharpoonup> string"

record KV =
  kvData :: kvdata

definition New :: KV where
  "New = \<lparr>kvData = Map.empty\<rparr>"

definition Get :: "KV \<Rightarrow> string \<Rightarrow> string \<times> bool" where
  "Get kv key = (case kvData kv key of None \<Rightarrow> ('''', False) | Some v \<Rightarrow> (v, True))"

definition Snapshot :: "KV \<Rightarrow> kvdata" where
  "Snapshot kv = kvData kv"

definition Restore :: "kvdata \<Rightarrow> KV \<Rightarrow> KV" where
  "Restore data kv = kv\<lparr>kvData := data\<rparr>"

definition Apply :: "KVCommand \<Rightarrow> KV \<Rightarrow> KV" where
  "Apply cmd kv =
     (case cmdOp cmd of
        PUT \<Rightarrow> kv\<lparr>kvData := (kvData kv)(cmdKey cmd \<mapsto> cmdValue cmd)\<rparr>
      | UPDATE \<Rightarrow> kv\<lparr>kvData := (kvData kv)(cmdKey cmd \<mapsto> cmdValue cmd)\<rparr>
      | DELETE \<Rightarrow> kv\<lparr>kvData := (kvData kv)(cmdKey cmd := None)\<rparr>
      | UnknownOp _ \<Rightarrow> kv)"

text \<open>
  The \<open>ApplyFn\<close> of \<open>cmd/consensus-node\<close>: a command that does not unmarshal is logged
  and skipped.
\<close>

definition applyCommand :: "(bytes \<Rightarrow> KVCommand option) \<Rightarrow> bytes \<Rightarrow> KV \<Rightarrow> KV" where
  "applyCommand unmarshal c kv = (case unmarshal c of None \<Rightarrow> kv | Some cmd \<Rightarrow> Apply cmd kv)"

definition applyCommands :: "(bytes \<Rightarrow> KVCommand option) \<Rightarrow> bytes list \<Rightarrow> KV \<Rightarrow> KV" where
  "applyCommands unmarshal cs kv = fold (applyCommand unmarshal) cs kv"

section \<open>Machines whose commands overwrite one cell\<close>

text \<open>
  The contract the snapshot pipeline relies on: a command either does nothing or overwrites one cell
  with a value that depends on the command alone. Such a machine can replay a range it has already
  seen without harm.
\<close>

locale overwrite_machine =
  fixes step :: "'c \<Rightarrow> 's \<Rightarrow> 's"
    and cell :: "'s \<Rightarrow> 'k \<Rightarrow> 'v"
    and eff :: "'c \<Rightarrow> ('k \<times> 'v) option"
  assumes step_cell: "cell (step c s) k =
      (case eff c of None \<Rightarrow> cell s k | Some (k', v) \<Rightarrow> if k = k' then v else cell s k)"
    and cell_ext: "(\<And>k. cell s k = cell s' k) \<Longrightarrow> s = s'"
begin

definition last_write :: "'c list \<Rightarrow> 'k \<Rightarrow> 'v option" where
  "last_write cs k =
     fold (\<lambda>c acc. case eff c of None \<Rightarrow> acc | Some (k', v) \<Rightarrow> if k = k' then Some v else acc) cs None"

lemma last_write_snoc: "last_write (cs @ [c]) k =
    (case eff c of None \<Rightarrow> last_write cs k
     | Some (k', v) \<Rightarrow> if k = k' then Some v else last_write cs k)"
  by (simp add: last_write_def split: option.split prod.split)

text \<open>After a run a cell holds the last write to it, or what it held before.\<close>

lemma run_cell: "cell (fold step cs s) k = (case last_write cs k of None \<Rightarrow> cell s k | Some v \<Rightarrow> v)"
proof (induction cs rule: rev_induct)
  case Nil
  then show ?case by (simp add: last_write_def)
next
  case (snoc c cs)
  then show ?case by (simp add: step_cell last_write_snoc split: option.split prod.split)
qed

lemma replay_absorbs: "fold step cs (fold step cs s) = fold step cs s"
  by (rule cell_ext) (simp add: run_cell split: option.split)

text \<open>Replaying a range that starts inside what was already applied changes nothing either.\<close>

lemma replay_suffix_absorbs: "fold step ys (fold step (xs @ ys) s) = fold step (xs @ ys) s"
  by (simp add: replay_absorbs)

text \<open>
  A run that is replayed from its start after an interrupted attempt ends where an uninterrupted run
  ends.
\<close>

lemma interrupted_replay: "fold step (xs @ ys) (fold step xs s) = fold step (xs @ ys) s"
  by (simp add: replay_absorbs)

end

definition commandEffect :: "KVCommand \<Rightarrow> (string \<times> string option) option" where
  "commandEffect cmd =
     (case cmdOp cmd of
        PUT \<Rightarrow> Some (cmdKey cmd, Some (cmdValue cmd))
      | UPDATE \<Rightarrow> Some (cmdKey cmd, Some (cmdValue cmd))
      | DELETE \<Rightarrow> Some (cmdKey cmd, None)
      | UnknownOp _ \<Rightarrow> None)"

lemma kvData_Apply: "kvData (Apply cmd kv) k =
    (case commandEffect cmd of None \<Rightarrow> kvData kv k
     | Some (k', v) \<Rightarrow> if k = k' then v else kvData kv k)"
  by (simp add: Apply_def commandEffect_def split: KVOp.split)

lemma KV_ext: "(\<And>k. kvData s k = kvData s' k) \<Longrightarrow> s = (s' :: KV)"
  by (rule KV.equality) (auto intro: ext)

interpretation kvm: overwrite_machine Apply kvData commandEffect
  by unfold_locales (auto simp: kvData_Apply intro: KV_ext)

interpretation wire: overwrite_machine "applyCommand unmarshal" kvData
  "\<lambda>c. Option.bind (unmarshal c) commandEffect" for unmarshal
  by unfold_locales
    (auto simp: applyCommand_def kvData_Apply intro: KV_ext split: option.split)

lemma applyCommands_append:
  "applyCommands um (xs @ ys) kv = applyCommands um ys (applyCommands um xs kv)"
  by (simp add: applyCommands_def)

lemma applyCommands_Nil [simp]: "applyCommands um [] kv = kv"
  by (simp add: applyCommands_def)

lemma applyCommands_snoc:
  "applyCommands um (xs @ [c]) kv = applyCommand um c (applyCommands um xs kv)"
  by (simp add: applyCommands_def)

end
