(* ===== verification/Snapshotfile.thy ===== *)
theory Snapshotfile
  imports Persistence Statemachine Go_Text
begin

text \<open>
  The checkpoint file shared by the consensus nodes and the backup service,
  \<open>internal/snapshotfile/snapshotfile.go\<close>: its gob stream, its name, the atomic write, and the
  search for the newest file of a directory.

  Go iterates over a map in no fixed order, so the encoder takes the order it used as an argument: a
  list of the map's pairs with distinct keys.
\<close>

section \<open>The checkpoint and its stream\<close>

record File =
  State :: kvdata
  LastIncludedIndex :: uint64
  LastIncludedTerm :: uint64

definition emptyFile :: File where
  "emptyFile = \<lparr>State = Map.empty, LastIncludedIndex = 0, LastIncludedTerm = 0\<rparr>"

text \<open>The order in which one \<open>range\<close> over the map visited its pairs.\<close>

definition iteration :: "(string \<times> string) list \<Rightarrow> kvdata \<Rightarrow> bool" where
  "iteration xs m \<longleftrightarrow> distinct (map fst xs) \<and> map_of xs = m"

text \<open>
  Type definitions: the struct (id 65) with a map field (id 66) and two unsigned fields, and the map
  type itself, from string to string.
\<close>

definition fileTypeDef :: bytes where
  "fileTypeDef =
     (let body = [0xff, 0x81, 3, 1, 1] @ gobString ''File'' @ [1, 0xff, 0x82, 0, 1, 3]
            @ ([1] @ gobString ''State'' @ [1, 0xff, 0x84, 0])
            @ gobField ''LastIncludedIndex'' 6 @ gobField ''LastIncludedTerm'' 6 @ [0, 0];
          mbody = [0xff, 0x83, 4, 1, 2, 0xff, 0x84, 0, 1, 0x0c, 1, 0x0c, 0, 0]
      in gobUint (length body) @ body @ gobUint (length mbody) @ mbody)"

fun encPairs :: "(string \<times> string) list \<Rightarrow> bytes" where
  "encPairs [] = []"
| "encPairs ((k, v) # xs) = gobString k @ gobString v @ encPairs xs"

definition fileValue :: "(string \<times> string) list \<Rightarrow> uint64 \<Rightarrow> uint64 \<Rightarrow> bytes" where
  "fileValue xs i t =
     gobUint 1 @ gobUint (length xs) @ encPairs xs @ encUintField 1 i
       @ encUintField (if i = 0 then 2 else 1) t @ [0]"

definition Encode :: "(string \<times> string) list \<Rightarrow> File \<Rightarrow> bytes" where
  "Encode xs f =
     (let v = [0xff, 0x82] @ fileValue xs (LastIncludedIndex f) (LastIncludedTerm f)
      in fileTypeDef @ gobUint (length v) @ v)"

definition readString :: "bytes \<Rightarrow> (string \<times> bytes) option" where
  "readString bs =
     (case readUint bs of
        None \<Rightarrow> None
      | Some (n, r) \<Rightarrow> if length r < n then None else Some (map (\<lambda>b. char_of (unat b)) (take n r), drop n r))"

fun readPairs :: "nat \<Rightarrow> bytes \<Rightarrow> ((string \<times> string) list \<times> bytes) option" where
  "readPairs 0 bs = Some ([], bs)"
| "readPairs (Suc n) bs =
     (case readString bs of
        None \<Rightarrow> None
      | Some (k, r) \<Rightarrow> (case readString r of
          None \<Rightarrow> None
        | Some (v, r') \<Rightarrow> (case readPairs n r' of
            None \<Rightarrow> None
          | Some (xs, r'') \<Rightarrow> Some ((k, v) # xs, r''))))"

text \<open>Pairs are stored one by one, so the last of two equal keys wins.\<close>

function decFileFields :: "nat \<Rightarrow> File \<Rightarrow> bytes \<Rightarrow> File option" where
  "decFileFields fd f bs =
     (case readUint bs of
        None \<Rightarrow> None
      | Some (d, r) \<Rightarrow>
          if d = 0 then Some f
          else if 3 < fd + d then None
          else (case readUint r of
             None \<Rightarrow> None
           | Some (v, r') \<Rightarrow>
               if fd + d = 1 then (case readPairs v r' of
                   None \<Rightarrow> None
                 | Some (xs, r'') \<Rightarrow> decFileFields (fd + d) (f\<lparr>State := map_of (rev xs)\<rparr>) r'')
               else if fd + d = 2 then decFileFields (fd + d) (f\<lparr>LastIncludedIndex := v\<rparr>) r'
               else decFileFields (fd + d) (f\<lparr>LastIncludedTerm := v\<rparr>) r'))"
  by pat_completeness auto
termination
  by (relation "measure (\<lambda>(fd, f, bs). 3 - fd)") auto

declare decFileFields.simps [simp del]

definition Decode :: "bytes \<Rightarrow> File option" where
  "Decode bs =
     (if take (length fileTypeDef) bs \<noteq> fileTypeDef then None
      else (case readUint (drop (length fileTypeDef) bs) of
          None \<Rightarrow> None
        | Some (n, r) \<Rightarrow>
            if length r < n \<or> take 2 r \<noteq> [0xff, 0x82] then None
            else decFileFields 0 emptyFile (drop 2 (take n r))))"

text \<open>A checkpoint whose numbers and text fit the 64-bit lengths of the stream.\<close>

definition file_ok :: "(string \<times> string) list \<Rightarrow> File \<Rightarrow> bool" where
  "file_ok xs f \<longleftrightarrow> iteration xs (State f) \<and> LastIncludedIndex f < 2 ^ 64 \<and> LastIncludedTerm f < 2 ^ 64
     \<and> length (Encode xs f) < 2 ^ 64"

lemma char_of_byte [simp]: "char_of (unat (of_char c :: byte)) = c"
proof -
  have "unat (of_nat (of_char c) :: byte) = of_char c mod 256" by (simp add: unat_of_nat del: of_nat_of_char)
  then show ?thesis by (simp add: of_nat_of_char)
qed

lemma readString_gobString [simp]:
  "length s < 2 ^ 64 \<Longrightarrow> readString (gobString s @ r) = Some (s, r)"
  by (simp add: readString_def gobString_def asciiBytes_def readUint_gobUint o_def)

lemma readPairs_encPairs:
  "\<forall>(k, v) \<in> set xs. length k < 2 ^ 64 \<and> length v < 2 ^ 64 \<Longrightarrow>
     readPairs (length xs) (encPairs xs @ r) = Some (xs, r)"
  by (induction xs rule: encPairs.induct) auto

lemma encPairs_bound:
  "(k, v) \<in> set xs \<Longrightarrow> length k + length v \<le> length (encPairs xs)"
  by (induction xs rule: encPairs.induct) (auto simp: gobString_def asciiBytes_def)

lemma encPairs_length: "length xs \<le> length (encPairs xs)"
proof (induction xs rule: encPairs.induct)
  case (2 k v xs)
  have "gobUint (length k) \<noteq> []" by simp
  then have "1 \<le> length (gobUint (length k))" by (cases "gobUint (length k)") auto
  with 2 show ?case by (simp add: gobString_def)
qed simp

lemma decFile_State:
  "n = length xs \<Longrightarrow> n < 2 ^ 64 \<Longrightarrow> \<forall>(k, v) \<in> set xs. length k < 2 ^ 64 \<and> length v < 2 ^ 64 \<Longrightarrow>
     decFileFields 0 f (gobUint 1 @ gobUint n @ encPairs xs @ r)
       = decFileFields 1 (f\<lparr>State := map_of (rev xs)\<rparr>) r"
  by (simp add: decFileFields.simps [of 0] readUint_gobUint readPairs_encPairs)

lemma decFile_Index:
  "v < 2 ^ 64 \<Longrightarrow> fd + d = 2 \<Longrightarrow> 1 \<le> fd \<Longrightarrow> 0 < d \<Longrightarrow>
     decFileFields fd f (gobUint d @ gobUint v @ r) = decFileFields 2 (f\<lparr>LastIncludedIndex := v\<rparr>) r"
  by (simp add: decFileFields.simps [of fd] readUint_gobUint)

lemma decFile_Term:
  "v < 2 ^ 64 \<Longrightarrow> fd + d = 3 \<Longrightarrow> 1 \<le> fd \<Longrightarrow> fd < 3 \<Longrightarrow>
     decFileFields fd f (gobUint d @ gobUint v @ r) = decFileFields 3 (f\<lparr>LastIncludedTerm := v\<rparr>) r"
  by (simp add: decFileFields.simps [of fd] readUint_gobUint)

lemma decFile_end [simp]: "decFileFields fd f (0 # r) = Some f"
  by (simp add: decFileFields.simps)

lemma map_of_rev: "distinct (map fst xs) \<Longrightarrow> map_of (rev xs) = map_of xs"
  by (induction xs) (force simp: map_add_def fun_eq_iff split: option.split dest: map_of_SomeD)+

lemma decFile_fileValue:
  assumes xs: "length xs < 2 ^ 64" "\<forall>(k, v) \<in> set xs. length k < 2 ^ 64 \<and> length v < 2 ^ 64"
    and it: "i < 2 ^ 64" "t < 2 ^ 64"
  shows "decFileFields 0 f0 (fileValue xs i t) =
    Some (f0\<lparr>State := map_of (rev xs),
            LastIncludedIndex := (if i = 0 then LastIncludedIndex f0 else i),
            LastIncludedTerm := (if t = 0 then LastIncludedTerm f0 else t)\<rparr>)"
proof -
  have trm: "decFileFields fd f (encUintField d t @ [0])
      = Some (f\<lparr>LastIncludedTerm := (if t = 0 then LastIncludedTerm f else t)\<rparr>)"
    if "fd + d = 3" "1 \<le> fd" "fd < 3" for fd d f
    using that it(2) decFile_Term [of t fd d f "[0]"] by (simp add: encUintField_def)
  have idx: "decFileFields 1 f (encUintField 1 i @ encUintField (if i = 0 then 2 else 1) t @ [0])
      = Some (f\<lparr>LastIncludedIndex := (if i = 0 then LastIncludedIndex f else i),
          LastIncludedTerm := (if t = 0 then LastIncludedTerm f else t)\<rparr>)" for f
  proof (cases "i = 0")
    case True
    then show ?thesis using trm [of 1 2 f] by (simp add: encUintField_def [of _ 0])
  next
    case False
    then have "encUintField 1 i @ encUintField (if i = 0 then 2 else 1) t @ [0]
        = gobUint 1 @ gobUint i @ encUintField 1 t @ [0]"
      by (simp add: encUintField_def [of _ i])
    then show ?thesis
      using False trm [of 2 1 "f\<lparr>LastIncludedIndex := i\<rparr>"] decFile_Index [OF it(1), of 1 1]
      by simp
  qed
  have "decFileFields 0 f0 (fileValue xs i t) = decFileFields 1 (f0\<lparr>State := map_of (rev xs)\<rparr>)
      (encUintField 1 i @ encUintField (if i = 0 then 2 else 1) t @ [0])"
    unfolding fileValue_def by (rule decFile_State [OF refl xs])
  then show ?thesis by (simp only: idx, simp)
qed

lemma Decode_Encode:
  assumes "file_ok xs f"
  shows "Decode (Encode xs f) = Some f"
proof -
  let ?v = "[0xff, 0x82] @ fileValue xs (LastIncludedIndex f) (LastIncludedTerm f)"
  have len: "length ?v < 2 ^ 64" using assms by (simp add: file_ok_def Encode_def Let_def)
  have enc: "length (encPairs xs) < 2 ^ 64" using len by (simp add: fileValue_def)
  have xs: "length xs < 2 ^ 64" using enc encPairs_length [of xs] by simp
  have kv: "\<forall>(k, v) \<in> set xs. length k < 2 ^ 64 \<and> length v < 2 ^ 64"
    using enc encPairs_bound [of _ _ xs] by fastforce
  have it: "LastIncludedIndex f < 2 ^ 64" "LastIncludedTerm f < 2 ^ 64"
    and m: "map_of (rev xs) = State f"
    using assms by (simp_all add: file_ok_def iteration_def map_of_rev)
  have "readUint (gobUint (length ?v) @ ?v) = Some (length ?v, ?v)" by (rule readUint_gobUint [OF len])
  moreover have "decFileFields 0 emptyFile (fileValue xs (LastIncludedIndex f) (LastIncludedTerm f)) = Some f"
    unfolding decFile_fileValue [OF xs kv it] by (simp add: m emptyFile_def)
  ultimately show ?thesis by (simp add: Decode_def Encode_def Let_def)
qed

section \<open>Names, writing and reading\<close>

definition FileName :: "uint64 \<Rightarrow> string" where
  "FileName i = ''snapshot-'' @ showNat i @ ''.dat''"

text \<open>The data directory: the log and state files, and the other files by name.\<close>

record datadir = disk +
  files :: "(string, bytes) gomap"

definition WriteFile :: "fault \<Rightarrow> (string \<times> string) list \<Rightarrow> File \<Rightarrow> datadir \<Rightarrow> (perror + string) \<times> datadir" where
  "WriteFile flt xs f d =
     (let path = FileName (LastIncludedIndex f); tmp = path @ ''.tmp''; data = Encode xs f in
      case flt of
        NoFault \<Rightarrow> (Inr path, d\<lparr>files := gm_set path data (gm_del tmp (files d))\<rparr>)
      | FailEarly \<Rightarrow> (Inl IOError, d)
      | FailWrite k \<Rightarrow> (Inl IOError, d\<lparr>files := gm_set tmp (take k data) (files d)\<rparr>)
      | _ \<Rightarrow> (Inl IOError, d\<lparr>files := gm_set tmp data (files d)\<rparr>))"

definition ReadFile :: "string \<Rightarrow> datadir \<Rightarrow> perror + File" where
  "ReadFile path d =
     (case map_of (files d) path of
        None \<Rightarrow> Inl IOError
      | Some data \<Rightarrow> (case Decode data of None \<Rightarrow> Inl IOError | Some f \<Rightarrow> Inr f))"

definition removeFile :: "fault \<Rightarrow> string \<Rightarrow> datadir \<Rightarrow> datadir" where
  "removeFile flt path d = (if flt = NoFault then d\<lparr>files := gm_del path (files d)\<rparr> else d)"

text \<open>
  \<open>fmt.Sscanf(name, "snapshot-%d.dat", &idx)\<close>: the literal prefix, blanks, at least one decimal
  digit (as many as there are), a value that fits 64 bits, then the literal suffix. Text that follows
  the suffix is not looked at.
\<close>

fun stripPrefix :: "string \<Rightarrow> string \<Rightarrow> string option" where
  "stripPrefix [] s = Some s"
| "stripPrefix (c # cs) [] = None"
| "stripPrefix (c # cs) (x # xs) = (if c = x then stripPrefix cs xs else None)"

definition scanSnapshotName :: "string \<Rightarrow> uint64 option" where
  "scanSnapshotName name =
     (case stripPrefix ''snapshot-'' name of
        None \<Rightarrow> None
      | Some r \<Rightarrow>
          (let r' = dropWhile (\<lambda>c. isSpace c \<and> c \<noteq> CHR 0x0A) r; ds = takeWhile isDigit r' in
            if ds = [] \<or> 2 ^ 64 \<le> digitsVal ds then None
            else (case stripPrefix ''.dat'' (dropWhile isDigit r') of
                None \<Rightarrow> None
              | Some _ \<Rightarrow> Some (digitsVal ds))))"

text \<open>The scan of \<open>Latest\<close> over the directory entries, in the order \<open>ReadDir\<close> sorts them.\<close>

fun bestSnapshot :: "(string \<times> uint64) option \<Rightarrow> string list \<Rightarrow> (string \<times> uint64) option" where
  "bestSnapshot best [] = best"
| "bestSnapshot best (name # names) =
     (case scanSnapshotName name of
        None \<Rightarrow> bestSnapshot best names
      | Some idx \<Rightarrow>
          (case best of
             None \<Rightarrow> bestSnapshot (Some (name, idx)) names
           | Some (bn, bi) \<Rightarrow>
               if bi < idx then bestSnapshot (Some (name, idx)) names else bestSnapshot best names))"

definition readDir :: "datadir \<Rightarrow> string list" where
  "readDir d = sort (map fst (files d))"

definition Latest :: "datadir \<Rightarrow> perror + (File \<times> string) option" where
  "Latest d =
     (case bestSnapshot None (readDir d) of
        None \<Rightarrow> Inr None
      | Some (name, _) \<Rightarrow> (case ReadFile name d of Inl e \<Rightarrow> Inl e | Inr f \<Rightarrow> Inr (Some (f, name))))"

section \<open>The newest file\<close>

lemma stripPrefix_append [simp]: "stripPrefix p (p @ s) = Some s"
  by (induction p) auto

lemma takeWhile_digits:
  "takeWhile isDigit (showNat i @ CHR ''.'' # r) = showNat i"
  "dropWhile isDigit (showNat i @ CHR ''.'' # r) = CHR ''.'' # r"
  using showNat_digits [of _ i]
  by (simp_all add: takeWhile_append2 dropWhile_append2 isDigit_def)

lemma isDigit_not_space: "isDigit c \<Longrightarrow> \<not> isSpace c"
  by (auto simp: isDigit_def isSpace_def)

text \<open>Every text behind the suffix is ignored, so a temporary name scans like the final one.\<close>

lemma scan_FileName_append:
  assumes "i < 2 ^ 64"
  shows "scanSnapshotName (FileName i @ r) = Some i"
proof -
  obtain c ds where s: "showNat i = c # ds" by (cases "showNat i") auto
  have "isDigit c" using showNat_digits [of c i] s by simp
  then have nsp: "\<not> isSpace c" by (rule isDigit_not_space)
  let ?r = "showNat i @ CHR ''.'' # ''dat'' @ r"
  have dw: "dropWhile (\<lambda>c. isSpace c \<and> c \<noteq> CHR 0x0A) ?r = ?r"
    using nsp by (simp add: s)
  have sp: "stripPrefix ''snapshot-'' (FileName i @ r) = Some ?r"
    unfolding FileName_def append_assoc by simp
  show ?thesis
    unfolding scanSnapshotName_def sp option.case dw Let_def takeWhile_digits
    using assms by simp
qed

lemma scan_FileName [simp]: "i < 2 ^ 64 \<Longrightarrow> scanSnapshotName (FileName i) = Some i"
  using scan_FileName_append [of i "[]"] by simp

lemma FileName_inj: "FileName i = FileName j \<Longrightarrow> i = j"
  by (simp add: FileName_def showNat_inj)

lemma FileName_not_tmp: "FileName i @ ''.tmp'' \<noteq> FileName j"
proof
  assume "FileName i @ ''.tmp'' = FileName j"
  then have "last (FileName i @ ''.tmp'') = last (FileName j)" by simp
  then show False by (simp add: FileName_def)
qed

lemma bestSnapshot_grows:
  "bestSnapshot (Some (bn, bi)) names = Some (n, i) \<Longrightarrow> bi \<le> i"
  by (induction names arbitrary: bn bi) (force split: option.splits if_splits)+

lemma bestSnapshot_max:
  "bestSnapshot best names = Some (n, i) \<Longrightarrow> x \<in> set names \<Longrightarrow> scanSnapshotName x = Some j \<Longrightarrow> j \<le> i"
proof (induction names arbitrary: best)
  case (Cons name names)
  show ?case
  proof (cases "x \<in> set names")
    case True
    with Cons show ?thesis by (auto split: option.splits if_splits)
  next
    case False
    then have "x = name" using Cons.prems(2) by simp
    with Cons.prems show ?thesis
      by (fastforce split: option.splits if_splits dest: bestSnapshot_grows)
  qed
qed simp

lemma bestSnapshot_from:
  "bestSnapshot best names = Some (n, i) \<Longrightarrow>
     best = Some (n, i) \<or> (n \<in> set names \<and> scanSnapshotName n = Some i)"
  by (induction names arbitrary: best) (force split: option.splits if_splits)+

lemma bestSnapshot_found:
  "x \<in> set names \<Longrightarrow> scanSnapshotName x = Some j \<Longrightarrow> bestSnapshot best names \<noteq> None"
proof (induction best names rule: bestSnapshot.induct)
  case (2 best name names)
  have "bestSnapshot (Some b) ns \<noteq> None" for b ns
    by (induction ns arbitrary: b) (auto split: option.split)
  with 2 show ?case by (auto split: option.splits)
qed simp

lemma set_readDir [simp]: "set (readDir d) = fst ` set (files d)"
  by (simp add: readDir_def)

text \<open>The file \<open>Latest\<close> picks is the only one of its directory with the largest number.\<close>

lemma Latest_unique:
  assumes "n \<in> fst ` set (files d)" "scanSnapshotName n = Some i"
    and "\<And>x j. x \<in> fst ` set (files d) \<Longrightarrow> scanSnapshotName x = Some j \<Longrightarrow> x \<noteq> n \<Longrightarrow> j < i"
  shows "Latest d = (case ReadFile n d of Inl e \<Rightarrow> Inl e | Inr f \<Rightarrow> Inr (Some (f, n)))"
proof -
  from bestSnapshot_found [of n "readDir d" i None] assms(1,2)
  obtain m k where m: "bestSnapshot None (readDir d) = Some (m, k)" by auto
  from bestSnapshot_from [OF m] have mem: "m \<in> fst ` set (files d)" "scanSnapshotName m = Some k" by auto
  from bestSnapshot_max [OF m, of n i] assms(1,2) have "i \<le> k" by simp
  with assms(3) [OF mem] have "m = n" by force
  with m show ?thesis by (simp add: Latest_def)
qed

lemma keys_gm_del: "fst ` set (gm_del k m) = fst ` set m - {k}"
  by (auto simp: gm_del_def image_iff)

lemma Latest_newest:
  assumes f: "file_ok xs f" and here: "map_of (files d) (FileName (LastIncludedIndex f)) = Some (Encode xs f)"
    and old: "\<And>x j. x \<in> fst ` set (files d) \<Longrightarrow> scanSnapshotName x = Some j \<Longrightarrow>
       x \<noteq> FileName (LastIncludedIndex f) \<Longrightarrow> j < LastIncludedIndex f"
  shows "Latest d = Inr (Some (f, FileName (LastIncludedIndex f)))"
proof -
  let ?i = "LastIncludedIndex f"
  have "ReadFile (FileName ?i) d = Inr f" by (simp add: ReadFile_def here Decode_Encode [OF f])
  moreover have "FileName ?i \<in> fst ` set (files d)" using here by (metis domI dom_map_of_conv_image_fst)
  moreover have "scanSnapshotName (FileName ?i) = Some ?i" using f by (simp add: file_ok_def)
  ultimately show ?thesis using Latest_unique [of "FileName ?i" d ?i] old by simp
qed

lemma Latest_WriteFile:
  assumes f: "file_ok xs f"
    and old: "\<And>x j. x \<in> fst ` set (files d) \<Longrightarrow> scanSnapshotName x = Some j \<Longrightarrow>
       x \<noteq> FileName (LastIncludedIndex f) \<Longrightarrow> x \<noteq> FileName (LastIncludedIndex f) @ ''.tmp'' \<Longrightarrow>
       j < LastIncludedIndex f"
  shows "Latest (snd (WriteFile NoFault xs f d)) = Inr (Some (f, FileName (LastIncludedIndex f)))"
proof (rule Latest_newest [OF f])
  fix x j assume "x \<in> fst ` set (files (snd (WriteFile NoFault xs f d)))" "scanSnapshotName x = Some j"
    "x \<noteq> FileName (LastIncludedIndex f)"
  then show "j < LastIncludedIndex f" using old [of x j] by (auto simp: WriteFile_def Let_def keys_gm_del)
qed (simp add: WriteFile_def Let_def)

lemma Decode_torn: "k < length fileTypeDef \<Longrightarrow> Decode (take k (Encode xs f)) = None"
  by (auto simp: Decode_def dest: arg_cong [where f = length])

end
