(* ===== verification/Raft_Node.thy ===== *)
theory Raft_Node
  imports Snapshotfile Pb_Messages
begin

text \<open>
  The consensus node of \<open>internal/raft\<close>: its state, its construction from the data directory, and
  the helpers every handler uses (\<open>node.go\<close>, \<open>role.go\<close>).

  A handler runs under the node's mutex, so it is one function from the node to the node and its
  reply. What the code does to its surroundings is recorded in the state: the calls of the state
  machine (\<open>smOps\<close>), the values sent on the channels of waiting \<open>ProposeSync\<close> calls
  (\<open>chans\<close>), and how often \<open>applyWake\<close> was closed and replaced (\<open>wakeups\<close>). Log lines
  are left out.
\<close>

section \<open>State\<close>

datatype Role = Follower | Candidate | Leader

definition RoleString :: "Role \<Rightarrow> string" where
  "RoleString r = (case r of Follower \<Rightarrow> ''Follower'' | Candidate \<Rightarrow> ''Candidate'' | Leader \<Rightarrow> ''Leader'')"

definition toProto :: "Role \<Rightarrow> PbRole" where
  "toProto r = (case r of Candidate \<Rightarrow> Role_CANDIDATE | Leader \<Rightarrow> Role_LEADER | Follower \<Rightarrow> Role_FOLLOWER)"

record TimingConfig =
  ElectionTimeoutMin :: duration
  ElectionTimeoutMax :: duration
  HeartbeatInterval :: duration

record ApplyMsg =
  msgIndex :: uint64
  msgTerm :: uint64
  msgCommand :: bytes

text \<open>The two ways the core drives the state machine.\<close>

datatype smOp = ApplyFn ApplyMsg | RestoreState kvdata

text \<open>What a \<open>ProposeSync\<close> call receives on its channel: nil, or \<open>ErrLeadershipLost\<close>.\<close>

datatype notice = Committed | LeadershipLost

datatype raftError =
    ErrNotLeader
  | ErrLeadershipLost
  | ErrReadIndexUnavailable
  | ErrPersist perror
  | ErrCtx
  | ErrTransport
  | ErrNoQuorum
  | ErrNotInLog uint64
  | ErrNotApplied uint64
  | ErrDecodeSnapshot
  | ErrSnapshotMismatch uint64 uint64
  | ErrMarshal

record node =
  nid :: string
  address :: addr
  peers :: "addr list"
  timing :: TimingConfig
  logCapacity :: uint64
  dir :: datadir
  currentTerm :: uint64
  votedFor :: string
  log :: "LogEntry list"
  logOffset :: uint64
  currentSnapshotPath :: string
  role :: Role
  commitIndex :: uint64
  lastApplied :: uint64
  nextIndex :: "(addr, uint64) gomap"
  matchIndex :: "(addr, uint64) gomap"
  currentLeader :: addr
  lastHeartbeat :: int
  electionTimeout :: duration
  lastAppendEntriesAt :: "int option"
  wakeups :: nat
  waiters :: "(uint64, nat) gomap"
  chans :: "nat \<Rightarrow> notice list"
  nextChan :: nat
  smOps :: "smOp list"

text \<open>The parts of \<open>Config\<close> that reach the node's state.\<close>

record Config =
  cfgID :: string
  cfgAddress :: addr
  cfgPeers :: "addr list"
  cfgTiming :: TimingConfig
  cfgLogCapacity :: uint64
  cfgLocalSnapshot :: "File option"

definition defaultLogCapacityEntries :: uint64 where
  "defaultLogCapacityEntries = 1000"

section \<open>Shared helpers\<close>

text \<open>\<open>quorumSize\<close>: a strict majority of \<open>n\<close> nodes.\<close>

definition quorumSize :: "nat \<Rightarrow> nat" where
  "quorumSize n = n div 2 + 1"

definition min64 :: "uint64 \<Rightarrow> uint64 \<Rightarrow> uint64" where
  "min64 a b = (if a < b then a else b)"

definition lastLogIndexLocked :: "node \<Rightarrow> uint64" where
  "lastLogIndexLocked n = logOffset n + length (log n)"

definition lastLogTermLocked :: "node \<Rightarrow> uint64" where
  "lastLogTermLocked n = (if log n = [] then 0 else Term (log n ! (length (log n) - 1)))"

definition entryAtLocked :: "node \<Rightarrow> uint64 \<Rightarrow> LogEntry option" where
  "entryAtLocked n index =
     (if index \<le> logOffset n \<or> logOffset n + length (log n) < index then None
      else Some (log n ! (index - logOffset n - 1)))"

definition persistStateLocked :: "fault \<Rightarrow> node \<Rightarrow> perror option \<times> node" where
  "persistStateLocked flt n =
     (let (err, d) = SaveState flt (currentTerm n) (votedFor n) (dir n) in (err, n\<lparr>dir := d\<rparr>))"

definition resetElectionDeadlineLocked :: "env \<Rightarrow> node \<Rightarrow> node" where
  "resetElectionDeadlineLocked ev n =
     (let span = ElectionTimeoutMax (timing n) - ElectionTimeoutMin (timing n);
          jitter = (if 0 < span then draw ev span else 0)
      in n\<lparr>lastHeartbeat := now ev, electionTimeout := ElectionTimeoutMin (timing n) + jitter\<rparr>)"

definition sendAll :: "notice \<Rightarrow> (uint64, nat) gomap \<Rightarrow> (nat \<Rightarrow> notice list) \<Rightarrow> nat \<Rightarrow> notice list" where
  "sendAll v ws cs = fold (\<lambda>(_, ch) f. f(ch := f ch @ [v])) ws cs"

definition abortPendingWaitersLocked :: "node \<Rightarrow> node" where
  "abortPendingWaitersLocked n =
     n\<lparr>chans := sendAll LeadershipLost (waiters n) (chans n), waiters := []\<rparr>"

definition setRoleLocked :: "Role \<Rightarrow> node \<Rightarrow> node" where
  "setRoleLocked r n =
     (let n' = (if role n = Leader \<and> r \<noteq> Leader then abortPendingWaitersLocked n else n)
      in n'\<lparr>role := r\<rparr>)"

text \<open>
  \<open>observeTermLocked\<close>: whether the node stepped down, the error of the persistence call if it made
  one, and the new node.
\<close>

definition observeTermLocked :: "env \<Rightarrow> uint64 \<Rightarrow> node \<Rightarrow> bool \<times> raftError option \<times> node" where
  "observeTermLocked ev t n =
     (if t \<le> currentTerm n then (False, None, n)
      else
        (let n1 = setRoleLocked Follower (n\<lparr>currentTerm := t, votedFor := ''''\<rparr>);
             (err, n2) = persistStateLocked (ioObserve ev) n1
         in (True, map_option ErrPersist err, n2)))"

section \<open>Construction\<close>

text \<open>
  \<open>NewNode\<close>: term and vote from \<open>state.json\<close>, the log from \<open>log.dat\<close>, and the snapshot
  baseline: the log kept in memory, \<open>logOffset\<close>, the initial \<open>lastApplied\<close> and the snapshot's
  file name. Without a snapshot the offset is read off the first entry, whose index is whatever
  \<open>log.dat\<close> holds: the subtraction is the 64-bit one.
\<close>

definition fallbackBaseline :: "LogEntry list \<Rightarrow> LogEntry list \<times> uint64 \<times> uint64 \<times> string" where
  "fallbackBaseline lg =
     (if lg = [] then (lg, 0, 0, '''')
      else let off = sub64 (Index (hd lg)) 1
           in (lg, off, (if 0 < off then u64 (off + 1) else 0), ''''))"

definition baseline :: "File option \<Rightarrow> LogEntry list \<Rightarrow> LogEntry list \<times> uint64 \<times> uint64 \<times> string" where
  "baseline snap lg =
     (case snap of
        Some f \<Rightarrow>
          if 0 < LastIncludedIndex f then
            (let anchor = \<lparr>Term = LastIncludedTerm f, Index = LastIncludedIndex f, Command = []\<rparr>
             in (anchor # filter (\<lambda>e. Index anchor < Index e) lg, Index anchor - 1, Index anchor,
                 FileName (Index anchor)))
          else fallbackBaseline lg
      | None \<Rightarrow> fallbackBaseline lg)"

definition NewNode :: "env \<Rightarrow> Config \<Rightarrow> datadir \<Rightarrow> raftError + node" where
  "NewNode ev cfg d =
     (case LoadState (ioObserve ev) d of
        Inl e \<Rightarrow> Inl (ErrPersist e)
      | Inr (t, v) \<Rightarrow>
          (case ReadAllLogEntries (ioTruncate ev) d of
             (Inl e, d') \<Rightarrow> Inl (ErrPersist e)
           | (Inr lg, d') \<Rightarrow>
               (let (lg', off, initialApplied, path) = baseline (cfgLocalSnapshot cfg) lg
                in Inr (resetElectionDeadlineLocked ev
                     \<lparr>nid = cfgID cfg, address = cfgAddress cfg, peers = cfgPeers cfg,
                      timing = cfgTiming cfg,
                      logCapacity = (if cfgLogCapacity cfg = 0 then defaultLogCapacityEntries else cfgLogCapacity cfg),
                      dir = d', currentTerm = t, votedFor = v, log = lg', logOffset = off,
                      currentSnapshotPath = path, role = Follower,
                      commitIndex = initialApplied, lastApplied = initialApplied,
                      nextIndex = [], matchIndex = [], currentLeader = '''',
                      lastHeartbeat = 0, electionTimeout = 0, lastAppendEntriesAt = None,
                      wakeups = 0, waiters = [], chans = (\<lambda>_. []), nextChan = 0, smOps = []\<rparr>))))"

section \<open>Reads of the state\<close>

definition Status :: "node \<Rightarrow> Role \<times> uint64" where
  "Status n = (role n, currentTerm n)"

definition LeaderAddress :: "node \<Rightarrow> addr" where
  "LeaderAddress n = currentLeader n"

definition LastApplied :: "node \<Rightarrow> uint64" where
  "LastApplied n = lastApplied n"

definition GetStatus :: "node \<Rightarrow> GetStatusReply" where
  "GetStatus n = \<lparr>gsRole = toProto (role n), gsTerm = currentTerm n, gsAddress = address n, gsNodeId = nid n\<rparr>"

text \<open>The conditions the two tickers check on every tick.\<close>

definition electionDue :: "int \<Rightarrow> node \<Rightarrow> bool" where
  "electionDue t n \<longleftrightarrow> role n \<noteq> Leader \<and> electionTimeout n \<le> t - lastHeartbeat n"

definition heartbeatDue :: "node \<Rightarrow> bool" where
  "heartbeatDue n \<longleftrightarrow> role n = Leader"

section \<open>Frame lemmas\<close>

lemma quorum_overlap: "quorumSize n + quorumSize n > n"
  by (simp add: quorumSize_def)

lemma min64_min: "min64 a b = min a b"
  by (simp add: min64_def min_def)

lemma persistStateLocked_ok:
  "persistStateLocked NoFault n
     = (None, n\<lparr>dir := (dir n)\<lparr>stateJson := SavedState (currentTerm n) (votedFor n)\<rparr>\<rparr>)"
  by (simp add: persistStateLocked_def SaveState_def)

lemma entryAt_iff: "entryAtLocked n i = Some e \<longleftrightarrow>
    logOffset n < i \<and> i \<le> lastLogIndexLocked n \<and> e = log n ! (i - logOffset n - 1)"
  by (auto simp: entryAtLocked_def lastLogIndexLocked_def)

lemma entryAt_None: "entryAtLocked n i = None \<longleftrightarrow> i \<le> logOffset n \<or> lastLogIndexLocked n < i"
  by (auto simp: entryAtLocked_def lastLogIndexLocked_def)

lemma reset_fields [simp, frame_simps]:
  "nid (resetElectionDeadlineLocked ev n) = nid n"
  "address (resetElectionDeadlineLocked ev n) = address n"
  "peers (resetElectionDeadlineLocked ev n) = peers n"
  "timing (resetElectionDeadlineLocked ev n) = timing n"
  "logCapacity (resetElectionDeadlineLocked ev n) = logCapacity n"
  "dir (resetElectionDeadlineLocked ev n) = dir n"
  "currentTerm (resetElectionDeadlineLocked ev n) = currentTerm n"
  "votedFor (resetElectionDeadlineLocked ev n) = votedFor n"
  "log (resetElectionDeadlineLocked ev n) = log n"
  "logOffset (resetElectionDeadlineLocked ev n) = logOffset n"
  "currentSnapshotPath (resetElectionDeadlineLocked ev n) = currentSnapshotPath n"
  "role (resetElectionDeadlineLocked ev n) = role n"
  "commitIndex (resetElectionDeadlineLocked ev n) = commitIndex n"
  "lastApplied (resetElectionDeadlineLocked ev n) = lastApplied n"
  "nextIndex (resetElectionDeadlineLocked ev n) = nextIndex n"
  "matchIndex (resetElectionDeadlineLocked ev n) = matchIndex n"
  "currentLeader (resetElectionDeadlineLocked ev n) = currentLeader n"
  "lastAppendEntriesAt (resetElectionDeadlineLocked ev n) = lastAppendEntriesAt n"
  "wakeups (resetElectionDeadlineLocked ev n) = wakeups n"
  "waiters (resetElectionDeadlineLocked ev n) = waiters n"
  "chans (resetElectionDeadlineLocked ev n) = chans n"
  "nextChan (resetElectionDeadlineLocked ev n) = nextChan n"
  "smOps (resetElectionDeadlineLocked ev n) = smOps n"
  by (simp_all add: resetElectionDeadlineLocked_def Let_def)

lemma setRole_fields [simp, frame_simps]:
  "nid (setRoleLocked r n) = nid n"
  "address (setRoleLocked r n) = address n"
  "peers (setRoleLocked r n) = peers n"
  "timing (setRoleLocked r n) = timing n"
  "logCapacity (setRoleLocked r n) = logCapacity n"
  "dir (setRoleLocked r n) = dir n"
  "currentTerm (setRoleLocked r n) = currentTerm n"
  "votedFor (setRoleLocked r n) = votedFor n"
  "log (setRoleLocked r n) = log n"
  "logOffset (setRoleLocked r n) = logOffset n"
  "currentSnapshotPath (setRoleLocked r n) = currentSnapshotPath n"
  "role (setRoleLocked r n) = r"
  "commitIndex (setRoleLocked r n) = commitIndex n"
  "lastApplied (setRoleLocked r n) = lastApplied n"
  "nextIndex (setRoleLocked r n) = nextIndex n"
  "matchIndex (setRoleLocked r n) = matchIndex n"
  "currentLeader (setRoleLocked r n) = currentLeader n"
  "lastHeartbeat (setRoleLocked r n) = lastHeartbeat n"
  "electionTimeout (setRoleLocked r n) = electionTimeout n"
  "lastAppendEntriesAt (setRoleLocked r n) = lastAppendEntriesAt n"
  "wakeups (setRoleLocked r n) = wakeups n"
  "nextChan (setRoleLocked r n) = nextChan n"
  "smOps (setRoleLocked r n) = smOps n"
  by (simp_all add: setRoleLocked_def abortPendingWaitersLocked_def Let_def)

end
