(* ===== verification/Raft_Election.thy ===== *)
theory Raft_Election
  imports Raft_Node
begin

text \<open>
  Leader election (\<open>internal/raft/election.go\<close>): the vote-granting handler, the start of an
  election, and the handling of each vote reply. An election in progress is the closure of
  \<open>startElection\<close>: the term, the request sent to every peer, and the shared counter
  \<open>votes\<close>.
\<close>

section \<open>Granting votes\<close>

definition isLogAtLeastAsUpToDate :: "uint64 \<Rightarrow> uint64 \<Rightarrow> uint64 \<Rightarrow> uint64 \<Rightarrow> bool" where
  "isLogAtLeastAsUpToDate candTerm candIndex voterTerm voterIndex =
     (if candTerm \<noteq> voterTerm then voterTerm < candTerm else voterIndex \<le> candIndex)"

definition grantVote :: "env \<Rightarrow> RequestVoteRequest \<Rightarrow> node \<Rightarrow> (raftError + RequestVoteReply) \<times> node" where
  "grantVote ev req n =
     (if rvTerm req < currentTerm n then
        (Inr \<lparr>rvrTerm = currentTerm n, rvrVoteGranted = False\<rparr>, n)
      else
        (let notAlreadyVoted = (votedFor n = '''' \<or> votedFor n = rvCandidateId req);
             candLogUpToDate = isLogAtLeastAsUpToDate (rvLastLogTerm req) (rvLastLogIndex req)
                                 (lastLogTermLocked n) (lastLogIndexLocked n)
         in if \<not> notAlreadyVoted \<or> \<not> candLogUpToDate then
              (Inr \<lparr>rvrTerm = currentTerm n, rvrVoteGranted = False\<rparr>, n)
            else
              (case persistStateLocked (ioVote ev) (n\<lparr>votedFor := rvCandidateId req\<rparr>) of
                 (Some e, n1) \<Rightarrow> (Inl (ErrPersist e), n1)
               | (None, n1) \<Rightarrow>
                   (Inr \<lparr>rvrTerm = currentTerm n1, rvrVoteGranted = True\<rparr>, resetElectionDeadlineLocked ev n1))))"

definition RequestVote :: "env \<Rightarrow> RequestVoteRequest \<Rightarrow> node \<Rightarrow> (raftError + RequestVoteReply) \<times> node" where
  "RequestVote ev req n =
     (if currentTerm n < rvTerm req then
        (case observeTermLocked ev (rvTerm req) n of
           (_, Some e, n1) \<Rightarrow> (Inl e, n1)
         | (_, None, n1) \<Rightarrow> grantVote ev req n1)
      else grantVote ev req n)"

section \<open>Standing for election\<close>

definition becomeLeaderLocked :: "node \<Rightarrow> node" where
  "becomeLeaderLocked n =
     (if role n \<noteq> Candidate then n
      else
        (let lastIdx = lastLogIndexLocked n
         in n\<lparr>role := Leader, currentLeader := address n,
              nextIndex := fold (\<lambda>p m. gm_set p (lastIdx + 1) m) (peers n) [],
              matchIndex := fold (\<lambda>p m. gm_set p 0 m) (peers n) []\<rparr>))"

record election =
  elTerm :: uint64
  elReq :: RequestVoteRequest
  elQuorum :: nat
  elVotes :: nat

definition startElection :: "env \<Rightarrow> node \<Rightarrow> election option \<times> node" where
  "startElection ev n =
     (if role n = Leader then (None, n)
      else
        (let n1 = (setRoleLocked Candidate n)\<lparr>currentTerm := u64 (currentTerm n + 1), votedFor := nid n\<rparr>
         in case persistStateLocked (ioVote ev) n1 of
              (Some e, n2) \<Rightarrow> (None, n2)
            | (None, n2) \<Rightarrow>
                (let n3 = resetElectionDeadlineLocked ev n2
                 in (Some \<lparr>elTerm = currentTerm n3,
                           elReq = \<lparr>rvTerm = currentTerm n3, rvCandidateId = nid n3,
                                    rvLastLogIndex = lastLogIndexLocked n3, rvLastLogTerm = lastLogTermLocked n3\<rparr>,
                           elQuorum = quorumSize (length (peers n3) + 1), elVotes = 1\<rparr>,
                     n3))))"

text \<open>The second critical section of \<open>startElection\<close>: the self-vote may already be a quorum.\<close>

definition selfElect :: "election \<Rightarrow> node \<Rightarrow> node" where
  "selfElect el n =
     (if elQuorum el \<le> elVotes el \<and> role n = Candidate \<and> currentTerm n = elTerm el
      then becomeLeaderLocked n else n)"

text \<open>The body of the goroutine \<open>startElection\<close> spawns per peer, from the arrival of a reply on.\<close>

definition handleVoteReply :: "env \<Rightarrow> RequestVoteReply \<Rightarrow> election \<Rightarrow> node \<Rightarrow> election \<times> node" where
  "handleVoteReply ev reply el n =
     (if currentTerm n < rvrTerm reply then
        (el, snd (snd (observeTermLocked ev (rvrTerm reply) n)))
      else if role n \<noteq> Candidate \<or> currentTerm n \<noteq> elTerm el then (el, n)
      else
        (let el1 = (if rvrVoteGranted reply then el\<lparr>elVotes := elVotes el + 1\<rparr> else el)
         in (el1, if rvrVoteGranted reply \<and> elQuorum el1 \<le> elVotes el1 then becomeLeaderLocked n else n)))"

lemmas election_defs [handler_defs] =
  RequestVote_def grantVote_def startElection_def selfElect_def handleVoteReply_def becomeLeaderLocked_def

section \<open>Healthy runs\<close>

lemma observe_healthy:
  assumes "healthy ev" "currentTerm n < t"
  shows "observeTermLocked ev t n =
    (True, None, (setRoleLocked Follower (n\<lparr>currentTerm := t, votedFor := ''''\<rparr>))
       \<lparr>dir := (dir n)\<lparr>stateJson := SavedState t ''''\<rparr>\<rparr>)"
  using assms by (simp add: observeTermLocked_def persistStateLocked_ok healthyD)

lemma up_to_date_iff:
  "isLogAtLeastAsUpToDate ct ci vt vi \<longleftrightarrow> vt < ct \<or> ct = vt \<and> vi \<le> ci"
  by (auto simp: isLogAtLeastAsUpToDate_def)

lemma grantVote_healthy:
  assumes "healthy ev"
  shows "grantVote ev req n =
    (if rvTerm req < currentTerm n \<or> \<not> (votedFor n = '''' \<or> votedFor n = rvCandidateId req) \<or>
        \<not> isLogAtLeastAsUpToDate (rvLastLogTerm req) (rvLastLogIndex req) (lastLogTermLocked n) (lastLogIndexLocked n)
     then (Inr \<lparr>rvrTerm = currentTerm n, rvrVoteGranted = False\<rparr>, n)
     else (Inr \<lparr>rvrTerm = currentTerm n, rvrVoteGranted = True\<rparr>,
           resetElectionDeadlineLocked ev
             (n\<lparr>votedFor := rvCandidateId req,
                dir := (dir n)\<lparr>stateJson := SavedState (currentTerm n) (rvCandidateId req)\<rparr>\<rparr>)))"
  using assms by (simp add: grantVote_def Let_def healthyD persistStateLocked_ok)

end
