(* ===== verification/Raft_Replication.thy ===== *)
theory Raft_Replication
  imports Raft_Election
begin

text \<open>
  Log replication (\<open>internal/raft/replication.go\<close>): the follower's \<open>AppendEntries\<close> handler, the
  application of committed entries, the client entry points, and the leader's side: building the
  requests, handling the replies, advancing the commit index.
\<close>

section \<open>Follower side\<close>

text \<open>The backward scan of \<open>firstIndexOfTermLocked\<close>, on the log in reverse.\<close>

definition firstIndexOfTermLocked :: "node \<Rightarrow> uint64 \<Rightarrow> uint64" where
  "firstIndexOfTermLocked n t =
     logOffset n + (length (log n) - length (takeWhile (\<lambda>e. Term e = t) (rev (log n)))) + 1"

text \<open>The scan of \<open>lastIndexOfTermLocked\<close>: \<open>i\<close> is the loop variable plus one.\<close>

fun lastIndexScan :: "LogEntry list \<Rightarrow> uint64 \<Rightarrow> nat \<Rightarrow> nat option" where
  "lastIndexScan lg t 0 = None"
| "lastIndexScan lg t (Suc i) =
     (if Term (lg ! i) = t then Some i
      else if Term (lg ! i) < t then None
      else lastIndexScan lg t i)"

definition lastIndexOfTermLocked :: "node \<Rightarrow> uint64 \<Rightarrow> uint64" where
  "lastIndexOfTermLocked n t =
     (case lastIndexScan (log n) t (length (log n)) of None \<Rightarrow> 0 | Some i \<Rightarrow> logOffset n + i + 1)"

text \<open>
  \<open>mergeEntriesLocked\<close>: the first loop skips entries at or below \<open>logOffset\<close>, the second walks the
  remaining ones against the log and stops at the end of the log or at the first differing term,
  where it cuts.
\<close>

fun mergeSkip :: "uint64 \<Rightarrow> uint64 \<Rightarrow> PbLogEntry list \<Rightarrow> uint64 \<times> PbLogEntry list" where
  "mergeSkip off idx [] = (idx, [])"
| "mergeSkip off idx (e # es) = (if idx \<le> off then mergeSkip off (idx + 1) es else (idx, e # es))"

fun mergeWalk :: "node \<Rightarrow> uint64 \<Rightarrow> PbLogEntry list \<Rightarrow> uint64 option \<times> PbLogEntry list" where
  "mergeWalk n idx [] = (None, [])"
| "mergeWalk n idx (e # es) =
     (case entryAtLocked n idx of
        None \<Rightarrow> (None, e # es)
      | Some existing \<Rightarrow>
          if Term existing \<noteq> peTerm e then (Some idx, e # es) else mergeWalk n (idx + 1) es)"

definition truncateAt :: "env \<Rightarrow> uint64 \<Rightarrow> node \<Rightarrow> raftError option \<times> node" where
  "truncateAt ev idx n =
     (case TruncateLogFrom (ioTruncate ev) idx (dir n) of
        (Some e, d) \<Rightarrow> (Some (ErrPersist e), n\<lparr>dir := d\<rparr>)
      | (None, d) \<Rightarrow> (None, n\<lparr>dir := d, log := take (idx - logOffset n - 1) (log n)\<rparr>))"

definition appendToLog :: "env \<Rightarrow> LogEntry list \<Rightarrow> node \<Rightarrow> raftError option \<times> node" where
  "appendToLog ev es n =
     (case AppendLogEntries (ioAppend ev) es (dir n) of
        (Some e, d) \<Rightarrow> (Some (ErrPersist e), n\<lparr>dir := d\<rparr>)
      | (None, d) \<Rightarrow> (None, n\<lparr>dir := d, log := log n @ es\<rparr>))"

definition mergeEntriesLocked :: "env \<Rightarrow> uint64 \<Rightarrow> PbLogEntry list \<Rightarrow> node \<Rightarrow> raftError option \<times> node" where
  "mergeEntriesLocked ev prevLogIndex newEntries n =
     (let (idx, es) = mergeSkip (logOffset n) (prevLogIndex + 1) newEntries;
          (cut, rest) = mergeWalk n idx es
      in case (case cut of None \<Rightarrow> (None, n) | Some i \<Rightarrow> truncateAt ev i n) of
           (Some e, n1) \<Rightarrow> (Some e, n1)
         | (None, n1) \<Rightarrow> if rest = [] then (None, n1) else appendToLog ev (map entryOfPb rest) n1)"

text \<open>\<open>applyCommittedLocked\<close>: hand every newly committed entry to the state machine and to its waiter.\<close>

definition notifyWaiter :: "uint64 \<Rightarrow> node \<Rightarrow> node" where
  "notifyWaiter i n =
     (case map_of (waiters n) i of
        None \<Rightarrow> n
      | Some ch \<Rightarrow> n\<lparr>chans := (chans n)(ch := chans n ch @ [Committed]), waiters := gm_del i (waiters n)\<rparr>)"

definition applyOne :: "LogEntry \<Rightarrow> node \<Rightarrow> node" where
  "applyOne e n =
     notifyWaiter (Index e)
       (n\<lparr>smOps := smOps n @ [ApplyFn \<lparr>msgIndex = Index e, msgTerm = Term e, msgCommand = Command e\<rparr>]\<rparr>)"

lemma notify_fields [simp, frame_simps]:
  "nid (notifyWaiter i n) = nid n" "address (notifyWaiter i n) = address n" "peers (notifyWaiter i n) = peers n"
  "timing (notifyWaiter i n) = timing n" "logCapacity (notifyWaiter i n) = logCapacity n"
  "dir (notifyWaiter i n) = dir n" "currentTerm (notifyWaiter i n) = currentTerm n"
  "votedFor (notifyWaiter i n) = votedFor n" "log (notifyWaiter i n) = log n"
  "logOffset (notifyWaiter i n) = logOffset n" "currentSnapshotPath (notifyWaiter i n) = currentSnapshotPath n"
  "role (notifyWaiter i n) = role n" "commitIndex (notifyWaiter i n) = commitIndex n"
  "lastApplied (notifyWaiter i n) = lastApplied n" "nextIndex (notifyWaiter i n) = nextIndex n"
  "matchIndex (notifyWaiter i n) = matchIndex n" "currentLeader (notifyWaiter i n) = currentLeader n"
  "lastHeartbeat (notifyWaiter i n) = lastHeartbeat n" "electionTimeout (notifyWaiter i n) = electionTimeout n"
  "lastAppendEntriesAt (notifyWaiter i n) = lastAppendEntriesAt n" "wakeups (notifyWaiter i n) = wakeups n"
  "nextChan (notifyWaiter i n) = nextChan n" "smOps (notifyWaiter i n) = smOps n"
  by (simp_all add: notifyWaiter_def split: option.split)

function applyLoop :: "node \<Rightarrow> node" where
  "applyLoop n =
     (if lastApplied n < commitIndex n then
        (let n1 = n\<lparr>lastApplied := lastApplied n + 1\<rparr>
         in case entryAtLocked n1 (lastApplied n1) of
              None \<Rightarrow> n1
            | Some e \<Rightarrow> applyLoop (applyOne e n1))
      else n)"
  by pat_completeness auto
termination
  by (relation "measure (\<lambda>n. commitIndex n - lastApplied n)") (auto simp: applyOne_def)

declare applyLoop.simps [simp del]

definition applyCommittedLocked :: "node \<Rightarrow> node" where
  "applyCommittedLocked n =
     (let n1 = applyLoop n
      in if lastApplied n < commitIndex n then n1\<lparr>wakeups := wakeups n1 + 1\<rparr> else n1)"

text \<open>
  The \<open>AppendEntries\<close> handler: \<open>acceptAppend\<close> is the part behind the consistency check,
  \<open>appendAsFollower\<close> the part behind the term checks.
\<close>

definition acceptAppend :: "env \<Rightarrow> AppendEntriesRequest \<Rightarrow> node \<Rightarrow> (raftError + AppendEntriesReply) \<times> node" where
  "acceptAppend ev req n =
     (let n1 = n\<lparr>lastAppendEntriesAt := Some (now ev)\<rparr>
      in case (if aeEntries req = [] then (None, n1)
               else mergeEntriesLocked ev (aePrevLogIndex req) (aeEntries req) n1) of
           (Some e, n2) \<Rightarrow> (Inl e, n2)
         | (None, n2) \<Rightarrow>
             (let n3 = (if commitIndex n2 < aeLeaderCommit req
                        then applyCommittedLocked
                               (n2\<lparr>commitIndex := min64 (aeLeaderCommit req) (lastLogIndexLocked n2)\<rparr>)
                        else n2)
              in (Inr \<lparr>aerTerm = currentTerm n3, aerSuccess = True, aerConflictIndex = 0, aerConflictTerm = 0\<rparr>, n3)))"

definition appendAsFollower :: "env \<Rightarrow> AppendEntriesRequest \<Rightarrow> node \<Rightarrow> (raftError + AppendEntriesReply) \<times> node" where
  "appendAsFollower ev req n =
     (let n1 = resetElectionDeadlineLocked ev ((setRoleLocked Follower n)\<lparr>currentLeader := aeLeaderId req\<rparr>)
      in if logOffset n1 < aePrevLogIndex req then
           (case entryAtLocked n1 (aePrevLogIndex req) of
              None \<Rightarrow> (Inr \<lparr>aerTerm = currentTerm n1, aerSuccess = False,
                            aerConflictIndex = lastLogIndexLocked n1 + 1, aerConflictTerm = 0\<rparr>, n1)
            | Some entry \<Rightarrow>
                if Term entry \<noteq> aePrevLogTerm req then
                  (Inr \<lparr>aerTerm = currentTerm n1, aerSuccess = False,
                        aerConflictIndex = firstIndexOfTermLocked n1 (Term entry), aerConflictTerm = Term entry\<rparr>, n1)
                else acceptAppend ev req n1)
         else acceptAppend ev req n1)"

definition appendAtTerm :: "env \<Rightarrow> AppendEntriesRequest \<Rightarrow> node \<Rightarrow> (raftError + AppendEntriesReply) \<times> node" where
  "appendAtTerm ev req n =
     (if aeTerm req < currentTerm n then
        (Inr \<lparr>aerTerm = currentTerm n, aerSuccess = False, aerConflictIndex = 0, aerConflictTerm = 0\<rparr>, n)
      else appendAsFollower ev req n)"

definition AppendEntries :: "env \<Rightarrow> AppendEntriesRequest \<Rightarrow> node \<Rightarrow> (raftError + AppendEntriesReply) \<times> node" where
  "AppendEntries ev req n =
     (if currentTerm n < aeTerm req then
        (case observeTermLocked ev (aeTerm req) n of
           (_, Some e, n1) \<Rightarrow> (Inl e, n1)
         | (_, None, n1) \<Rightarrow> appendAtTerm ev req n1)
      else appendAtTerm ev req n)"

section \<open>Client entry points\<close>

definition appendLocalLocked :: "env \<Rightarrow> bytes \<Rightarrow> node \<Rightarrow> uint64 \<times> uint64 \<times> raftError option \<times> node" where
  "appendLocalLocked ev command n =
     (let entry = \<lparr>Term = currentTerm n, Index = lastLogIndexLocked n + 1, Command = command\<rparr>
      in case appendToLog ev [entry] n of
           (Some e, n1) \<Rightarrow> (0, currentTerm n, Some e, n1)
         | (None, n1) \<Rightarrow> (Index entry, currentTerm n, None, n1))"

text \<open>\<open>Propose\<close> up to the broadcast, which is a step of its own.\<close>

definition Propose :: "env \<Rightarrow> bytes \<Rightarrow> node \<Rightarrow> (uint64 \<times> uint64 \<times> bool) \<times> node" where
  "Propose ev command n =
     (if role n \<noteq> Leader then ((0, currentTerm n, False), n)
      else
        (case appendLocalLocked ev command n of
           (_, t, Some e, n1) \<Rightarrow> ((0, t, False), n1)
         | (i, t, None, n1) \<Rightarrow> ((i, t, True), n1)))"

text \<open>
  \<open>ProposeSync\<close> has three critical sections: appending the entry and registering a channel for its
  index, receiving from the channel, and removing the registration when the context ends first.
\<close>

definition proposeBegin :: "env \<Rightarrow> bytes \<Rightarrow> node \<Rightarrow> (raftError + (uint64 \<times> uint64 \<times> nat)) \<times> node" where
  "proposeBegin ev command n =
     (if role n \<noteq> Leader then (Inl ErrNotLeader, n)
      else
        (case appendLocalLocked ev command n of
           (_, t, Some e, n1) \<Rightarrow> (Inl e, n1)
         | (i, t, None, n1) \<Rightarrow>
             (Inr (i, t, nextChan n1),
              n1\<lparr>waiters := gm_set i (nextChan n1) (waiters n1), nextChan := nextChan n1 + 1\<rparr>)))"

definition proposeReceive :: "nat \<Rightarrow> node \<Rightarrow> notice option \<times> node" where
  "proposeReceive ch n =
     (case chans n ch of [] \<Rightarrow> (None, n) | v # vs \<Rightarrow> (Some v, n\<lparr>chans := (chans n)(ch := vs)\<rparr>))"

definition proposeCancel :: "uint64 \<Rightarrow> node \<Rightarrow> node" where
  "proposeCancel i n = n\<lparr>waiters := gm_del i (waiters n)\<rparr>"

section \<open>Leader side\<close>

record outgoingAppendEntries =
  oaPeer :: addr
  oaReq :: AppendEntriesRequest
  oaPrevIndex :: uint64
  oaNumEntries :: nat

definition buildRequest :: "node \<Rightarrow> addr \<Rightarrow> outgoingAppendEntries" where
  "buildRequest n p =
     (let next0 = gm_get (nextIndex n) p;
          nxt = (if next0 \<le> logOffset n then logOffset n + 1 else next0);
          prevIndex = nxt - 1;
          prevTerm = (if 0 < prevIndex then
                        (case entryAtLocked n prevIndex of None \<Rightarrow> 0 | Some e \<Rightarrow> Term e) else 0);
          entries = map (\<lambda>idx. pbOfEntry (the (entryAtLocked n idx))) [nxt ..< lastLogIndexLocked n + 1]
      in \<lparr>oaPeer = p,
          oaReq = \<lparr>aeTerm = currentTerm n, aeLeaderId = address n, aePrevLogIndex = prevIndex,
                   aePrevLogTerm = prevTerm, aeEntries = entries, aeLeaderCommit = commitIndex n\<rparr>,
          oaPrevIndex = prevIndex, oaNumEntries = length entries\<rparr>)"

definition buildAppendEntriesRequestsLocked :: "node \<Rightarrow> uint64 \<times> outgoingAppendEntries list" where
  "buildAppendEntriesRequestsLocked n = (currentTerm n, map (buildRequest n) (peers n))"

definition broadcastAppendEntries :: "node \<Rightarrow> (uint64 \<times> outgoingAppendEntries list) option" where
  "broadcastAppendEntries n =
     (if role n \<noteq> Leader then None else Some (buildAppendEntriesRequestsLocked n))"

fun advanceFrom :: "nat \<Rightarrow> node \<Rightarrow> node" where
  "advanceFrom 0 n = n"
| "advanceFrom (Suc N) n =
     (if Suc N \<le> commitIndex n then n
      else
        (case entryAtLocked n (Suc N) of
           None \<Rightarrow> advanceFrom N n
         | Some entry \<Rightarrow>
             if Term entry \<noteq> currentTerm n then advanceFrom N n
             else if quorumSize (length (peers n) + 1)
                       \<le> 1 + length (filter (\<lambda>(_, m). Suc N \<le> m) (matchIndex n))
             then applyCommittedLocked (n\<lparr>commitIndex := Suc N\<rparr>)
             else advanceFrom N n))"

definition maybeAdvanceCommitIndexLocked :: "node \<Rightarrow> node" where
  "maybeAdvanceCommitIndexLocked n = advanceFrom (lastLogIndexLocked n) n"

definition handleAppendEntriesReplyLocked ::
  "env \<Rightarrow> addr \<Rightarrow> uint64 \<Rightarrow> nat \<Rightarrow> AppendEntriesReply \<Rightarrow> node \<Rightarrow> node" where
  "handleAppendEntriesReplyLocked ev peer sentPrev numSent reply n =
     (if currentTerm n < aerTerm reply then snd (snd (observeTermLocked ev (aerTerm reply) n))
      else if aerSuccess reply then
        (let newMatch = sentPrev + numSent;
             n1 = (if gm_get (matchIndex n) peer < newMatch
                   then n\<lparr>matchIndex := gm_set peer newMatch (matchIndex n)\<rparr> else n);
             n2 = (if gm_get (nextIndex n1) peer < newMatch + 1
                   then n1\<lparr>nextIndex := gm_set peer (newMatch + 1) (nextIndex n1)\<rparr> else n1)
         in maybeAdvanceCommitIndexLocked n2)
      else
        (let nxt = (if aerConflictTerm reply \<noteq> 0 then
                      (let lastIdx = lastIndexOfTermLocked n (aerConflictTerm reply)
                       in if 0 < lastIdx then lastIdx + 1 else aerConflictIndex reply)
                    else aerConflictIndex reply);
             nxt1 = (if nxt < 1 then 1 else nxt)
         in n\<lparr>nextIndex := gm_set peer nxt1 (nextIndex n)\<rparr>))"

text \<open>\<open>sendAppendEntriesAndHandle\<close> from the arrival of the reply on; \<open>None\<close> is a failed call.\<close>

definition handleSendReply ::
  "env \<Rightarrow> uint64 \<Rightarrow> outgoingAppendEntries \<Rightarrow> AppendEntriesReply option \<Rightarrow> node \<Rightarrow> bool \<times> node" where
  "handleSendReply ev t r reply n =
     (case reply of
        None \<Rightarrow> (False, n)
      | Some rep \<Rightarrow>
          if role n \<noteq> Leader \<or> currentTerm n \<noteq> t then (False, n)
          else (aerTerm rep = t \<and> aerSuccess rep,
                handleAppendEntriesReplyLocked ev (oaPeer r) (oaPrevIndex r) (oaNumEntries r) rep n))"

section \<open>Merging\<close>

definition positional :: "uint64 \<Rightarrow> LogEntry list \<Rightarrow> bool" where
  "positional off lg \<longleftrightarrow> (\<forall>i < length lg. Index (lg ! i) = off + i + 1)"

lemma positional_dlog: "dlog.positional = positional"
  by (intro ext) (simp add: dlog.positional_def positional_def)

text \<open>The log \<open>mergeEntriesLocked\<close> is meant to produce, \<open>p\<close> being the position behind the previous entry.\<close>

fun mergeAt :: "LogEntry list \<Rightarrow> PbLogEntry list \<Rightarrow> LogEntry list" where
  "mergeAt lg [] = lg"
| "mergeAt [] (e # es) = map entryOfPb (e # es)"
| "mergeAt (x # lg) (e # es) = (if Term x = peTerm e then x # mergeAt lg es else map entryOfPb (e # es))"

definition mergeLog :: "nat \<Rightarrow> LogEntry list \<Rightarrow> PbLogEntry list \<Rightarrow> LogEntry list" where
  "mergeLog p lg es = take p lg @ mergeAt (drop p lg) es"

lemma mergeSkip_none: "off < idx \<Longrightarrow> mergeSkip off idx es = (idx, es)"
  by (cases es) simp_all

lemma mergeSkip_eq: "idx \<le> off + 1 \<Longrightarrow>
    mergeSkip off idx es = (idx + min (length es) (off + 1 - idx), drop (off + 1 - idx) es)"
proof (induction es arbitrary: idx)
  case (Cons e es)
  show ?case
  proof (cases "idx \<le> off")
    case True
    then have "off + 1 - idx = Suc (off + 1 - (idx + 1))" by simp
    then show ?thesis using Cons.IH [of "idx + 1"] True by simp
  next
    case False
    then show ?thesis using Cons.prems by simp
  qed
qed simp

lemma mergeWalk_eq:
  assumes "p \<le> length (log n)"
  shows "\<exists>m. m \<le> length es \<and> p + m \<le> length (log n) \<and>
    mergeWalk n (logOffset n + p + 1) es
      = ((if m < length es \<and> p + m < length (log n) then Some (logOffset n + p + m + 1) else None), drop m es) \<and>
    mergeAt (drop p (log n)) es
      = (if m < length es then take m (drop p (log n)) @ map entryOfPb (drop m es) else drop p (log n)) \<and>
    (m < length es \<longrightarrow> p + m < length (log n) \<longrightarrow> Term (log n ! (p + m)) \<noteq> peTerm (es ! m))"
  using assms
proof (induction es arbitrary: p)
  case Nil
  then show ?case by (intro exI [of _ 0]) simp
next
  case (Cons e es)
  show ?case
  proof (cases "p < length (log n)")
    case False
    then have p: "p = length (log n)" using Cons.prems by simp
    show ?thesis by (intro exI [of _ 0]) (simp add: p entryAtLocked_def)
  next
    case True
    then have at: "entryAtLocked n (logOffset n + p + 1) = Some (log n ! p)" by (simp add: entryAtLocked_def)
    have dr: "drop p (log n) = log n ! p # drop (Suc p) (log n)" using True by (simp add: Cons_nth_drop_Suc)
    show ?thesis
    proof (cases "Term (log n ! p) = peTerm e")
      case False
      then show ?thesis using True at dr by (intro exI [of _ 0]) simp
    next
      case eq: True
      from Cons.IH [of "Suc p"] True obtain m where m: "m \<le> length es" "Suc p + m \<le> length (log n)"
        "mergeWalk n (logOffset n + Suc p + 1) es
           = ((if m < length es \<and> Suc p + m < length (log n) then Some (logOffset n + Suc p + m + 1) else None), drop m es)"
        "mergeAt (drop (Suc p) (log n)) es
           = (if m < length es then take m (drop (Suc p) (log n)) @ map entryOfPb (drop m es) else drop (Suc p) (log n))"
        "m < length es \<longrightarrow> Suc p + m < length (log n) \<longrightarrow> Term (log n ! (Suc p + m)) \<noteq> peTerm (es ! m)"
        by auto
      have "mergeWalk n (logOffset n + p + 1) (e # es) = mergeWalk n (logOffset n + Suc p + 1) es"
        using at eq by simp
      then show ?thesis using m eq dr by (intro exI [of _ "Suc m"]) simp
    qed
  qed
qed

text \<open>What the whole operation does to the log, compacted prefix included.\<close>

definition mergedLog :: "node \<Rightarrow> uint64 \<Rightarrow> PbLogEntry list \<Rightarrow> LogEntry list" where
  "mergedLog n prev es = mergeLog (prev - logOffset n) (log n) (drop (logOffset n - prev) es)"

lemma stored_append_take:
  assumes "stored d lg" "positional off lg" "\<forall>e \<in> set new. entry_ok e"
  shows "fst (AppendLogEntries NoFault new (snd (TruncateLogFrom NoFault (off + k + 1) d))) = None"
    and "stored (snd (AppendLogEntries NoFault new (snd (TruncateLogFrom NoFault (off + k + 1) d)))) (take k lg @ new)"
proof -
  have "stored (snd (TruncateLogFrom NoFault (off + k + 1) d)) (take k lg)"
    using dlog.cut_positional [OF assms(1), of off "off + k + 1"] assms(2) by (simp add: positional_dlog)
  from Append_stored [OF this assms(3)]
  show "fst (AppendLogEntries NoFault new (snd (TruncateLogFrom NoFault (off + k + 1) d))) = None"
    "stored (snd (AppendLogEntries NoFault new (snd (TruncateLogFrom NoFault (off + k + 1) d)))) (take k lg @ new)" .
qed

lemma files_ops [frame_simps]:
  "files (snd (AppendLogEntries flt es d)) = files d"
  "files (snd (TruncateLogFrom flt i d)) = files d"
  "files (snd (RewriteLog flt es d)) = files d"
  "files (snd (ReadAllLogEntries flt d)) = files d"
  by (simp_all add: AppendLogEntries_def TruncateLogFrom_def RewriteLog_def ReadAllLogEntries_def
      split: fault.split prod.split sum.split)

lemma mergeEntries_walk:
  assumes "prev \<le> lastLogIndexLocked n"
  shows "\<exists>m. (let es' = drop (logOffset n - prev) es; p = prev - logOffset n in
    p + m \<le> length (log n) \<and> m \<le> length es' \<and>
    (m < length es' \<longrightarrow> p + m < length (log n) \<longrightarrow> Term (log n ! (p + m)) \<noteq> peTerm (es' ! m)) \<and>
    mergedLog n prev es = (if m < length es' then take (p + m) (log n) @ map entryOfPb (drop m es') else log n) \<and>
    mergeEntriesLocked ev prev es n =
      (case (if m < length es' \<and> p + m < length (log n) then truncateAt ev (logOffset n + (p + m) + 1) n else (None, n)) of
         (Some e, n1) \<Rightarrow> (Some e, n1)
       | (None, n1) \<Rightarrow> if drop m es' = [] then (None, n1) else appendToLog ev (map entryOfPb (drop m es')) n1))"
proof -
  define es' where "es' = drop (logOffset n - prev) es"
  define p where "p = prev - logOffset n"
  have p: "p \<le> length (log n)" using assms by (simp add: p_def lastLogIndexLocked_def)
  from mergeWalk_eq [OF p, of es'] obtain m where m: "m \<le> length es'" "p + m \<le> length (log n)"
    "mergeWalk n (logOffset n + p + 1) es'
      = ((if m < length es' \<and> p + m < length (log n) then Some (logOffset n + p + m + 1) else None), drop m es')"
    "mergeAt (drop p (log n)) es'
      = (if m < length es' then take m (drop p (log n)) @ map entryOfPb (drop m es') else drop p (log n))"
    "m < length es' \<longrightarrow> p + m < length (log n) \<longrightarrow> Term (log n ! (p + m)) \<noteq> peTerm (es' ! m)" by blast
  have walk: "(case mergeSkip (logOffset n) (prev + 1) es of (idx, r) \<Rightarrow> mergeWalk n idx r)
      = mergeWalk n (logOffset n + p + 1) es'"
  proof (cases "logOffset n \<le> prev")
    case True
    then show ?thesis by (simp add: mergeSkip_none p_def es'_def)
  next
    case False
    then show ?thesis
      by (cases "length es \<le> logOffset n - prev") (simp_all add: mergeSkip_eq p_def es'_def min_def)
  qed
  have "mergedLog n prev es = (if m < length es' then take (p + m) (log n) @ map entryOfPb (drop m es') else log n)"
    using m(2,4) by (auto simp: mergedLog_def mergeLog_def take_add p_def es'_def)
  moreover have "mergeEntriesLocked ev prev es n =
      (case (if m < length es' \<and> p + m < length (log n) then truncateAt ev (logOffset n + (p + m) + 1) n else (None, n)) of
         (Some e, n1) \<Rightarrow> (Some e, n1)
       | (None, n1) \<Rightarrow> if drop m es' = [] then (None, n1) else appendToLog ev (map entryOfPb (drop m es')) n1)"
    using walk m(3) unfolding mergeEntriesLocked_def Let_def
    by (cases "mergeSkip (logOffset n) (prev + 1) es") (simp add: add.assoc)
  ultimately show ?thesis using m unfolding Let_def es'_def [symmetric] p_def [symmetric] by blast
qed

lemma merge_spec:
  assumes ev: "healthy ev" and st: "stored (dir n) (log n)" "positional (logOffset n) (log n)"
    and prev: "prev \<le> lastLogIndexLocked n" and ok: "\<forall>e \<in> set es. entry_ok (entryOfPb e)"
  shows "\<exists>d. mergeEntriesLocked ev prev es n = (None, n\<lparr>dir := d, log := mergedLog n prev es\<rparr>) \<and>
    stored d (mergedLog n prev es) \<and> stateJson d = stateJson (dir n) \<and> files d = files (dir n)"
proof -
  define es' where "es' = drop (logOffset n - prev) es"
  define p where "p = prev - logOffset n"
  from mergeEntries_walk [OF prev, of es ev, folded es'_def p_def] obtain m where m:
    "p + m \<le> length (log n)" "m \<le> length es'"
    "mergedLog n prev es = (if m < length es' then take (p + m) (log n) @ map entryOfPb (drop m es') else log n)"
    "mergeEntriesLocked ev prev es n =
      (case (if m < length es' \<and> p + m < length (log n) then truncateAt ev (logOffset n + (p + m) + 1) n else (None, n)) of
         (Some e, n1) \<Rightarrow> (Some e, n1)
       | (None, n1) \<Rightarrow> if drop m es' = [] then (None, n1) else appendToLog ev (map entryOfPb (drop m es')) n1)"
    unfolding Let_def by blast
  have new: "\<forall>e \<in> set (map entryOfPb (drop m es')). entry_ok e"
    using ok by (auto simp: es'_def dest!: in_set_dropD)
  note f = healthyD [OF ev]
  consider "m = length es'" | "m < length es'" "p + m = length (log n)" | "m < length es'" "p + m < length (log n)"
    using m(1,2) by linarith
  then show ?thesis
  proof cases
    case 1
    then show ?thesis using m st by (intro exI [of _ "dir n"]) simp
  next
    case 2
    let ?d = "snd (AppendLogEntries NoFault (map entryOfPb (drop m es')) (dir n))"
    show ?thesis using 2 m(3,4) Append_stored [OF st(1) new] f
      by (intro exI [of _ ?d]) (auto simp: appendToLog_def frame_simps split: prod.split)
  next
    case 3
    let ?cut = "snd (TruncateLogFrom NoFault (logOffset n + (p + m) + 1) (dir n))"
    let ?d = "snd (AppendLogEntries NoFault (map entryOfPb (drop m es')) ?cut)"
    have "truncateAt ev (logOffset n + (p + m) + 1) n = (None, n\<lparr>dir := ?cut, log := take (p + m) (log n)\<rparr>)"
      using Truncate_stored(1) [OF st(1), of "logOffset n + (p + m) + 1"] f
      by (auto simp: truncateAt_def split: prod.split)
    then show ?thesis using 3 m(3,4) stored_append_take [OF st new, of "p + m"] f
      by (intro exI [of _ ?d]) (auto simp: appendToLog_def frame_simps split: prod.split)
  qed
qed

section \<open>Applying\<close>

definition applyOp :: "LogEntry \<Rightarrow> smOp" where
  "applyOp e = ApplyFn \<lparr>msgIndex = Index e, msgTerm = Term e, msgCommand = Command e\<rparr>"

lemma notifyWaiter_frame: "\<exists>ws cs. notifyWaiter i n = n\<lparr>waiters := ws, chans := cs\<rparr>"
proof (cases "map_of (waiters n) i")
  case None
  then show ?thesis by (intro exI [of _ "waiters n"] exI [of _ "chans n"]) (simp add: notifyWaiter_def)
next
  case (Some ch)
  then show ?thesis
    by (intro exI [of _ "gm_del i (waiters n)"] exI [of _ "(chans n)(ch := chans n ch @ [Committed])"])
      (simp add: notifyWaiter_def)
qed

lemma applyLoop_spec:
  assumes "logOffset n \<le> lastApplied n" "lastApplied n \<le> commitIndex n" "commitIndex n \<le> lastLogIndexLocked n"
  shows "\<exists>ws cs. applyLoop n = n\<lparr>lastApplied := commitIndex n, waiters := ws, chans := cs,
    smOps := smOps n @ map applyOp (drop (lastApplied n - logOffset n) (take (commitIndex n - logOffset n) (log n)))\<rparr>"
  using assms
proof (induction n rule: applyLoop.induct)
  case (1 n)
  show ?case
  proof (cases "lastApplied n < commitIndex n")
    case False
    then have eq: "lastApplied n = commitIndex n" using 1 by simp
    show ?thesis
      by (intro exI [of _ "waiters n"] exI [of _ "chans n"], subst applyLoop.simps) (simp add: eq flip: eq)
  next
    case True
    define j where "j = lastApplied n - logOffset n"
    let ?n1 = "n\<lparr>lastApplied := lastApplied n + 1\<rparr>"
    let ?e = "log n ! j"
    have j: "j < length (log n)" "j < commitIndex n - logOffset n" using True 1 by (auto simp: j_def lastLogIndexLocked_def)
    have at: "entryAtLocked ?n1 (lastApplied ?n1) = Some ?e"
      using True 1 by (auto simp: entryAt_iff lastLogIndexLocked_def j_def)
    obtain ws cs where "notifyWaiter (Index ?e) (?n1\<lparr>smOps := smOps n @ [applyOp ?e]\<rparr>)
        = ?n1\<lparr>smOps := smOps n @ [applyOp ?e], waiters := ws, chans := cs\<rparr>"
      using notifyWaiter_frame by blast
    moreover define q where "q = applyOne ?e ?n1"
    ultimately have one: "q = n\<lparr>lastApplied := Suc (lastApplied n), waiters := ws, chans := cs,
        smOps := smOps n @ [applyOp ?e]\<rparr>"
      by (simp add: applyOne_def applyOp_def)
    have step: "applyLoop n = applyLoop q"
      unfolding q_def by (subst applyLoop.simps) (use True at in simp)
    have q: "logOffset q = logOffset n" "lastApplied q = Suc (lastApplied n)" "commitIndex q = commitIndex n"
      "log q = log n" "smOps q = smOps n @ [applyOp ?e]" "lastLogIndexLocked q = lastLogIndexLocked n"
      by (simp_all add: one lastLogIndexLocked_def)
    have sj: "Suc (lastApplied n) - logOffset n = Suc j" using 1 by (simp add: j_def Suc_diff_le)
    obtain ws' cs' where "applyLoop q = q\<lparr>lastApplied := commitIndex n, waiters := ws', chans := cs',
        smOps := (smOps n @ [applyOp ?e]) @ map applyOp (drop (Suc j) (take (commitIndex n - logOffset n) (log n)))\<rparr>"
      using "1.IH" [OF True refl at, folded q_def, unfolded q sj, OF le_SucI [OF "1.prems"(1)] Suc_leI [OF True] "1.prems"(3)]
      by blast
    moreover have "drop j (take (commitIndex n - logOffset n) (log n))
        = ?e # drop (Suc j) (take (commitIndex n - logOffset n) (log n))"
      using j by (subst Cons_nth_drop_Suc [symmetric]) auto
    ultimately show ?thesis unfolding step j_def [symmetric]
      by (intro exI [of _ ws'] exI [of _ cs']) (simp add: one)
  qed
qed

lemma applyCommitted_spec:
  assumes "logOffset n \<le> lastApplied n" "lastApplied n \<le> commitIndex n" "commitIndex n \<le> lastLogIndexLocked n"
  shows "\<exists>ws cs. applyCommittedLocked n = n\<lparr>lastApplied := commitIndex n, waiters := ws, chans := cs,
    wakeups := wakeups n + (if lastApplied n < commitIndex n then 1 else 0),
    smOps := smOps n @ map applyOp (drop (lastApplied n - logOffset n) (take (commitIndex n - logOffset n) (log n)))\<rparr>"
proof -
  from applyLoop_spec [OF assms] obtain ws cs where
    "applyLoop n = n\<lparr>lastApplied := commitIndex n, waiters := ws, chans := cs,
      smOps := smOps n @ map applyOp (drop (lastApplied n - logOffset n) (take (commitIndex n - logOffset n) (log n)))\<rparr>"
    by blast
  then show ?thesis by (intro exI [of _ ws] exI [of _ cs]) (simp add: applyCommittedLocked_def Let_def)
qed

lemma applyLoop_dir [simp]: "dir (applyLoop n) = dir n"
proof (induction n rule: applyLoop.induct)
  case (1 n)
  then show ?case by (subst applyLoop.simps) (auto simp: applyOne_def Let_def split: option.split)
qed

lemma applyCommitted_dir [simp]: "dir (applyCommittedLocked n) = dir n"
  by (simp add: applyCommittedLocked_def Let_def)

section \<open>Advancing the commit index\<close>

definition replicated :: "node \<Rightarrow> uint64 \<Rightarrow> bool" where
  "replicated n N \<longleftrightarrow> (\<exists>e. entryAtLocked n N = Some e \<and> Term e = currentTerm n) \<and>
     quorumSize (length (peers n) + 1) \<le> 1 + length (filter (\<lambda>(_, m). N \<le> m) (matchIndex n))"

lemma advanceFrom_spec:
  "(\<exists>N. commitIndex n < N \<and> N \<le> K \<and> replicated n N \<and> (\<forall>M. N < M \<and> M \<le> K \<longrightarrow> \<not> replicated n M) \<and>
      advanceFrom K n = applyCommittedLocked (n\<lparr>commitIndex := N\<rparr>)) \<or>
   (\<forall>M. commitIndex n < M \<and> M \<le> K \<longrightarrow> \<not> replicated n M) \<and> advanceFrom K n = n"
proof (induction K)
  case (Suc K)
  show ?case
  proof (cases "Suc K \<le> commitIndex n")
    case False
    show ?thesis
    proof (cases "replicated n (Suc K)")
      case True
      then have "advanceFrom (Suc K) n = applyCommittedLocked (n\<lparr>commitIndex := Suc K\<rparr>)"
        using False by (auto simp: replicated_def)
      then show ?thesis using True False by (intro disjI1 exI [of _ "Suc K"]) auto
    next
      case no: False
      then have "advanceFrom (Suc K) n = advanceFrom K n"
        using False by (auto simp: replicated_def split: option.split)
      then show ?thesis using Suc no by (auto simp: le_Suc_eq)
    qed
  qed auto
qed simp

section \<open>Building requests\<close>

lemma entries_from:
  assumes "logOffset n < nxt"
  shows "map (\<lambda>idx. pbOfEntry (the (entryAtLocked n idx))) [nxt ..< Suc (lastLogIndexLocked n)]
    = map pbOfEntry (drop (nxt - logOffset n - 1) (log n))"
proof (rule nth_equalityI)
  show "length (map (\<lambda>idx. pbOfEntry (the (entryAtLocked n idx))) [nxt ..< Suc (lastLogIndexLocked n)])
    = length (map pbOfEntry (drop (nxt - logOffset n - 1) (log n)))"
    using assms by (auto simp: lastLogIndexLocked_def)
qed (use assms in \<open>auto simp: lastLogIndexLocked_def entryAtLocked_def simp del: upt_Suc\<close>)

lemma build_spec:
  assumes "outgoing = buildRequest n p"
  shows "oaPeer outgoing = p" "aeTerm (oaReq outgoing) = currentTerm n" "aeLeaderId (oaReq outgoing) = address n"
    "aeLeaderCommit (oaReq outgoing) = commitIndex n" "aePrevLogIndex (oaReq outgoing) = oaPrevIndex outgoing"
    "oaNumEntries outgoing = length (aeEntries (oaReq outgoing))"
    "logOffset n \<le> oaPrevIndex outgoing"
    "aeEntries (oaReq outgoing) = map pbOfEntry (drop (oaPrevIndex outgoing - logOffset n) (log n))"
    "aePrevLogTerm (oaReq outgoing) =
       (if logOffset n < oaPrevIndex outgoing \<and> oaPrevIndex outgoing \<le> lastLogIndexLocked n
        then Term (log n ! (oaPrevIndex outgoing - logOffset n - 1)) else 0)"
  unfolding assms buildRequest_def Let_def
  by (auto simp: entries_from not_le less_imp_le_nat simp del: upt_Suc)
    (auto simp: lastLogIndexLocked_def entryAtLocked_def)

end
