(* ===== verification/Raft_Cluster.thy ===== *)
theory Raft_Cluster
  imports Raft_Replication
begin

text \<open>
  A cluster of nodes running the handlers of the consensus core, as a step relation. A step is one
  critical section of one node, or a crash of a node at any point of one followed by a restart from
  its data directory. The network loses, delays and reorders; a \<open>RequestVote\<close> call is delivered at
  most once and answered at most once (each is one RPC of one goroutine), \<open>AppendEntries\<close> calls and
  their replies may be delivered any number of times. Timers are not restricted: an election may
  start at any moment.

  A crash stops the process: what it had written by then is on disk, synced or not. Otherwise the disk works, and the snapshot catalog is not attached (\<open>Raft_Compaction\<close> has
  the handlers that need it).
\<close>

record cluster =
  nodeAt :: "addr \<Rightarrow> node"
  elections :: "addr \<Rightarrow> uint64 \<Rightarrow> election option"
  rvCalls :: "(addr \<times> addr \<times> RequestVoteRequest) set"
  rvReplies :: "(addr \<times> addr \<times> uint64 \<times> RequestVoteReply) set"
  aeCalls :: "(addr \<times> outgoingAppendEntries) set"
  aeReplies :: "(addr \<times> outgoingAppendEntries \<times> AppendEntriesReply) set"

definition emptyDir :: datadir where
  "emptyDir = \<lparr>logFile = None, stateJson = NoState, files = []\<rparr>"

text \<open>
  The static configuration the deployment supplies: every member knows all others, identifiers are
  distinct and not empty.
\<close>

definition cluster_ok :: "addr list \<Rightarrow> (addr \<Rightarrow> Config) \<Rightarrow> bool" where
  "cluster_ok M C \<longleftrightarrow> distinct M \<and>
     (\<forall>a \<in> set M. cfgAddress (C a) = a \<and> cfgPeers (C a) = filter (\<lambda>b. b \<noteq> a) M \<and>
        cfgID (C a) \<noteq> '''' \<and> cfgLocalSnapshot (C a) = None) \<and>
     inj_on (\<lambda>a. cfgID (C a)) (set M)"

definition setNode :: "addr \<Rightarrow> node \<Rightarrow> cluster \<Rightarrow> cluster" where
  "setNode a n c = c\<lparr>nodeAt := (nodeAt c)(a := n)\<rparr>"

definition forgetElections :: "addr \<Rightarrow> cluster \<Rightarrow> cluster" where
  "forgetElections a c = c\<lparr>elections := (elections c)(a := (\<lambda>_. None))\<rparr>"

text \<open>A proposal fits a log record and the counters do not reach \<open>2 ^ 64\<close>.\<close>

definition fits :: "bytes \<Rightarrow> node \<Rightarrow> bool" where
  "fits cmd n \<longleftrightarrow> entry_ok \<lparr>Term = currentTerm n, Index = lastLogIndexLocked n + 1, Command = cmd\<rparr>"

text \<open>
  A node in the middle of a critical section when it crashes: the handler has run with some I/O call
  failing in any of the ways the disk model knows. Only the data directory survives.
\<close>

inductive interrupted :: "cluster \<Rightarrow> addr \<Rightarrow> node \<Rightarrow> bool" for c a where
  idle: "interrupted c a (nodeAt c a)"
| voting: "(b, a, req) \<in> rvCalls c \<Longrightarrow> interrupted c a (snd (RequestVote ev req (nodeAt c a)))"
| appending: "(b, r) \<in> aeCalls c \<Longrightarrow> oaPeer r = a \<Longrightarrow> interrupted c a (snd (AppendEntries ev (oaReq r) (nodeAt c a)))"
| standing: "currentTerm (nodeAt c a) + 1 < 2 ^ 64 \<Longrightarrow> interrupted c a (snd (startElection ev (nodeAt c a)))"
| proposing: "fits cmd (nodeAt c a) \<Longrightarrow> interrupted c a (snd (Propose ev cmd (nodeAt c a)))"

inductive cstep :: "addr list \<Rightarrow> (addr \<Rightarrow> Config) \<Rightarrow> cluster \<Rightarrow> cluster \<Rightarrow> bool" for M C where
  Timeout: "a \<in> set M \<Longrightarrow> healthy ev \<Longrightarrow> currentTerm (nodeAt c a) + 1 < 2 ^ 64 \<Longrightarrow>
     startElection ev (nodeAt c a) = (Some el, n') \<Longrightarrow>
     cstep M C c ((setNode a n' c)\<lparr>elections := (elections c)(a := (elections c a)(elTerm el := Some el)),
        rvCalls := rvCalls c \<union> {(a, p, elReq el) | p. p \<in> set (peers n')}\<rparr>)"
| SelfElect: "a \<in> set M \<Longrightarrow> elections c a t = Some el \<Longrightarrow> cstep M C c (setNode a (selfElect el (nodeAt c a)) c)"
| DeliverVote: "(a, p, req) \<in> rvCalls c \<Longrightarrow> healthy ev \<Longrightarrow> RequestVote ev req (nodeAt c p) = (Inr reply, n') \<Longrightarrow>
     cstep M C c ((setNode p n' c)\<lparr>rvCalls := rvCalls c - {(a, p, req)},
        rvReplies := insert (a, p, rvTerm req, reply) (rvReplies c)\<rparr>)"
| VoteReply: "(a, p, t, reply) \<in> rvReplies c \<Longrightarrow> healthy ev \<Longrightarrow> elections c a t = Some el \<Longrightarrow>
     handleVoteReply ev reply el (nodeAt c a) = (el', n') \<Longrightarrow>
     cstep M C c ((setNode a n' c)\<lparr>elections := (elections c)(a := (elections c a)(t := Some el')),
        rvReplies := rvReplies c - {(a, p, t, reply)}\<rparr>)"
| Broadcast: "a \<in> set M \<Longrightarrow> broadcastAppendEntries (nodeAt c a) = Some (t, reqs) \<Longrightarrow>
     cstep M C c (c\<lparr>aeCalls := aeCalls c \<union> {(a, r) | r. r \<in> set reqs}\<rparr>)"
| DeliverAppend: "(a, r) \<in> aeCalls c \<Longrightarrow> healthy ev \<Longrightarrow>
     AppendEntries ev (oaReq r) (nodeAt c (oaPeer r)) = (Inr reply, n') \<Longrightarrow>
     cstep M C c ((setNode (oaPeer r) n' c)\<lparr>aeReplies := insert (a, r, reply) (aeReplies c)\<rparr>)"
| AppendReply: "(a, r, reply) \<in> aeReplies c \<Longrightarrow> healthy ev \<Longrightarrow>
     handleSendReply ev (aeTerm (oaReq r)) r (Some reply) (nodeAt c a) = (ok, n') \<Longrightarrow>
     cstep M C c (setNode a n' c)"
| ClientPropose: "a \<in> set M \<Longrightarrow> healthy ev \<Longrightarrow> fits cmd (nodeAt c a) \<Longrightarrow> Propose ev cmd (nodeAt c a) = (res, n') \<Longrightarrow>
     cstep M C c (setNode a n' c)"
| ClientProposeSync: "a \<in> set M \<Longrightarrow> healthy ev \<Longrightarrow> fits cmd (nodeAt c a) \<Longrightarrow>
     proposeBegin ev cmd (nodeAt c a) = (res', n') \<Longrightarrow> cstep M C c (setNode a n' c)"
| ClientReceive: "a \<in> set M \<Longrightarrow> proposeReceive ch (nodeAt c a) = (v, n') \<Longrightarrow> cstep M C c (setNode a n' c)"
| ClientCancel: "a \<in> set M \<Longrightarrow> cstep M C c (setNode a (proposeCancel i (nodeAt c a)) c)"
| CrashRestart: "a \<in> set M \<Longrightarrow> interrupted c a n1 \<Longrightarrow> healthy ev \<Longrightarrow> NewNode ev (C a) (dir n1) = Inr n' \<Longrightarrow>
     cstep M C c (forgetElections a (setNode a n' c))"

definition cluster_start :: "addr list \<Rightarrow> (addr \<Rightarrow> Config) \<Rightarrow> cluster \<Rightarrow> bool" where
  "cluster_start M C c \<longleftrightarrow> (\<forall>a \<in> set M. \<exists>ev. healthy ev \<and> NewNode ev (C a) emptyDir = Inr (nodeAt c a)) \<and>
     elections c = (\<lambda>_ _. None) \<and> rvCalls c = {} \<and> rvReplies c = {} \<and> aeCalls c = {} \<and> aeReplies c = {}"

definition creach :: "addr list \<Rightarrow> (addr \<Rightarrow> Config) \<Rightarrow> cluster \<Rightarrow> bool" where
  "creach M C c \<longleftrightarrow> (\<exists>c0. cluster_start M C c0 \<and> (cstep M C)\<^sup>*\<^sup>* c0 c)"

text \<open>What the state machine of a node has been told to apply, in order.\<close>

definition appliedEntries :: "cluster \<Rightarrow> addr \<Rightarrow> smOp list" where
  "appliedEntries c a = smOps (nodeAt c a)"

end
