(* ===== verification/Raft_Abstract.thy ===== *)
theory Raft_Abstract
  imports Persistence
begin

text \<open>
  The protocol without messages: what Raft promises, stated over complete logs. A state keeps the
  history the promises speak of: who voted for whom in which term and with which log, who led each
  term, the leader's log of each term, and up to where each node ever agreed with it. A follower
  adopts a whole prefix of the leader's log; that the code only sends and compares the end of it is
  the business of the refinement.

  The invariants are proved for every quorum system, a locale with the intersection law.
\<close>

section \<open>States and steps\<close>

record astate =
  aterm :: "addr \<Rightarrow> nat"
  avote :: "addr \<Rightarrow> nat \<Rightarrow> addr option"
  vlog :: "addr \<Rightarrow> nat \<Rightarrow> LogEntry list"
  alog :: "addr \<Rightarrow> LogEntry list"
  ldr :: "nat \<Rightarrow> addr option"
  elq :: "nat \<Rightarrow> addr set"
  llog :: "nat \<Rightarrow> LogEntry list"
  ack :: "addr \<Rightarrow> nat \<Rightarrow> nat"
  acommit :: "addr \<Rightarrow> nat"

definition ainit :: astate where
  "ainit = \<lparr>aterm = \<lambda>_. 0, avote = \<lambda>_ _. None, vlog = \<lambda>_ _. [], alog = \<lambda>_. [], ldr = \<lambda>_. None,
     elq = \<lambda>_. {}, llog = \<lambda>_. [], ack = \<lambda>_ _. 0, acommit = \<lambda>_. 0\<rparr>"

definition lastTerm :: "LogEntry list \<Rightarrow> nat" where
  "lastTerm lg = (if lg = [] then 0 else Term (last lg))"

definition up_to_date :: "LogEntry list \<Rightarrow> LogEntry list \<Rightarrow> bool" where
  "up_to_date cand voter \<longleftrightarrow>
     lastTerm voter < lastTerm cand \<or> lastTerm voter = lastTerm cand \<and> length voter \<le> length cand"

text \<open>Index \<open>k\<close> is committed in term \<open>t\<close>: an entry of that very term, held by a quorum in that term.\<close>

definition committed :: "(addr set \<Rightarrow> bool) \<Rightarrow> astate \<Rightarrow> nat \<Rightarrow> nat \<Rightarrow> bool" where
  "committed Q s k t \<longleftrightarrow> ldr s t \<noteq> None \<and> 0 < k \<and> k \<le> length (llog s t) \<and> Term (llog s t ! (k - 1)) = t \<and>
     (\<exists>A. Q A \<and> (\<forall>a \<in> A. k \<le> ack s a t))"

definition may_commit :: "(addr set \<Rightarrow> bool) \<Rightarrow> astate \<Rightarrow> addr \<Rightarrow> nat \<Rightarrow> bool" where
  "may_commit Q s n c \<longleftrightarrow> c \<le> length (alog s n) \<and>
     (c = 0 \<or> (\<exists>k t. committed Q s k t \<and> c \<le> k \<and> t \<le> aterm s n \<and> take c (alog s n) = take c (llog s t)))"

text \<open>
  A follower adopts the first \<open>k\<close> entries of the leader's log: it keeps a log that has them, or it
  is left with just them, provided its log shared no more with the leader's.
\<close>

definition adopts :: "LogEntry list \<Rightarrow> nat \<Rightarrow> LogEntry list \<Rightarrow> LogEntry list \<Rightarrow> bool" where
  "adopts own k l own' \<longleftrightarrow> own' = own \<and> take k own = take k l \<or>
     own' = take k l \<and> (\<forall>j \<le> length l. take j own = take j l \<longrightarrow> j \<le> k)"

inductive astep :: "(addr set \<Rightarrow> bool) \<Rightarrow> astate \<Rightarrow> astate \<Rightarrow> bool" for Q where
  Stand: "aterm s n < t \<Longrightarrow> astep Q s
     (s\<lparr>aterm := (aterm s)(n := t), avote := (avote s)(n := (avote s n)(t := Some n)),
        vlog := (vlog s)(n := (vlog s n)(t := alog s n))\<rparr>)"
| NewTerm: "aterm s n < t \<Longrightarrow> astep Q s (s\<lparr>aterm := (aterm s)(n := t)\<rparr>)"
| Vote: "aterm s n = t \<Longrightarrow> avote s n t = None \<Longrightarrow> avote s c t = Some c \<Longrightarrow> up_to_date (vlog s c t) (alog s n) \<Longrightarrow>
     astep Q s (s\<lparr>avote := (avote s)(n := (avote s n)(t := Some c)),
                  vlog := (vlog s)(n := (vlog s n)(t := alog s n))\<rparr>)"
| Elect: "aterm s c = t \<Longrightarrow> ldr s t \<noteq> Some c \<Longrightarrow> Q V \<Longrightarrow> (\<And>v. v \<in> V \<Longrightarrow> avote s v t = Some c) \<Longrightarrow>
     avote s c t = Some c \<Longrightarrow> alog s c = vlog s c t \<Longrightarrow>
     astep Q s (s\<lparr>ldr := (ldr s)(t := Some c), elq := (elq s)(t := V), llog := (llog s)(t := alog s c),
                  ack := (ack s)(c := (ack s c)(t := length (alog s c)))\<rparr>)"
| Request: "aterm s c = t \<Longrightarrow> ldr s t = Some c \<Longrightarrow> alog s c = llog s t \<Longrightarrow> Term e = t \<Longrightarrow>
     astep Q s (s\<lparr>alog := (alog s)(c := alog s c @ [e]), llog := (llog s)(t := alog s c @ [e]),
                  ack := (ack s)(c := (ack s c)(t := length (alog s c) + 1))\<rparr>)"
| Adopt: "aterm s n = t \<Longrightarrow> ldr s t \<noteq> None \<Longrightarrow> k \<le> length (llog s t) \<Longrightarrow> adopts (alog s n) k (llog s t) lg \<Longrightarrow>
     astep Q s (s\<lparr>alog := (alog s)(n := lg),
                  ack := (ack s)(n := (ack s n)(t := max (ack s n t) k))\<rparr>)"
| Commit: "may_commit Q s n c \<Longrightarrow> astep Q s (s\<lparr>acommit := (acommit s)(n := c)\<rparr>)"

inductive areach :: "(addr set \<Rightarrow> bool) \<Rightarrow> astate \<Rightarrow> bool" for Q where
  areach_init: "areach Q ainit"
| areach_step: "areach Q s \<Longrightarrow> astep Q s s' \<Longrightarrow> areach Q s'"

text \<open>The invariants.\<close>

definition valid_log :: "astate \<Rightarrow> LogEntry list \<Rightarrow> bool" where
  "valid_log s lg \<longleftrightarrow> (\<forall>k < length lg. 0 < Term (lg ! k) \<and> ldr s (Term (lg ! k)) \<noteq> None \<and>
     Suc k \<le> length (llog s (Term (lg ! k))) \<and> take (Suc k) lg = take (Suc k) (llog s (Term (lg ! k))))"

definition terms_le :: "nat \<Rightarrow> LogEntry list \<Rightarrow> bool" where
  "terms_le t lg \<longleftrightarrow> (\<forall>e \<in> set lg. Term e \<le> t)"

definition agrees :: "astate \<Rightarrow> nat \<Rightarrow> nat \<Rightarrow> nat \<Rightarrow> bool" where
  "agrees s k t' t \<longleftrightarrow> k \<le> length (llog s t') \<and> take k (llog s t') = take k (llog s t)"

definition votes_inv :: "astate \<Rightarrow> bool" where
  "votes_inv s \<longleftrightarrow>
     (\<forall>n t c. avote s n t = Some c \<longrightarrow> t \<le> aterm s n \<and> 0 < t \<and> avote s c t = Some c \<and>
        up_to_date (vlog s c t) (vlog s n t))"

definition leaders_inv :: "(addr set \<Rightarrow> bool) \<Rightarrow> astate \<Rightarrow> bool" where
  "leaders_inv Q s \<longleftrightarrow>
     (\<forall>t c. ldr s t = Some c \<longrightarrow> avote s c t = Some c \<and> Q (elq s t) \<and>
        (\<forall>v \<in> elq s t. avote s v t = Some c) \<and>
        (\<exists>es. llog s t = vlog s c t @ es) \<and> ack s c t = length (llog s t))"

definition acks_inv :: "astate \<Rightarrow> bool" where
  "acks_inv s \<longleftrightarrow> (\<forall>n t. 0 < ack s n t \<longrightarrow> ldr s t \<noteq> None \<and> t \<le> aterm s n \<and> ack s n t \<le> length (llog s t))"

definition logs_inv :: "astate \<Rightarrow> bool" where
  "logs_inv s \<longleftrightarrow>
     (\<forall>n. valid_log s (alog s n) \<and> terms_le (aterm s n) (alog s n)) \<and>
     (\<forall>n t. avote s n t \<noteq> None \<longrightarrow> valid_log s (vlog s n t)) \<and>
     (\<forall>n t. avote s n t = Some n \<longrightarrow> terms_le (t - 1) (vlog s n t)) \<and>
     (\<forall>t. ldr s t \<noteq> None \<longrightarrow> valid_log s (llog s t) \<and> terms_le t (llog s t) \<and> sorted (map Term (llog s t)))"

text \<open>
  What a node acknowledged in term \<open>t\<close> is still in its log, unless the leader of a later term it has
  seen disagreed with the leader of \<open>t\<close>; and the same for the log it had when it voted.
\<close>

definition hold_inv :: "astate \<Rightarrow> bool" where
  "hold_inv s \<longleftrightarrow> (\<forall>n t k. k \<le> ack s n t \<longrightarrow>
     (\<forall>t'. t < t' \<longrightarrow> t' \<le> aterm s n \<longrightarrow> ldr s t' \<noteq> None \<longrightarrow> agrees s k t' t) \<longrightarrow>
     take k (alog s n) = take k (llog s t))"

definition voter_inv :: "astate \<Rightarrow> bool" where
  "voter_inv s \<longleftrightarrow> (\<forall>n t t' k. avote s n t' \<noteq> None \<longrightarrow> ldr s t' = None \<or> n \<in> elq s t' \<longrightarrow> t < t' \<longrightarrow> k \<le> ack s n t \<longrightarrow>
     (\<forall>t''. t < t'' \<longrightarrow> t'' < t' \<longrightarrow> ldr s t'' \<noteq> None \<longrightarrow> agrees s k t'' t) \<longrightarrow>
     take k (vlog s n t') = take k (llog s t))"

definition commit_inv :: "(addr set \<Rightarrow> bool) \<Rightarrow> astate \<Rightarrow> bool" where
  "commit_inv Q s \<longleftrightarrow> (\<forall>n. may_commit Q s n (acommit s n))"

definition raft_inv :: "(addr set \<Rightarrow> bool) \<Rightarrow> astate \<Rightarrow> bool" where
  "raft_inv Q s \<longleftrightarrow> votes_inv s \<and> leaders_inv Q s \<and> acks_inv s \<and> logs_inv s \<and> hold_inv s \<and> voter_inv s \<and> commit_inv Q s"

section \<open>Growth\<close>

text \<open>Terms are never led twice, leader logs only grow by entries of their term, acknowledgements stay.\<close>

definition grows :: "astate \<Rightarrow> astate \<Rightarrow> bool" where
  "grows s s' \<longleftrightarrow>
     (\<forall>t. ldr s t \<noteq> None \<longrightarrow> ldr s' t = ldr s t \<and> (\<exists>es. llog s' t = llog s t @ es \<and> (\<forall>e \<in> set es. Term e = t))) \<and>
     (\<forall>n. aterm s n \<le> aterm s' n) \<and> (\<forall>n t. ack s n t \<le> ack s' n t)"

lemma grows_refl: "grows s s"
  by (simp add: grows_def)

lemma grows_trans: "grows s s' \<Longrightarrow> grows s' s'' \<Longrightarrow> grows s s''"
  unfolding grows_def
proof (intro conjI allI impI, goal_cases)
  case (1 t)
  then show ?case by auto
next
  case (2 t)
  then obtain es es' where "llog s' t = llog s t @ es" "\<forall>e \<in> set es. Term e = t"
    "llog s'' t = llog s' t @ es'" "\<forall>e \<in> set es'. Term e = t" by metis
  then show ?case by (intro exI [of _ "es @ es'"]) auto
qed (meson order_trans)+

lemma grows_llog: "grows s s' \<Longrightarrow> ldr s t \<noteq> None \<Longrightarrow> k \<le> length (llog s t) \<Longrightarrow> take k (llog s' t) = take k (llog s t)"
  unfolding grows_def by (metis take_append diff_is_0_eq append_Nil2 take0)

lemma grows_ldr: "grows s s' \<Longrightarrow> ldr s t = Some c \<Longrightarrow> ldr s' t = Some c"
  by (auto simp: grows_def)

lemma grows_elected: "grows s s' \<Longrightarrow> ldr s t \<noteq> None \<Longrightarrow> ldr s' t \<noteq> None"
  by (auto simp: grows_def)

lemma grows_length: "grows s s' \<Longrightarrow> ldr s t \<noteq> None \<Longrightarrow> length (llog s t) \<le> length (llog s' t)"
  by (auto simp: grows_def)

lemma grows_valid: 
  assumes "grows s s'" "valid_log s lg"
  shows "valid_log s' lg"
  unfolding valid_log_def
proof (intro allI impI)
  fix k assume "k < length lg"
  with assms(2) have v: "0 < Term (lg ! k)" "ldr s (Term (lg ! k)) \<noteq> None"
    "Suc k \<le> length (llog s (Term (lg ! k)))" "take (Suc k) lg = take (Suc k) (llog s (Term (lg ! k)))"
    unfolding valid_log_def by blast+
  from grows_llog [OF assms(1) v(2,3)] grows_elected [OF assms(1) v(2)] grows_length [OF assms(1) v(2)] v
  show "0 < Term (lg ! k) \<and> ldr s' (Term (lg ! k)) \<noteq> None \<and> Suc k \<le> length (llog s' (Term (lg ! k))) \<and>
    take (Suc k) lg = take (Suc k) (llog s' (Term (lg ! k)))" by simp
qed

lemma grows_committed: "grows s s' \<Longrightarrow> committed Q s k t \<Longrightarrow> committed Q s' k t"
proof -
  assume g: "grows s s'" and c: "committed Q s k t"
  then have l: "ldr s t \<noteq> None" "0 < k" "k \<le> length (llog s t)" "Term (llog s t ! (k - 1)) = t"
    by (auto simp: committed_def)
  obtain A where A: "Q A" "\<And>a. a \<in> A \<Longrightarrow> k \<le> ack s a t" using c by (auto simp: committed_def)
  have "\<And>a. a \<in> A \<Longrightarrow> k \<le> ack s' a t" using A(2) g by (meson grows_def order_trans)
  moreover have "llog s' t ! (k - 1) = llog s t ! (k - 1)"
    using take_eq_nth [OF grows_llog [OF g l(1,3)], of "k - 1"] grows_length [OF g l(1)] l by simp
  ultimately show ?thesis
    using l A(1) grows_elected [OF g l(1)] grows_length [OF g l(1)] by (auto simp: committed_def)
qed

text \<open>Two leader logs cannot come to agree further than they did: what is added has the later term.\<close>

lemma agrees_back:
  assumes g: "grows s s'" and a: "agrees s' k t' t" and "t < t'" "ldr s t \<noteq> None" "ldr s t' \<noteq> None"
    and k: "k \<le> length (llog s t)" and le: "terms_le t (llog s t)"
  shows "agrees s k t' t"
proof -
  have eq: "take k (llog s' t') = take k (llog s t)"
    using a grows_llog [OF g assms(4) k] by (simp add: agrees_def)
  have "k \<le> length (llog s t')"
  proof (rule ccontr)
    let ?m = "length (llog s t')"
    assume "\<not> k \<le> ?m"
    then have m: "?m < k" by simp
    obtain es where es: "llog s' t' = llog s t' @ es" "\<forall>e \<in> set es. Term e = t'"
      using g assms(5) unfolding grows_def by blast
    have "k \<le> length (llog s' t')" using a by (simp add: agrees_def)
    then have "es \<noteq> []" using m es by auto
    then have "Term (llog s' t' ! ?m) = t'" using es by (simp add: nth_append)
    moreover have "llog s' t' ! ?m = llog s t ! ?m"
      by (rule take_eq_nth [OF eq m]) (use m \<open>k \<le> length (llog s' t')\<close> in simp)
    moreover have "llog s t ! ?m \<in> set (llog s t)" using m k by simp
    ultimately show False using le \<open>t < t'\<close> by (auto simp: terms_le_def)
  qed
  moreover from this have "take k (llog s' t') = take k (llog s t')" by (rule grows_llog [OF g assms(5)])
  ultimately show ?thesis using eq by (simp add: agrees_def)
qed

section \<open>Logs\<close>

lemma valid_take: "valid_log s lg \<Longrightarrow> valid_log s (take k lg)"
  by (auto simp: valid_log_def min_def)

lemma terms_take: "terms_le t lg \<Longrightarrow> terms_le t (take k lg)"
  by (auto simp: terms_le_def dest: in_set_takeD)

lemma terms_mono: "terms_le t lg \<Longrightarrow> t \<le> t' \<Longrightarrow> terms_le t' lg"
  by (auto simp: terms_le_def)

lemma valid_last:
  assumes "valid_log s lg" "lg \<noteq> []"
  shows "ldr s (lastTerm lg) \<noteq> None" "length lg \<le> length (llog s (lastTerm lg))"
    "lg = take (length lg) (llog s (lastTerm lg))"
proof -
  have "length lg - 1 < length lg" "Suc (length lg - 1) = length lg" using assms(2) by auto
  with assms show "ldr s (lastTerm lg) \<noteq> None" "length lg \<le> length (llog s (lastTerm lg))"
    "lg = take (length lg) (llog s (lastTerm lg))"
    unfolding valid_log_def lastTerm_def by (auto simp: last_conv_nth dest!: spec [of _ "length lg - 1"])
qed

text \<open>Log matching.\<close>

lemma valid_matching:
  assumes "valid_log s xs" "valid_log s ys" "i < length xs" "i < length ys" "Term (xs ! i) = Term (ys ! i)"
  shows "take (Suc i) xs = take (Suc i) ys"
  using assms unfolding valid_log_def by metis

lemma valid_snoc:
  assumes "valid_log s lg" "0 < Term e" "ldr s (Term e) \<noteq> None" "lg @ [e] = take (Suc (length lg)) (llog s (Term e))"
  shows "valid_log s (lg @ [e])"
  unfolding valid_log_def
proof (intro allI impI)
  fix k assume k: "k < length (lg @ [e])"
  have len: "Suc (length lg) \<le> length (llog s (Term e))"
    using arg_cong [OF assms(4), of length] by simp
  show "0 < Term ((lg @ [e]) ! k) \<and> ldr s (Term ((lg @ [e]) ! k)) \<noteq> None \<and>
    Suc k \<le> length (llog s (Term ((lg @ [e]) ! k))) \<and>
    take (Suc k) (lg @ [e]) = take (Suc k) (llog s (Term ((lg @ [e]) ! k)))"
  proof (cases "k = length lg")
    case True
    then have "(lg @ [e]) ! k = e" "take (Suc k) (lg @ [e]) = lg @ [e]" by simp_all
    then show ?thesis using assms(2-4) len True by metis
  next
    case False
    with k have "k < length lg" by simp
    then show ?thesis using assms(1) by (simp add: valid_log_def nth_append)
  qed
qed

lemma adopts_take: "adopts own k l own' \<Longrightarrow> take k own' = take k l"
  by (auto simp: adopts_def)

text \<open>Adopting a prefix keeps everything the two logs already share.\<close>

lemma adopts_keeps: "adopts own k l own' \<Longrightarrow> take j own = take j l \<Longrightarrow> j \<le> length l \<Longrightarrow> take j own' = take j l"
  by (auto simp: adopts_def min_absorb1)

section \<open>Quorum systems\<close>

locale quorum_system =
  fixes Q :: "addr set \<Rightarrow> bool"
  assumes quorum_meet: "Q A \<Longrightarrow> Q B \<Longrightarrow> \<exists>x. x \<in> A \<and> x \<in> B"
begin

lemma elect_fresh:
  assumes "leaders_inv Q s" "ldr s t \<noteq> Some c" "Q V" "\<And>v. v \<in> V \<Longrightarrow> avote s v t = Some c"
  shows "ldr s t = None"
proof (rule ccontr)
  assume "ldr s t \<noteq> None"
  then obtain c' where c': "ldr s t = Some c'" by auto
  then have "Q (elq s t)" "\<And>v. v \<in> elq s t \<Longrightarrow> avote s v t = Some c'"
    using assms(1) by (auto simp: leaders_inv_def)
  then show False using quorum_meet [OF assms(3)] assms(2,4) c' by fastforce
qed

lemma step_grows:
  assumes "astep Q s s'" "leaders_inv Q s" "acks_inv s"
  shows "grows s s'"
  using assms(1)
proof cases
  case (Elect c t V)
  have "ldr s t = None" by (rule elect_fresh [OF assms(2) Elect(3-5)])
  moreover from this have "ack s c t = 0" using assms(3) unfolding acks_inv_def by (metis neq0_conv)
  ultimately show ?thesis using Elect by (auto simp: grows_def)
next
  case (Request c t e)
  have "ack s c t = length (llog s t)" using assms(2) Request by (auto simp: leaders_inv_def)
  then show ?thesis using Request by (auto simp: grows_def)
qed (auto simp: grows_def)

text \<open>A voter of a later term had the committed entries, and only votes for a log that has them too.\<close>

lemma voted_log_complete:
  assumes com: "committed Q s k t"
    and v: "valid_log s c" "valid_log s v" "up_to_date c v" "terms_le (t' - 1) c" "0 < t'"
    and has: "take k v = take k (llog s t)"
    and logs: "logs_inv s"
    and IH: "\<And>t''. t < t'' \<Longrightarrow> t'' < t' \<Longrightarrow> ldr s t'' \<noteq> None \<Longrightarrow> agrees s k t'' t"
  shows "k \<le> length c \<and> take k c = take k (llog s t)"
proof -
  have k: "0 < k" "k \<le> length (llog s t)" "Term (llog s t ! (k - 1)) = t" "ldr s t \<noteq> None"
    using com by (auto simp: committed_def)
  have klen: "k \<le> length v" using take_eq_length [OF has [symmetric] k(2)] .
  then have ne: "v \<noteq> []" using k by auto
  let ?tv = "lastTerm v" and ?tc = "lastTerm c"
  have tv: "t \<le> ?tv"
  proof -
    have "sorted (map Term (llog s ?tv))" using logs valid_last(1) [OF v(2) ne] by (simp add: logs_inv_def)
    then have "sorted (map Term v)"
      using valid_last(3) [OF v(2) ne] by (metis sorted_wrt_take take_map)
    from sorted_nth_mono [OF this, of "k - 1" "length v - 1"]
    have "Term (v ! (k - 1)) \<le> ?tv" using ne klen k(1) by (simp add: lastTerm_def last_conv_nth diff_le_mono)
    moreover have "v ! (k - 1) = llog s t ! (k - 1)" by (rule take_eq_nth [OF has]) (use k klen in auto)
    ultimately show ?thesis using k by simp
  qed
  show ?thesis
  proof (cases "?tv = ?tc")
    case True
    then have len: "length v \<le> length c" using v(3) by (simp add: up_to_date_def)
    then have c: "c \<noteq> []" using ne by auto
    have "take (length v) c = v"
      using valid_last(3) [OF v(1) c] valid_last(3) [OF v(2) ne] len True by (metis min.absorb1 take_take)
    then show ?thesis using has klen len by (metis min.absorb1 order_trans take_take)
  next
    case False
    then have lt: "?tv < ?tc" using v(3) by (auto simp: up_to_date_def)
    then have c: "c \<noteq> []" by (auto simp: lastTerm_def)
    have "?tc \<le> t' - 1" using v(4) c by (auto simp: terms_le_def lastTerm_def)
    then have ag: "agrees s k ?tc t" using IH [of ?tc] lt tv v(5) valid_last(1) [OF v(1) c] by simp
    have eq: "c = take (length c) (llog s ?tc)" by (rule valid_last(3) [OF v(1) c])
    have "k \<le> length c"
    proof (rule ccontr)
      let ?i = "length c - 1"
      assume "\<not> k \<le> length c"
      then have i: "?i < k" by simp
      have il: "?i < length (llog s ?tc)" using i ag by (simp add: agrees_def)
      have "llog s ?tc ! ?i = c ! ?i" using eq c by (metis diff_less length_greater_0_conv less_one nth_take)
      then have "Term (llog s ?tc ! ?i) = ?tc" using c by (simp add: lastTerm_def last_conv_nth)
      moreover have "llog s ?tc ! ?i = llog s t ! ?i"
        by (rule take_eq_nth [of k]) (use ag i il in \<open>simp_all add: agrees_def\<close>)
      moreover have "llog s t ! ?i \<in> set (llog s t)" using i k by simp
      ultimately have "?tc \<le> t" using logs k(4) by (metis logs_inv_def terms_le_def)
      then show False using lt tv by simp
    qed
    then show ?thesis using eq ag by (metis agrees_def min.absorb1 take_take)
  qed
qed

lemma leaders_complete:
  assumes inv: "votes_inv s" "leaders_inv Q s" "logs_inv s" "voter_inv s"
    and com: "committed Q s k t" and "t < t'" "ldr s t' \<noteq> None"
  shows "agrees s k t' t"
  using assms(6,7)
proof (induction t' rule: less_induct)
  case (less t')
  from less.prems obtain c where c: "ldr s t' = Some c" by auto
  obtain A where A: "Q A" "\<forall>a \<in> A. k \<le> ack s a t" using com by (auto simp: committed_def)
  have c': "avote s c t' = Some c" "Q (elq s t')" "\<forall>v \<in> elq s t'. avote s v t' = Some c"
    "\<exists>es. llog s t' = vlog s c t' @ es" using inv(2) c by (auto simp: leaders_inv_def)
  then obtain es where es: "llog s t' = vlog s c t' @ es" by blast
  obtain v where v: "v \<in> A" "v \<in> elq s t'" using quorum_meet [OF A(1) c'(2)] by blast
  have vv: "avote s v t' = Some c" using v c' by simp
  have IH: "\<And>t''. t < t'' \<Longrightarrow> t'' < t' \<Longrightarrow> ldr s t'' \<noteq> None \<Longrightarrow> agrees s k t'' t"
    using less.IH by blast
  have "take k (vlog s v t') = take k (llog s t)"
    using inv(4) vv v A less.prems IH unfolding voter_inv_def by blast
  moreover have "up_to_date (vlog s c t') (vlog s v t')" "0 < t'" using inv(1) vv by (auto simp: votes_inv_def)
  moreover have "valid_log s (vlog s c t')" "valid_log s (vlog s v t')" "terms_le (t' - 1) (vlog s c t')"
    using inv(3) vv c'(1) by (auto simp: logs_inv_def)
  ultimately have "k \<le> length (vlog s c t') \<and> take k (vlog s c t') = take k (llog s t)"
    using voted_log_complete [OF com _ _ _ _ _ _ inv(3) IH] by blast
  then show ?case using es by (simp add: agrees_def)
qed

end

section \<open>The invariants are kept\<close>

context quorum_system
begin

lemma votes_step:
  assumes "astep Q s s'" "votes_inv s"
  shows "votes_inv s'"
  using assms(1)
proof cases
  case (Stand n t)
  have old: "\<And>m c. avote s m t = Some c \<Longrightarrow> m \<noteq> n \<and> c \<noteq> n"
    using assms(2) Stand(2) unfolding votes_inv_def by (metis leD)
  show ?thesis unfolding votes_inv_def
  proof (intro allI impI, goal_cases)
    case (1 m t' c)
    show ?case
    proof (cases "t' = t")
      case True
      then show ?thesis using 1 old [of m c] assms(2) Stand(1,2)
        by (auto simp: votes_inv_def up_to_date_def split: if_splits)
    next
      case False
      then have "avote s m t' = Some c" using 1 Stand(1) by (auto split: if_splits)
      then have "t' \<le> aterm s m" "0 < t'" "avote s c t' = Some c" "up_to_date (vlog s c t') (vlog s m t')"
        using assms(2) unfolding votes_inv_def by blast+
      then show ?thesis using False Stand(1,2) by (auto split: if_splits)
    qed
  qed
next
  case (NewTerm n t)
  then show ?thesis using assms(2) unfolding votes_inv_def by simp (meson less_imp_le order_trans)
next
  case (Vote n t c)
  have "c \<noteq> n" using Vote by auto
  moreover have "0 < t" using assms(2) Vote unfolding votes_inv_def by blast
  moreover have old: "\<And>m. avote s m t \<noteq> Some n" using assms(2) Vote(3) unfolding votes_inv_def by (metis option.distinct(1))
  ultimately show ?thesis using assms(2) Vote unfolding votes_inv_def
    by (auto split: if_splits)
qed (use assms(2) in \<open>auto simp: votes_inv_def\<close>)

lemma leaders_step:
  assumes "astep Q s s'" "votes_inv s" "leaders_inv Q s" "acks_inv s"
  shows "leaders_inv Q s'"
  using assms(1)
proof cases
  case (Stand n t)
  have fresh: "avote s n t = None" using assms(2) Stand(2) unfolding votes_inv_def by (metis leD not_None_eq)
  show ?thesis unfolding leaders_inv_def
  proof (intro allI impI)
    fix t' c assume "ldr s' t' = Some c"
    then have c: "ldr s t' = Some c" using Stand(1) by simp
    then have "avote s c t' = Some c" "\<forall>v \<in> elq s t'. avote s v t' = Some c" using assms(3) by (auto simp: leaders_inv_def)
    then have "c = n \<Longrightarrow> t' \<noteq> t" "\<forall>v \<in> elq s t'. v = n \<longrightarrow> t' \<noteq> t" using fresh by auto
    then show "avote s' c t' = Some c \<and> Q (elq s' t') \<and> (\<forall>v \<in> elq s' t'. avote s' v t' = Some c) \<and>
        (\<exists>es. llog s' t' = vlog s' c t' @ es) \<and> ack s' c t' = length (llog s' t')"
      using assms(3) c Stand(1) by (auto simp: leaders_inv_def)
  qed
next
  case (Vote n t c)
  show ?thesis unfolding leaders_inv_def
  proof (intro allI impI)
    fix t' c' assume "ldr s' t' = Some c'"
    then have c: "ldr s t' = Some c'" using Vote(1) by simp
    then have "avote s c' t' = Some c'" "\<forall>v \<in> elq s t'. avote s v t' = Some c'" using assms(3) by (auto simp: leaders_inv_def)
    then have "c' = n \<Longrightarrow> t' \<noteq> t" "\<forall>v \<in> elq s t'. v = n \<longrightarrow> t' \<noteq> t" using Vote(3) by auto
    then show "avote s' c' t' = Some c' \<and> Q (elq s' t') \<and> (\<forall>v \<in> elq s' t'. avote s' v t' = Some c') \<and>
        (\<exists>es. llog s' t' = vlog s' c' t' @ es) \<and> ack s' c' t' = length (llog s' t')"
      using assms(3) c Vote(1) by (auto simp: leaders_inv_def)
  qed
next
  case (Request c t e)
  obtain es where "llog s t = vlog s c t @ es" using assms(3) Request(3) unfolding leaders_inv_def by blast
  then have "llog s t @ [e] = vlog s c t @ es @ [e]" by simp
  then show ?thesis using assms(3) Request unfolding leaders_inv_def by auto
next
  case (Adopt n t k)
  have "ldr s t = Some n \<Longrightarrow> ack s n t = length (llog s t)" using assms(3) by (auto simp: leaders_inv_def)
  then show ?thesis using assms(3) Adopt by (auto simp: leaders_inv_def)
qed (use assms(3) in \<open>auto simp: leaders_inv_def\<close>)

lemma acks_step:
  assumes "astep Q s s'" "votes_inv s" "leaders_inv Q s" "acks_inv s"
  shows "acks_inv s'"
  unfolding acks_inv_def
proof (intro allI impI)
  fix m t' assume pos: "0 < ack s' m t'"
  have g: "grows s s'" by (rule step_grows [OF assms(1,3,4)])
  have keep: "ldr s' t' \<noteq> None \<and> t' \<le> aterm s' m \<and> ack s' m t' \<le> length (llog s' t')"
    if "ack s' m t' = ack s m t'"
  proof -
    have "ldr s t' \<noteq> None" "t' \<le> aterm s m" "ack s m t' \<le> length (llog s t')"
      using assms(4) pos that unfolding acks_inv_def by metis+
    then show ?thesis using that grows_elected [OF g] grows_length [OF g, of t'] g
      by (metis grows_def order_trans)
  qed
  from assms(1) show "ldr s' t' \<noteq> None \<and> t' \<le> aterm s' m \<and> ack s' m t' \<le> length (llog s' t')"
  proof cases
    case (Elect c t V)
    then show ?thesis using keep by (cases "m = c \<and> t' = t") auto
  next
    case (Request c t e)
    then show ?thesis using keep by (cases "m = c \<and> t' = t") auto
  next
    case (Adopt n t k)
    have "ack s n t \<le> length (llog s t)" using assms(4) unfolding acks_inv_def by (metis le0 neq0_conv)
    then show ?thesis using keep Adopt by (cases "m = n \<and> t' = t") auto
  qed (use keep in auto)
qed

end

context quorum_system
begin

lemma logs_step:
  assumes st: "astep Q s s'" and inv: "votes_inv s" "leaders_inv Q s" "acks_inv s" "logs_inv s"
  shows "logs_inv s'"
proof -
  have g: "grows s s'" by (rule step_grows [OF st inv(2,3)])
  note v = grows_valid [OF g]
  have al: "\<And>n. valid_log s (alog s n)" "\<And>n. terms_le (aterm s n) (alog s n)"
    and vl: "\<And>n t. avote s n t \<noteq> None \<Longrightarrow> valid_log s (vlog s n t)"
    "\<And>n t. avote s n t = Some n \<Longrightarrow> terms_le (t - 1) (vlog s n t)"
    and ll: "\<And>t. ldr s t \<noteq> None \<Longrightarrow> valid_log s (llog s t)" "\<And>t. ldr s t \<noteq> None \<Longrightarrow> terms_le t (llog s t)"
    "\<And>t. ldr s t \<noteq> None \<Longrightarrow> sorted (map Term (llog s t))"
    using inv(4) unfolding logs_inv_def by blast+
  have tm: "\<And>n t. aterm s n < t \<Longrightarrow> terms_le (t - 1) (alog s n) \<and> terms_le t (alog s n)"
    using al(2) terms_mono by (metis One_nat_def Suc_pred less_Suc_eq_le less_imp_le not_gr_zero not_less_zero)
  from st show ?thesis
  proof cases
    case (Stand n t)
    then show ?thesis unfolding logs_inv_def using v al vl ll tm by (auto split: if_splits)
  next
    case (NewTerm n t)
    then show ?thesis unfolding logs_inv_def using v al vl ll tm by auto
  next
    case (Vote n t c)
    then have "c \<noteq> n" by auto
    then show ?thesis unfolding logs_inv_def using Vote v al vl ll by (auto split: if_splits)
  next
    case (Elect c t V)
    have own: "valid_log s (alog s c)" "terms_le t (alog s c)" "sorted (map Term (alog s c))"
    proof -
      show "valid_log s (alog s c)" "terms_le t (alog s c)" using al Elect(2) by blast+
      show "sorted (map Term (alog s c))"
      proof (cases "alog s c = []")
        case False
        show ?thesis using ll(3) [OF valid_last(1) [OF al(1) False]] valid_last(3) [OF al(1) False]
          by (metis sorted_wrt_take take_map)
      qed simp
    qed
    show ?thesis unfolding logs_inv_def using Elect(1) v al vl ll own by auto
  next
    case (Request c t e)
    have t: "0 < t" using inv(1,2) Request(3) unfolding leaders_inv_def votes_inv_def by blast
    have "valid_log s' (alog s c @ [e])"
    proof (rule valid_snoc)
      show "valid_log s' (alog s c)" using v al by blast
    qed (use Request t in simp_all)
    moreover have "sorted (map Term (llog s t @ [e]))"
      using ll(2,3) [of t] Request(3,5) by (auto simp: sorted_append terms_le_def)
    moreover have "terms_le t (llog s t @ [e])" using ll(2) [of t] Request(3,5) by (auto simp: terms_le_def)
    ultimately show ?thesis unfolding logs_inv_def using Request v al vl ll by auto
  next
    case (Adopt n t k lg)
    have "valid_log s lg" "terms_le t lg"
      using ll [OF Adopt(3)] al Adopt(2,5) by (auto simp: adopts_def valid_take terms_take)
    then show ?thesis unfolding logs_inv_def using Adopt(1,2) v al vl ll by auto
  next
    case (Commit n c)
    then show ?thesis unfolding logs_inv_def using v al vl ll by auto
  qed
qed

text \<open>A step that changes neither the log nor the acknowledgement keeps what they promise.\<close>

lemma promise_back:
  assumes g: "grows s s'" and inv: "acks_inv s" "logs_inv s" and k: "0 < k" "k \<le> ack s n t"
    and later: "\<And>t'. t < t' \<Longrightarrow> P t' \<Longrightarrow> ldr s' t' \<noteq> None \<Longrightarrow> agrees s' k t' t"
  shows "\<forall>t'. t < t' \<longrightarrow> P t' \<longrightarrow> ldr s t' \<noteq> None \<longrightarrow> agrees s k t' t"
    and "take k (llog s' t) = take k (llog s t)"
proof -
  have t: "ldr s t \<noteq> None" "k \<le> length (llog s t)"
    using inv(1) k unfolding acks_inv_def by (metis less_le_trans order_trans)+
  then have "terms_le t (llog s t)" using inv(2) by (auto simp: logs_inv_def)
  then show "\<forall>t'. t < t' \<longrightarrow> P t' \<longrightarrow> ldr s t' \<noteq> None \<longrightarrow> agrees s k t' t"
    using agrees_back [OF g _ _ t(1) _ t(2)] later grows_elected [OF g] by blast
  show "take k (llog s' t) = take k (llog s t)" by (rule grows_llog [OF g t])
qed

lemma hold_frame:
  assumes g: "grows s s'" and inv: "acks_inv s" "logs_inv s" "hold_inv s" and k: "k \<le> ack s n t"
    and later: "\<And>t'. t < t' \<Longrightarrow> t' \<le> aterm s' n \<Longrightarrow> ldr s' t' \<noteq> None \<Longrightarrow> agrees s' k t' t"
  shows "take k (alog s n) = take k (llog s' t)"
proof (cases "k = 0")
  case False
  then have k0: "0 < k" by simp
  have "\<And>t'. t' \<le> aterm s n \<Longrightarrow> t' \<le> aterm s' n" using g by (meson grows_def order_trans)
  note b = promise_back [where P = "\<lambda>t'. t' \<le> aterm s n", OF g inv(1,2) k0 k later [OF _ this]]
  have "take k (alog s n) = take k (llog s t)" using inv(3) k b(1) unfolding hold_inv_def by blast
  then show ?thesis using b(2) by simp
qed simp

lemma hold_request:
  assumes st: "astep Q s s'" and inv: "votes_inv s" "leaders_inv Q s" "acks_inv s"
    and s': "alog s' c = alog s c @ es" and k: "k \<le> ack s' c t"
    and eq: "take k (alog s c) = take k (llog s' t)"
  shows "take k (alog s' c) = take k (llog s' t)"
proof -
  have "k \<le> length (llog s' t)"
  proof (cases "k = 0")
    case False
    then have "0 < ack s' c t" using k by simp
    then show ?thesis using acks_step [OF st inv] k unfolding acks_inv_def by (meson order_trans)
  qed simp
  then have "k \<le> length (alog s c)" using take_eq_length [OF eq [symmetric]] by simp
  then show ?thesis using eq s' by simp
qed

lemma hold_adopt:
  assumes inv: "acks_inv s" and t: "aterm s n = t" "ldr s t \<noteq> None" "adopts (alog s n) j (llog s t) lg"
    and k: "k \<le> ack s n t'" and eq: "take k (alog s n) = take k (llog s t')"
    and later: "t' < t \<Longrightarrow> agrees s k t t'"
  shows "take k lg = take k (llog s t')"
proof (cases "k = 0")
  case False
  with k have "0 < ack s n t'" by simp
  with inv k t(1) have len: "ldr s t' \<noteq> None" "t' \<le> t" "k \<le> length (llog s t')"
    unfolding acks_inv_def by (meson order_trans)+
  have ag: "k \<le> length (llog s t)" "take k (llog s t) = take k (llog s t')"
    using later len by (cases "t' = t"; simp add: agrees_def)+
  have "take k lg = take k (llog s t)" using ag eq by (intro adopts_keeps [OF t(3)]) auto
  then show ?thesis using ag by simp
qed simp

lemma hold_step:
  assumes st: "astep Q s s'" and inv: "votes_inv s" "leaders_inv Q s" "acks_inv s" "logs_inv s" "hold_inv s"
  shows "hold_inv s'"
  unfolding hold_inv_def
proof (intro allI impI)
  fix m t' k
  assume k: "k \<le> ack s' m t'"
    and later: "\<forall>u. t' < u \<longrightarrow> u \<le> aterm s' m \<longrightarrow> ldr s' u \<noteq> None \<longrightarrow> agrees s' k u t'"
  have g: "grows s s'" by (rule step_grows [OF st inv(2,3)])
  note frame = hold_frame [OF g inv(3-5), of k m t']
  from st show "take k (alog s' m) = take k (llog s' t')"
  proof cases
    case (Elect c t V)
    then show ?thesis using frame k later by (cases "m = c \<and> t' = t") (auto split: if_splits)
  next
    case (Request c t e)
    show ?thesis
    proof (cases "m = c \<and> t' \<noteq> t")
      case True
      then have "take k (alog s c) = take k (llog s' t')" using frame k later Request(1) by (auto split: if_splits)
      then have "take k (alog s' c) = take k (llog s' t')"
        by (intro hold_request [OF st inv(1-3)]) (use True k Request(1) in auto)
      then show ?thesis using True by simp
    qed (use frame k later Request(1) in \<open>auto split: if_splits\<close>)
  next
    case (Adopt n t j lg)
    have l': "llog s' = llog s" "ldr s' = ldr s" "aterm s' = aterm s" "alog s' n = lg" using Adopt(1) by simp_all
    consider "m \<noteq> n" | "m = n" "k \<le> ack s n t'" | "m = n" "t' = t" "k \<le> j"
      using k Adopt(1) by (auto simp: le_max_iff_disj split: if_splits)
    then show ?thesis
    proof cases
      case 2
      then have "take k (alog s n) = take k (llog s t')" using frame later l' by simp
      then have "take k lg = take k (llog s t')"
        by (rule hold_adopt [OF inv(3) Adopt(2,3,5) 2(2)])
          (use later 2(1) Adopt(2,3) l' in \<open>auto simp: agrees_def\<close>)
      then show ?thesis using 2(1) l' by simp
    next
      case 3
      have "take j lg = take j (llog s t)" by (rule adopts_take [OF Adopt(5)])
      then show ?thesis using take_eq_mono [OF _ 3(3)] l' 3 by metis
    qed (use frame k later Adopt(1) in \<open>auto split: if_splits\<close>)
  qed (use frame k later in \<open>auto split: if_splits\<close>)
qed

lemma voter_frame:
  assumes g: "grows s s'" and inv: "acks_inv s" "logs_inv s" "voter_inv s" and k: "k \<le> ack s n t"
    and v: "avote s n t' \<noteq> None" "ldr s t' = None \<or> n \<in> elq s t'" "t < t'"
    and later: "\<And>u. t < u \<Longrightarrow> u < t' \<Longrightarrow> ldr s' u \<noteq> None \<Longrightarrow> agrees s' k u t"
  shows "take k (vlog s n t') = take k (llog s' t)"
proof (cases "k = 0")
  case False
  then have k0: "0 < k" by simp
  note b = promise_back [where P = "\<lambda>u. u < t'", OF g inv(1,2) k0 k later]
  have "take k (vlog s n t') = take k (llog s t)" using inv(3) k v b(1) unfolding voter_inv_def by blast
  then show ?thesis using b(2) by simp
qed simp

lemma voter_step:
  assumes st: "astep Q s s'"
    and inv: "votes_inv s" "leaders_inv Q s" "acks_inv s" "logs_inv s" "hold_inv s" "voter_inv s"
  shows "voter_inv s'"
  unfolding voter_inv_def
proof (intro allI impI)
  fix m t t' k
  assume v: "avote s' m t' \<noteq> None" "ldr s' t' = None \<or> m \<in> elq s' t'" "t < t'" and k: "k \<le> ack s' m t"
    and later: "\<forall>u. t < u \<longrightarrow> u < t' \<longrightarrow> ldr s' u \<noteq> None \<longrightarrow> agrees s' k u t"
  have g: "grows s s'" by (rule step_grows [OF st inv(2,3)])
  have old: "t' \<le> aterm s m" if "avote s m t' \<noteq> None" using inv(1) that unfolding votes_inv_def by blast
  have voters: "\<And>u. avote s m u = None \<Longrightarrow> m \<in> elq s u \<Longrightarrow> ldr s u = None"
    using inv(2) unfolding leaders_inv_def by (metis not_None_eq)
  note frame = voter_frame [OF g inv(3,4,6), of k m t t']
  from st show "take k (vlog s' m t') = take k (llog s' t)"
  proof cases
    case (Stand n u)
    show ?thesis
    proof (cases "m = n \<and> t' = u")
      case True
      then have "avote s m u = None" using old Stand(2) by (metis leD)
      then have "ldr s u = None" using voters [of u] v True Stand(1) by auto
      then have "take k (alog s m) = take k (llog s' t)"
        by (intro hold_frame [OF g inv(3-5)]) (use k later Stand(1,2) True in \<open>auto simp: agrees_def le_less\<close>)
      then show ?thesis using True Stand(1) by simp
    qed (use frame k v later Stand(1) in \<open>auto split: if_splits\<close>)
  next
    case (Vote n u c)
    show ?thesis
    proof (cases "m = n \<and> t' = u")
      case True
      then have "ldr s u = None" using voters [of u] v Vote(1,3) by auto
      then have "take k (alog s m) = take k (llog s' t)"
        by (intro hold_frame [OF g inv(3-5)]) (use k later Vote(1,2) True in \<open>auto simp: agrees_def le_less\<close>)
      then show ?thesis using True Vote(1) by simp
    qed (use frame k v later Vote(1) in \<open>auto split: if_splits\<close>)
  next
    case (Elect c u V)
    have "ldr s u = None" by (rule elect_fresh [OF inv(2) Elect(3-5)])
    moreover have "m = c \<Longrightarrow> t \<noteq> u" using old v Elect(1,2) by auto
    ultimately show ?thesis using frame k v later Elect(1) by (auto split: if_splits)
  next
    case (Request c u e)
    have "m = c \<Longrightarrow> t \<noteq> u" using old v Request(1,2) by auto
    then show ?thesis using frame k v later Request(1) by (auto split: if_splits)
  next
    case (Adopt n u j)
    have "m = n \<Longrightarrow> t \<noteq> u" using old v Adopt(1,2) by auto
    then show ?thesis using frame k v later Adopt(1) by (auto split: if_splits)
  qed (use frame k v later in \<open>auto split: if_splits\<close>)
qed

end

context quorum_system
begin

lemma committed_agrees:
  assumes "raft_inv Q s" "committed Q s k t" "t \<le> t'" "ldr s t' \<noteq> None"
  shows "agrees s k t' t"
proof (cases "t = t'")
  case True
  then show ?thesis using assms(2) by (simp add: agrees_def committed_def)
next
  case False
  then show ?thesis using assms by (intro leaders_complete) (auto simp: raft_inv_def)
qed

lemma may_commit_frame:
  assumes g: "grows s s'" and "may_commit Q s n c" "alog s' n = alog s n @ es"
  shows "may_commit Q s' n c"
proof (cases "c = 0")
  case False
  with assms(2) obtain k t where c: "committed Q s k t" "c \<le> k" "t \<le> aterm s n"
    "take c (alog s n) = take c (llog s t)" "c \<le> length (alog s n)" by (auto simp: may_commit_def)
  then have "take c (llog s' t) = take c (llog s t)"
    using grows_llog [OF g, of t c] by (auto simp: committed_def)
  moreover have "t \<le> aterm s' n" using c(3) g by (meson grows_def order_trans)
  moreover have "take c (alog s' n) = take c (alog s n)" "c \<le> length (alog s' n)" using c(5) assms(3) by simp_all
  ultimately show ?thesis using c grows_committed [OF g c(1)] unfolding may_commit_def by metis
qed (simp add: may_commit_def)

lemma may_commit_adopt:
  assumes inv: "raft_inv Q s" and g: "grows s s'" and c: "may_commit Q s n c"
    and t: "aterm s n = t" "ldr s t \<noteq> None" "adopts (alog s n) j (llog s t) lg"
    and s': "alog s' n = lg" "llog s' = llog s"
  shows "may_commit Q s' n c"
proof (cases "c = 0")
  case False
  with c obtain k u where u: "committed Q s k u" "c \<le> k" "u \<le> t"
    "take c (alog s n) = take c (llog s u)" using t(1) by (auto simp: may_commit_def)
  have "agrees s k t u" by (rule committed_agrees [OF inv u(1,3) t(2)])
  then have ag: "take c (llog s t) = take c (llog s u)" "c \<le> length (llog s t)"
    using u(2) by (auto simp: agrees_def intro: take_eq_mono)
  have "take c lg = take c (llog s t)" using ag u(4) by (intro adopts_keeps [OF t(3)]) auto
  moreover from this have "c \<le> length lg"
    using take_eq_length ag(2) by metis
  moreover have "t \<le> aterm s' n" using t(1) g by (auto simp: grows_def)
  ultimately show ?thesis using ag u grows_committed [OF g u(1)] s' False
    unfolding may_commit_def by (metis order_trans)
qed (simp add: may_commit_def)

lemma commit_step:
  assumes st: "astep Q s s'" and inv: "raft_inv Q s"
  shows "commit_inv Q s'"
  unfolding commit_inv_def
proof
  fix m
  have i: "leaders_inv Q s" "acks_inv s" using inv by (auto simp: raft_inv_def)
  have g: "grows s s'" by (rule step_grows [OF st i])
  have old: "may_commit Q s m (acommit s m)" using inv by (auto simp: raft_inv_def commit_inv_def)
  have same: "may_commit Q s' m c" if "alog s' m = alog s m" "may_commit Q s m c" for c
    using may_commit_frame [OF g that(2), of "[]"] that(1) by simp
  from st show "may_commit Q s' m (acommit s' m)"
  proof cases
    case (Request c t e)
    show ?thesis
    proof (cases "m = c")
      case True
      then show ?thesis using may_commit_frame [OF g old, of "[e]"] Request(1) by simp
    qed (use same old Request(1) in simp)
  next
    case (Adopt n t j lg)
    show ?thesis
    proof (cases "m = n")
      case True
      then show ?thesis using may_commit_adopt [OF inv g old, of t j lg] Adopt by simp
    qed (use same old Adopt(1) in simp)
  next
    case (Commit n c)
    then show ?thesis using same old by (cases "m = n") simp_all
  qed (use same old in simp_all)
qed

lemma raft_inv_step: "raft_inv Q s \<Longrightarrow> astep Q s s' \<Longrightarrow> raft_inv Q s'"
  using commit_step [of s s'] votes_step [of s s'] leaders_step [of s s'] acks_step [of s s']
    logs_step [of s s'] hold_step [of s s'] voter_step [of s s']
  by (simp add: raft_inv_def)

lemma raft_inv_init: "raft_inv Q ainit"
  by (simp add: raft_inv_def votes_inv_def leaders_inv_def acks_inv_def logs_inv_def hold_inv_def
      voter_inv_def commit_inv_def ainit_def valid_log_def terms_le_def may_commit_def)

lemma areach_inv: "areach Q s \<Longrightarrow> raft_inv Q s"
  by (induction rule: areach.induct) (auto intro: raft_inv_init raft_inv_step)

end

section \<open>Safety\<close>

context quorum_system
begin

lemma run_grows: "(astep Q)\<^sup>*\<^sup>* s s' \<Longrightarrow> raft_inv Q s \<Longrightarrow> grows s s' \<and> raft_inv Q s'"
proof (induction rule: rtranclp_induct)
  case (step s' s'')
  then have "leaders_inv Q s'" "acks_inv s'" by (auto simp: raft_inv_def)
  from step_grows [OF step(2) this] step show ?case
    using grows_trans raft_inv_step by blast
qed (simp add: grows_refl)

lemma committed_prefix:
  assumes "raft_inv Q s" "committed Q s k t" "committed Q s k' t'" "j \<le> k" "j \<le> k'"
  shows "take j (llog s t) = take j (llog s t')"
proof (cases "t \<le> t'")
  case True
  from committed_agrees [OF assms(1,2) True] assms(3,4) show ?thesis
    by (auto simp: agrees_def committed_def intro: take_eq_mono [symmetric])
next
  case False
  then have "t' \<le> t" by simp
  from committed_agrees [OF assms(1,3) this] assms(2,5) show ?thesis
    by (auto simp: agrees_def committed_def intro: take_eq_mono)
qed

text \<open>
  What one node has committed at some time and what another has committed at any later time never
  differ.
\<close>

lemma machine_safety:
  assumes inv: "raft_inv Q s" and run: "(astep Q)\<^sup>*\<^sup>* s s'" and j: "j \<le> acommit s n" "j \<le> acommit s' m"
  shows "take j (alog s n) = take j (alog s' m)"
proof (cases "j = 0")
  case False
  have g: "grows s s'" and inv': "raft_inv Q s'" using run_grows [OF run inv] by auto
  have "may_commit Q s n (acommit s n)" "may_commit Q s' m (acommit s' m)"
    using inv inv' by (auto simp: raft_inv_def commit_inv_def)
  then obtain k t k' t' where a: "committed Q s k t" "acommit s n \<le> k"
      "take (acommit s n) (alog s n) = take (acommit s n) (llog s t)"
    and b: "committed Q s' k' t'" "acommit s' m \<le> k'"
      "take (acommit s' m) (alog s' m) = take (acommit s' m) (llog s' t')"
    using j False unfolding may_commit_def by (metis le_zero_eq)
  have "take j (llog s' t) = take j (llog s t)"
    using a(1,2) j(1) by (intro grows_llog [OF g]) (auto simp: committed_def)
  moreover have "take j (llog s' t) = take j (llog s' t')"
    using a(2) b(2) j by (intro committed_prefix [OF inv' grows_committed [OF g a(1)] b(1)]) auto
  ultimately show ?thesis using take_eq_mono [OF a(3) j(1)] take_eq_mono [OF b(3) j(2)] by simp
qed simp

lemma reach_run: "areach Q s \<Longrightarrow> (astep Q)\<^sup>*\<^sup>* s s' \<Longrightarrow> areach Q s'"
  by (rotate_tac) (induction rule: rtranclp_induct, auto intro: areach_step)

end

section \<open>Majorities\<close>

text \<open>The quorums of the code: at least \<open>quorumSize\<close> of the members.\<close>

definition majority :: "addr set \<Rightarrow> addr set \<Rightarrow> bool" where
  "majority N A \<longleftrightarrow> finite N \<and> A \<subseteq> N \<and> card N div 2 + 1 \<le> card A"

lemma majorities_meet: "majority N A \<Longrightarrow> majority N B \<Longrightarrow> \<exists>x. x \<in> A \<and> x \<in> B"
proof (rule ccontr)
  assume m: "majority N A" "majority N B" and no: "\<not> (\<exists>x. x \<in> A \<and> x \<in> B)"
  then have "finite N" "A \<subseteq> N" "B \<subseteq> N" by (auto simp: majority_def)
  then have fin: "finite A" "finite B" "A \<union> B \<subseteq> N" by (auto intro: finite_subset)
  have "card A + card B = card (A \<union> B)" using no fin by (intro card_Un_disjoint [symmetric]) auto
  also have "\<dots> \<le> card N" using fin(3) \<open>finite N\<close> by (rule card_mono [rotated])
  finally have "card A + card B \<le> card N" .
  moreover have "card N div 2 + 1 \<le> card A" "card N div 2 + 1 \<le> card B" using m by (simp_all add: majority_def)
  ultimately show False by linarith
qed

interpretation maj: quorum_system "majority N" for N
  by unfold_locales (rule majorities_meet)

end
