(* ===== verification/Raft_Refinement.thy ===== *)
theory Raft_Refinement
  imports Raft_Cluster Raft_Abstract
begin

text \<open>
  The cluster of handlers refines the message-free protocol: every step of \<open>Raft_Cluster\<close> is matched
  by steps of \<open>Raft_Abstract\<close>, so the safety properties proved there hold of the handlers.

  The simulation relation has a part per node (\<open>node_rel\<close>) and a part per kind of message in the
  network. A handler is simulated once, for its node alone; what the other nodes and the messages
  know only depends on history, which grows (\<open>local_step\<close>).
\<close>

section \<open>Steps of one node\<close>

definition local_step :: "addr \<Rightarrow> astate \<Rightarrow> astate \<Rightarrow> bool" where
  "local_step a s s' \<longleftrightarrow> grows s s' \<and>
     (\<forall>n t b. avote s n t = Some b \<longrightarrow> avote s' n t = Some b \<and> vlog s' n t = vlog s n t) \<and>
     (\<forall>n. n \<noteq> a \<longrightarrow> aterm s' n = aterm s n \<and> alog s' n = alog s n \<and> acommit s' n = acommit s n \<and>
        avote s' n = avote s n) \<and>
     (\<forall>n t. n \<noteq> a \<longrightarrow> (ldr s' t = Some n \<longrightarrow> ldr s t = Some n) \<and> (ldr s t = Some n \<longrightarrow> llog s' t = llog s t))"

lemma local_refl: "local_step a s s"
  by (simp add: local_step_def grows_refl)

lemma local_trans:
  assumes "local_step a s s'" "local_step a s' s''"
  shows "local_step a s s''"
  unfolding local_step_def
proof (intro conjI allI impI)
  show "grows s s''" using assms grows_trans by (auto simp: local_step_def)
next
  fix n t b assume "avote s n t = Some b"
  then show "avote s'' n t = Some b" "vlog s'' n t = vlog s n t"
    using assms by (auto simp: local_step_def)
qed (use assms in \<open>auto simp: local_step_def dest: grows_ldr\<close>)

text \<open>A step of \<open>Raft_Abstract\<close> by node \<open>a\<close>, with what it may change.\<close>

definition arun :: "addr set \<Rightarrow> addr \<Rightarrow> astate \<Rightarrow> astate \<Rightarrow> bool" where
  "arun N a s s' \<longleftrightarrow> (astep (majority N))\<^sup>*\<^sup>* s s' \<and> local_step a s s'"

lemma arun_refl: "arun N a s s"
  by (simp add: arun_def local_refl)

lemma arun_trans: "arun N a s s' \<Longrightarrow> arun N a s' s'' \<Longrightarrow> arun N a s s''"
  unfolding arun_def using local_trans rtranclp_trans by fast

lemma arun_reach: "arun N a s s' \<Longrightarrow> areach (majority N) s \<Longrightarrow> areach (majority N) s'"
  unfolding arun_def using maj.reach_run by blast

lemma arun_step:
  assumes reach: "areach (majority N) s" and st: "astep (majority N) s s'"
    and other: "\<And>n. n \<noteq> a \<Longrightarrow> aterm s' n = aterm s n \<and> alog s' n = alog s n \<and> acommit s' n = acommit s n \<and> avote s' n = avote s n"
    and votes: "\<And>t b. avote s a t = Some b \<Longrightarrow> avote s' a t = Some b \<and> vlog s' a t = vlog s a t"
    and vl: "\<And>n. n \<noteq> a \<Longrightarrow> vlog s' n = vlog s n"
    and lead: "\<And>n t. n \<noteq> a \<Longrightarrow> (ldr s' t = Some n \<longrightarrow> ldr s t = Some n) \<and> (ldr s t = Some n \<longrightarrow> llog s' t = llog s t)"
  shows "arun N a s s'"
proof -
  have "leaders_inv (majority N) s" "acks_inv s" using maj.areach_inv [OF reach] by (auto simp: raft_inv_def)
  then have "grows s s'" by (rule maj.step_grows [OF st])
  moreover have "avote s' n t = Some b \<and> vlog s' n t = vlog s n t" if "avote s n t = Some b" for n t b
    using that votes other vl by (cases "n = a") auto
  ultimately show ?thesis using other lead st by (auto simp: arun_def local_step_def)
qed

lemma arun_inv: "areach (majority N) s \<Longrightarrow> raft_inv (majority N) s"
  by (rule maj.areach_inv)

lemma votes_past: "areach (majority N) s \<Longrightarrow> avote s a t = Some b \<Longrightarrow> t \<le> aterm s a"
  using arun_inv [of N s] unfolding raft_inv_def votes_inv_def by blast

lemma run_Stand:
  assumes "areach (majority N) s" "aterm s a < t"
  shows "arun N a s (s\<lparr>aterm := (aterm s)(a := t), avote := (avote s)(a := (avote s a)(t := Some a)),
     vlog := (vlog s)(a := (vlog s a)(t := alog s a))\<rparr>)"
  by (rule arun_step [OF assms(1) astep.Stand [OF assms(2)]]) (use votes_past [OF assms(1)] assms(2) in fastforce)+

lemma run_NewTerm:
  assumes "areach (majority N) s" "aterm s a < t"
  shows "arun N a s (s\<lparr>aterm := (aterm s)(a := t)\<rparr>)"
  by (rule arun_step [OF assms(1) astep.NewTerm [OF assms(2)]]) simp_all

lemma run_Vote:
  assumes "areach (majority N) s" "aterm s a = t" "avote s a t = None" "avote s c t = Some c" "up_to_date (vlog s c t) (alog s a)"
  shows "arun N a s (s\<lparr>avote := (avote s)(a := (avote s a)(t := Some c)), vlog := (vlog s)(a := (vlog s a)(t := alog s a))\<rparr>)"
  by (rule arun_step [OF assms(1) astep.Vote [OF assms(2-5)]]) (use assms(3) in fastforce)+

lemma run_Elect:
  assumes "areach (majority N) s" "aterm s a = t" "ldr s t \<noteq> Some a" "majority N V"
    "\<And>v. v \<in> V \<Longrightarrow> avote s v t = Some a" "avote s a t = Some a" "alog s a = vlog s a t"
  shows "arun N a s (s\<lparr>ldr := (ldr s)(t := Some a), elq := (elq s)(t := V), llog := (llog s)(t := alog s a),
     ack := (ack s)(a := (ack s a)(t := length (alog s a)))\<rparr>)"
proof (rule arun_step [OF assms(1) astep.Elect [where Q = "majority N" and V = V, OF assms(2-7)]])
  have "leaders_inv (majority N) s" using arun_inv [OF assms(1)] by (simp add: raft_inv_def)
  from maj.elect_fresh [OF this assms(3-5)]
  show "\<And>n u. n \<noteq> a \<Longrightarrow>
    (ldr (s\<lparr>ldr := (ldr s)(t := Some a), elq := (elq s)(t := V), llog := (llog s)(t := alog s a),
       ack := (ack s)(a := (ack s a)(t := length (alog s a)))\<rparr>) u = Some n \<longrightarrow> ldr s u = Some n) \<and>
    (ldr s u = Some n \<longrightarrow> llog (s\<lparr>ldr := (ldr s)(t := Some a), elq := (elq s)(t := V), llog := (llog s)(t := alog s a),
       ack := (ack s)(a := (ack s a)(t := length (alog s a)))\<rparr>) u = llog s u)" by auto
qed auto

lemma run_Request:
  assumes "areach (majority N) s" "aterm s a = t" "ldr s t = Some a" "alog s a = llog s t" "Term e = t"
  shows "arun N a s (s\<lparr>alog := (alog s)(a := alog s a @ [e]), llog := (llog s)(t := alog s a @ [e]),
     ack := (ack s)(a := (ack s a)(t := length (alog s a) + 1))\<rparr>)"
  by (rule arun_step [OF assms(1) astep.Request [OF assms(2-5)]]) (use assms(3) in auto)

lemma run_Adopt:
  assumes "areach (majority N) s" "aterm s a = t" "ldr s t \<noteq> None" "k \<le> length (llog s t)"
    "adopts (alog s a) k (llog s t) lg"
  shows "arun N a s (s\<lparr>alog := (alog s)(a := lg), ack := (ack s)(a := (ack s a)(t := max (ack s a t) k))\<rparr>)"
  by (rule arun_step [OF assms(1) astep.Adopt [OF assms(2-5)]]) auto

lemma run_Commit:
  assumes "areach (majority N) s" "may_commit (majority N) s a k"
  shows "arun N a s (s\<lparr>acommit := (acommit s)(a := k)\<rparr>)"
  by (rule arun_step [OF assms(1) astep.Commit [OF assms(2)]]) auto

section \<open>The simulation relation\<close>

definition vote_text :: "(addr \<Rightarrow> Config) \<Rightarrow> addr option \<Rightarrow> string" where
  "vote_text C v = (case v of None \<Rightarrow> '''' | Some b \<Rightarrow> cfgID (C b))"

definition leader_rel :: "astate \<Rightarrow> addr \<Rightarrow> node \<Rightarrow> bool" where
  "leader_rel s a n \<longleftrightarrow> ldr s (currentTerm n) = Some a \<and> llog s (currentTerm n) = log n \<and>
     distinct (map fst (matchIndex n)) \<and>
     (\<forall>p m. (p, m) \<in> set (matchIndex n) \<longrightarrow> p \<in> set (peers n) \<and> m \<le> ack s p (currentTerm n))"

definition cand_rel :: "astate \<Rightarrow> addr \<Rightarrow> node \<Rightarrow> bool" where
  "cand_rel s a n \<longleftrightarrow> ldr s (currentTerm n) \<noteq> Some a \<and> avote s a (currentTerm n) = Some a \<and>
     vlog s a (currentTerm n) = log n"

definition node_rel :: "(addr \<Rightarrow> Config) \<Rightarrow> astate \<Rightarrow> addr \<Rightarrow> node \<Rightarrow> bool" where
  "node_rel C s a n \<longleftrightarrow>
     (nid n = cfgID (C a) \<and> address n = a \<and> peers n = cfgPeers (C a) \<and> logOffset n = 0) \<and>
     (stored (dir n) (log n) \<and> positional 0 (log n) \<and> LoadState NoFault (dir n) = Inr (currentTerm n, votedFor n)) \<and>
     (aterm s a = currentTerm n \<and> alog s a = log n \<and> acommit s a = commitIndex n \<and>
      votedFor n = vote_text C (avote s a (currentTerm n))) \<and>
     (lastApplied n = commitIndex n \<and> smOps n = map applyOp (take (commitIndex n) (log n))) \<and>
     (role n = Leader \<longrightarrow> leader_rel s a n) \<and> (role n = Candidate \<longrightarrow> cand_rel s a n)"

definition rv_rel :: "addr list \<Rightarrow> (addr \<Rightarrow> Config) \<Rightarrow> astate \<Rightarrow> addr \<Rightarrow> addr \<Rightarrow> RequestVoteRequest \<Rightarrow> bool" where
  "rv_rel M C s a p req \<longleftrightarrow> a \<in> set M \<and> p \<in> set M - {a} \<and> avote s a (rvTerm req) = Some a \<and>
     rvCandidateId req = cfgID (C a) \<and> rvLastLogIndex req = length (vlog s a (rvTerm req)) \<and>
     rvLastLogTerm req = lastTerm (vlog s a (rvTerm req))"

definition rvr_rel :: "addr list \<Rightarrow> astate \<Rightarrow> addr \<Rightarrow> addr \<Rightarrow> uint64 \<Rightarrow> RequestVoteReply \<Rightarrow> bool" where
  "rvr_rel M s a p t rep \<longleftrightarrow> a \<in> set M \<and> p \<in> set M - {a} \<and> avote s a t = Some a \<and>
     (rvrVoteGranted rep \<longrightarrow> avote s p t = Some a)"

definition commit_ok :: "addr set \<Rightarrow> astate \<Rightarrow> nat \<Rightarrow> nat \<Rightarrow> bool" where
  "commit_ok N s t c \<longleftrightarrow>
     c = 0 \<or> (\<exists>k t'. committed (majority N) s k t' \<and> c \<le> k \<and> t' \<le> t \<and> take c (llog s t) = take c (llog s t'))"

definition ae_rel :: "addr list \<Rightarrow> astate \<Rightarrow> addr \<Rightarrow> outgoingAppendEntries \<Rightarrow> bool" where
  "ae_rel M s a r \<longleftrightarrow> a \<in> set M \<and> oaPeer r \<in> set M \<and> oaPeer r \<noteq> a \<and>
     aePrevLogIndex (oaReq r) = oaPrevIndex r \<and> oaNumEntries r = length (aeEntries (oaReq r)) \<and>
     (let t = aeTerm (oaReq r); p = oaPrevIndex r in
        ldr s t = Some a \<and>
        (\<exists>m \<le> length (llog s t). aeEntries (oaReq r) = map pbOfEntry (drop p (take m (llog s t))) \<and>
           aePrevLogTerm (oaReq r) = (if 0 < p \<and> p \<le> m then Term (llog s t ! (p - 1)) else 0) \<and>
           aeLeaderCommit (oaReq r) \<le> m \<and> commit_ok (set M) s t (aeLeaderCommit (oaReq r))))"

definition aer_rel :: "addr list \<Rightarrow> astate \<Rightarrow> addr \<Rightarrow> outgoingAppendEntries \<Rightarrow> AppendEntriesReply \<Rightarrow> bool" where
  "aer_rel M s a r rep \<longleftrightarrow> a \<in> set M \<and> oaPeer r \<in> set M \<and> oaPeer r \<noteq> a \<and>
     (aerSuccess rep \<longrightarrow> oaPrevIndex r + oaNumEntries r \<le> ack s (oaPeer r) (aeTerm (oaReq r)))"

definition el_rel :: "addr list \<Rightarrow> astate \<Rightarrow> cluster \<Rightarrow> addr \<Rightarrow> uint64 \<Rightarrow> election \<Rightarrow> bool" where
  "el_rel M s c a t el \<longleftrightarrow> elTerm el = t \<and> elQuorum el = quorumSize (length M) \<and> avote s a t = Some a \<and>
     (\<exists>S \<subseteq> set M - {a}. elVotes el = 1 + card S \<and>
        (\<forall>p \<in> S. avote s p t = Some a \<and> (\<forall>req. (a, p, req) \<in> rvCalls c \<longrightarrow> rvTerm req \<noteq> t) \<and>
           (\<forall>rep. (a, p, t, rep) \<notin> rvReplies c)))"

text \<open>One outstanding vote call per peer and term, on its way there or back.\<close>

definition once :: "cluster \<Rightarrow> bool" where
  "once c \<longleftrightarrow> (\<forall>a p req rep. (a, p, req) \<in> rvCalls c \<longrightarrow> (a, p, rvTerm req, rep) \<notin> rvReplies c) \<and>
     (\<forall>a p t rep rep'. (a, p, t, rep) \<in> rvReplies c \<longrightarrow> (a, p, t, rep') \<in> rvReplies c \<longrightarrow> rep = rep')"

definition llogs_ok :: "astate \<Rightarrow> bool" where
  "llogs_ok s \<longleftrightarrow> (\<forall>t. ldr s t \<noteq> None \<longrightarrow> positional 0 (llog s t) \<and> (\<forall>e \<in> set (llog s t). entry_ok e))"

definition voters_ok :: "addr list \<Rightarrow> astate \<Rightarrow> bool" where
  "voters_ok M s \<longleftrightarrow> (\<forall>a t b. avote s a t = Some b \<longrightarrow> b \<in> set M)"

definition sim :: "addr list \<Rightarrow> (addr \<Rightarrow> Config) \<Rightarrow> cluster \<Rightarrow> astate \<Rightarrow> bool" where
  "sim M C c s \<longleftrightarrow> areach (majority (set M)) s \<and> llogs_ok s \<and> voters_ok M s \<and> once c \<and>
     (\<forall>a \<in> set M. node_rel C s a (nodeAt c a)) \<and>
     (\<forall>(a, p, req) \<in> rvCalls c. rv_rel M C s a p req) \<and>
     (\<forall>(a, p, t, rep) \<in> rvReplies c. rvr_rel M s a p t rep) \<and>
     (\<forall>(a, r) \<in> aeCalls c. ae_rel M s a r) \<and>
     (\<forall>(a, r, rep) \<in> aeReplies c. aer_rel M s a r rep) \<and>
     (\<forall>a \<in> set M. \<forall>t el. elections c a t = Some el \<longrightarrow> el_rel M s c a t el)"

section \<open>History only grows\<close>

lemma node_rel_other:
  assumes "node_rel C s b n" "local_step a s s'" "b \<noteq> a"
  shows "node_rel C s' b n"
proof -
  from assms(2,3) have same: "aterm s' b = aterm s b" "alog s' b = alog s b" "acommit s' b = acommit s b" "avote s' b = avote s b"
    and l: "\<And>t. ldr s' t = Some b \<Longrightarrow> ldr s t = Some b" "\<And>t. ldr s t = Some b \<Longrightarrow> llog s' t = llog s t"
    and v: "\<And>t c. avote s b t = Some c \<Longrightarrow> vlog s' b t = vlog s b t"
    and g: "grows s s'" by (auto simp: local_step_def)
  have ack: "\<And>p t. ack s p t \<le> ack s' p t" using g by (simp add: grows_def)
  have "leader_rel s' b n" if "leader_rel s b n"
    using that l(2) grows_ldr [OF g] order_trans [OF _ ack] by (simp add: leader_rel_def)
  moreover have "cand_rel s' b n" if "cand_rel s b n"
    using that l(1) v same(4) by (auto simp: cand_rel_def)
  ultimately show ?thesis using assms(1) by (simp add: node_rel_def same)
qed

lemma rv_rel_grows: "rv_rel M C s a p req \<Longrightarrow> local_step x s s' \<Longrightarrow> rv_rel M C s' a p req"
  unfolding rv_rel_def local_step_def by auto

lemma rvr_rel_grows: "rvr_rel M s a p t rep \<Longrightarrow> local_step x s s' \<Longrightarrow> rvr_rel M s' a p t rep"
  unfolding rvr_rel_def local_step_def by auto

lemma aer_rel_grows: "aer_rel M s a r rep \<Longrightarrow> local_step x s s' \<Longrightarrow> aer_rel M s' a r rep"
  unfolding aer_rel_def local_step_def grows_def by (auto intro: order_trans)

lemma commit_ok_grows:
  assumes "commit_ok N s t c" "grows s s'" "ldr s t \<noteq> None" "c \<le> length (llog s t)"
  shows "commit_ok N s' t c"
proof (cases "c = 0")
  case False
  with assms(1) obtain k t' where k: "committed (majority N) s k t'" "c \<le> k" "t' \<le> t"
    "take c (llog s t) = take c (llog s t')" by (auto simp: commit_ok_def)
  have "take c (llog s' t) = take c (llog s t)" by (rule grows_llog [OF assms(2-4)])
  moreover have "take c (llog s' t') = take c (llog s t')"
    using k by (intro grows_llog [OF assms(2)]) (auto simp: committed_def)
  ultimately show ?thesis using k grows_committed [OF assms(2) k(1)] unfolding commit_ok_def by metis
qed (simp add: commit_ok_def)

lemma ae_rel_grows:
  assumes "ae_rel M s a r" "local_step x s s'"
  shows "ae_rel M s' a r"
proof -
  define t where "t = aeTerm (oaReq r)"
  have g: "grows s s'" using assms(2) by (simp add: local_step_def)
  from assms(1) obtain m where m: "ldr s t = Some a" "m \<le> length (llog s t)"
    "aeEntries (oaReq r) = map pbOfEntry (drop (oaPrevIndex r) (take m (llog s t)))"
    "aePrevLogTerm (oaReq r) = (if 0 < oaPrevIndex r \<and> oaPrevIndex r \<le> m then Term (llog s t ! (oaPrevIndex r - 1)) else 0)"
    "aeLeaderCommit (oaReq r) \<le> m" "commit_ok (set M) s t (aeLeaderCommit (oaReq r))"
    by (auto simp: ae_rel_def Let_def t_def)
  have l: "ldr s t \<noteq> None" using m by simp
  have tk: "take m (llog s' t) = take m (llog s t)" by (rule grows_llog [OF g l m(2)])
  have len: "m \<le> length (llog s' t)" using grows_length [OF g l] m(2) by simp
  have nth: "llog s' t ! (oaPrevIndex r - 1) = llog s t ! (oaPrevIndex r - 1)" if "0 < oaPrevIndex r" "oaPrevIndex r \<le> m"
    by (rule take_eq_nth [OF tk]) (use that len in auto)
  have "commit_ok (set M) s' t (aeLeaderCommit (oaReq r))"
    by (rule commit_ok_grows [OF m(6) g l]) (use m(2,5) in simp)
  then show ?thesis using assms(1) m tk len nth grows_ldr [OF g m(1)]
    unfolding ae_rel_def Let_def t_def [symmetric] by (intro conjI exI [of _ m]) simp_all
qed

lemma el_rel_grows:
  assumes "el_rel M s c a t el" "local_step x s s'" "rvCalls c' \<subseteq> rvCalls c \<union> X" "rvReplies c' \<subseteq> rvReplies c \<union> Y"
    and "\<And>p req. (a, p, req) \<in> X \<Longrightarrow> rvTerm req \<noteq> t" "\<And>p rep. (a, p, t, rep) \<in> Y \<Longrightarrow> \<exists>req. (a, p, req) \<in> rvCalls c \<and> rvTerm req = t"
  shows "el_rel M s' c' a t el"
proof -
  from assms(1) obtain S where S: "S \<subseteq> set M - {a}" "elVotes el = 1 + card S"
    "\<forall>p \<in> S. avote s p t = Some a \<and> (\<forall>req. (a, p, req) \<in> rvCalls c \<longrightarrow> rvTerm req \<noteq> t) \<and> (\<forall>rep. (a, p, t, rep) \<notin> rvReplies c)"
    by (auto simp: el_rel_def)
  have "avote s' p t = Some a \<and> (\<forall>req. (a, p, req) \<in> rvCalls c' \<longrightarrow> rvTerm req \<noteq> t) \<and> (\<forall>rep. (a, p, t, rep) \<notin> rvReplies c')"
    if "p \<in> S" for p
  proof (intro conjI allI impI)
    show "avote s' p t = Some a" using S(3) that assms(2) by (auto simp: local_step_def)
    show "rvTerm req \<noteq> t" if "(a, p, req) \<in> rvCalls c'" for req using S(3) that assms(3,5) \<open>p \<in> S\<close> by blast
    show "(a, p, t, rep) \<notin> rvReplies c'" for rep using S(3) assms(4,6) that by blast
  qed
  moreover have "avote s' a t = Some a" using assms(1,2) by (auto simp: el_rel_def local_step_def)
  moreover have "elTerm el = t" "elQuorum el = quorumSize (length M)" using assms(1) by (simp_all add: el_rel_def)
  ultimately show ?thesis using S(1,2) unfolding el_rel_def by (intro conjI exI [of _ S] ballI) simp_all
qed

section \<open>Elections\<close>

definition base :: "addr list \<Rightarrow> (addr \<Rightarrow> Config) \<Rightarrow> astate \<Rightarrow> bool" where
  "base M C s \<longleftrightarrow> cluster_ok M C \<and> areach (majority (set M)) s \<and> llogs_ok s \<and> voters_ok M s"

lemma last_log:
  assumes "logOffset n = 0"
  shows "lastLogIndexLocked n = length (log n)" "lastLogTermLocked n = lastTerm (log n)"
  using assms by (auto simp: lastLogIndexLocked_def lastLogTermLocked_def lastTerm_def last_conv_nth)

lemma up_to_date_code:
  "isLogAtLeastAsUpToDate (lastTerm cand) (length cand) (lastTerm voter) (length voter) = up_to_date cand voter"
  by (auto simp: up_to_date_iff up_to_date_def)

lemma vote_text_None: "cluster_ok M C \<Longrightarrow> voters_ok M s \<Longrightarrow> vote_text C (avote s a t) = '''' \<longleftrightarrow> avote s a t = None"
  by (auto simp: vote_text_def cluster_ok_def voters_ok_def split: option.split)

lemma vote_text_Some:
  assumes "cluster_ok M C" "voters_ok M s" "c \<in> set M"
  shows "vote_text C (avote s a t) = cfgID (C c) \<longleftrightarrow> avote s a t = Some c"
proof (cases "avote s a t")
  case None
  then show ?thesis using assms by (auto simp: vote_text_def cluster_ok_def)
next
  case (Some b)
  then have "b \<in> set M" using assms(2) by (auto simp: voters_ok_def)
  then show ?thesis using Some assms by (auto simp: vote_text_def cluster_ok_def dest: inj_onD)
qed

lemma leader_voted: "areach (majority N) s \<Longrightarrow> ldr s t = Some a \<Longrightarrow> avote s a t = Some a"
  using arun_inv [of N s] by (auto simp: raft_inv_def leaders_inv_def)

lemma node_relD:
  assumes "node_rel C s a n"
  shows "nid n = cfgID (C a)" "address n = a" "peers n = cfgPeers (C a)" "logOffset n = 0"
    "stored (dir n) (log n)" "positional 0 (log n)" "LoadState NoFault (dir n) = Inr (currentTerm n, votedFor n)"
    "aterm s a = currentTerm n" "alog s a = log n" "acommit s a = commitIndex n"
    "votedFor n = vote_text C (avote s a (currentTerm n))"
    "lastApplied n = commitIndex n" "smOps n = map applyOp (take (commitIndex n) (log n))"
    "role n = Leader \<Longrightarrow> leader_rel s a n" "role n = Candidate \<Longrightarrow> cand_rel s a n"
  using assms by (simp_all add: node_rel_def)

lemma LoadState_saved [simp]: "LoadState NoFault (d\<lparr>stateJson := SavedState t v\<rparr>) = Inr (t, v)"
  by (simp add: LoadState_def)

lemma sim_observe:
  assumes b: "base M C s" and n: "node_rel C s a n" and ev: "healthy ev" and t: "currentTerm n < t"
  shows "\<exists>s'. arun (set M) a s s' \<and> base M C s' \<and> node_rel C s' a (snd (snd (observeTermLocked ev t n))) \<and>
    ack s' = ack s \<and> alog s' = alog s \<and> fst (snd (observeTermLocked ev t n)) = None \<and>
    currentTerm (snd (snd (observeTermLocked ev t n))) = t \<and> role (snd (snd (observeTermLocked ev t n))) = Follower"
proof -
  let ?s = "s\<lparr>aterm := (aterm s)(a := t)\<rparr>"
  have r: "areach (majority (set M)) s" using b by (simp add: base_def)
  have run: "arun (set M) a s ?s" using run_NewTerm [OF r] t node_relD(8) [OF n] by simp
  have "avote s a t = None"
    using votes_past [OF r, of a t] t node_relD(8) [OF n] by (cases "avote s a t") auto
  then have "node_rel C ?s a (snd (snd (observeTermLocked ev t n)))"
    using n by (simp add: observe_healthy [OF ev t] node_rel_def vote_text_def)
  moreover have "base M C ?s" using b arun_reach [OF run r] by (simp add: base_def llogs_ok_def voters_ok_def)
  ultimately show ?thesis using run by (intro exI [of _ ?s]) (simp add: observe_healthy [OF ev t])
qed

lemma rel_deadline [simp]:
  "leader_rel s a (resetElectionDeadlineLocked ev n) = leader_rel s a n"
  "cand_rel s a (resetElectionDeadlineLocked ev n) = cand_rel s a n"
  by (simp_all add: leader_rel_def cand_rel_def)

lemma leader_rel_frame:
  assumes "leader_rel s a n" "ldr s' = ldr s" "llog s' = llog s" "ack s' = ack s"
    "currentTerm n' = currentTerm n" "log n' = log n" "matchIndex n' = matchIndex n" "peers n' = peers n"
  shows "leader_rel s' a n'"
  using assms by (simp add: leader_rel_def)

lemma cand_rel_frame:
  assumes "cand_rel s a n" "ldr s' = ldr s" "avote s' = avote s" "vlog s' = vlog s"
    "currentTerm n' = currentTerm n" "log n' = log n"
  shows "cand_rel s' a n'"
  using assms by (simp add: cand_rel_def)

lemma node_rel_deadline: "node_rel C s a n \<Longrightarrow> node_rel C s a (resetElectionDeadlineLocked ev n)"
  by (simp add: node_rel_def)

lemma sim_grant:
  assumes b: "base M C s" and n: "node_rel C s a n" and ev: "healthy ev" and rv: "rv_rel M C s c a req"
    and t: "rvTerm req \<le> currentTerm n" and h: "grantVote ev req n = (Inr reply, n')"
  shows "\<exists>s'. arun (set M) a s s' \<and> base M C s' \<and> node_rel C s' a n' \<and> rvr_rel M s' c a (rvTerm req) reply"
proof (cases "rvrVoteGranted reply")
  case False
  then have "n' = n" using h by (auto simp: grantVote_healthy [OF ev] split: if_splits)
  then show ?thesis using b n rv False
    by (intro exI [of _ s]) (auto simp: arun_refl rvr_rel_def rv_rel_def)
next
  case True
  have g: "currentTerm n = rvTerm req" "votedFor n = '''' \<or> votedFor n = cfgID (C c)"
    "up_to_date (vlog s c (rvTerm req)) (log n)"
    "n' = resetElectionDeadlineLocked ev (n\<lparr>votedFor := cfgID (C c),
        dir := (dir n)\<lparr>stateJson := SavedState (currentTerm n) (cfgID (C c))\<rparr>\<rparr>)"
    using h True t rv by (auto simp: grantVote_healthy [OF ev] rv_rel_def last_log [OF node_relD(4) [OF n]]
        up_to_date_code split: if_splits)
  let ?t = "rvTerm req"
  have r: "areach (majority (set M)) s" and ok: "cluster_ok M C" "voters_ok M s" using b by (auto simp: base_def)
  have c: "c \<in> set M" "avote s c ?t = Some c" using rv by (auto simp: rv_rel_def)
  have vt: "votedFor n = vote_text C (avote s a ?t)" using node_relD(11) [OF n] g(1) by simp
  show ?thesis
  proof (cases "avote s a ?t = None")
    case False
    then have v: "avote s a ?t = Some c"
      using g(2) vt vote_text_None [OF ok] vote_text_Some [OF ok c(1)] by auto
    then have "node_rel C s a n'"
      unfolding g(4) using n vt v g(1)
      by (intro node_rel_deadline) (auto simp: node_rel_def leader_rel_def cand_rel_def vote_text_def)
    then show ?thesis using b v c rv by (intro exI [of _ s]) (auto simp: arun_refl rvr_rel_def rv_rel_def)
  next
    case None: True
    let ?s = "s\<lparr>avote := (avote s)(a := (avote s a)(?t := Some c)), vlog := (vlog s)(a := (vlog s a)(?t := alog s a))\<rparr>"
    have run: "arun (set M) a s ?s"
      by (rule run_Vote [OF r]) (use None c g node_relD(8,9) [OF n] in auto)
    have "role n \<noteq> Leader" using node_relD(14) [OF n] leader_voted [OF r] None g(1) by (auto simp: leader_rel_def)
    moreover have "role n \<noteq> Candidate" using node_relD(15) [OF n] None g(1) by (auto simp: cand_rel_def)
    ultimately have "node_rel C ?s a n'" unfolding g(4)
      using n g(1) by (intro node_rel_deadline) (simp add: node_rel_def vote_text_def)
    moreover have "base M C ?s" using b c arun_reach [OF run r] by (auto simp: base_def llogs_ok_def voters_ok_def)
    moreover have "rvr_rel M ?s c a ?t reply" using rv c by (auto simp: rvr_rel_def rv_rel_def)
    ultimately show ?thesis using run by blast
  qed
qed

lemma sim_vote:
  assumes b: "base M C s" and n: "node_rel C s a n" and ev: "healthy ev" and rv: "rv_rel M C s c a req"
    and h: "RequestVote ev req n = (Inr reply, n')"
  shows "\<exists>s'. arun (set M) a s s' \<and> base M C s' \<and> node_rel C s' a n' \<and> rvr_rel M s' c a (rvTerm req) reply"
proof (cases "currentTerm n < rvTerm req")
  case True
  let ?n = "snd (snd (observeTermLocked ev (rvTerm req) n))"
  obtain s1 where s1: "arun (set M) a s s1" "base M C s1" "node_rel C s1 a ?n"
    "fst (snd (observeTermLocked ev (rvTerm req) n)) = None" "currentTerm ?n = rvTerm req"
    using sim_observe [OF b n ev True] by blast
  have h1: "grantVote ev req ?n = (Inr reply, n')"
    using h True s1(4) by (cases "observeTermLocked ev (rvTerm req) n") (auto simp: RequestVote_def)
  have "rv_rel M C s1 c a req" using rv_rel_grows [OF rv] s1(1) by (auto simp: arun_def)
  from sim_grant [OF s1(2,3) ev this _ h1] s1(5) show ?thesis using arun_trans [OF s1(1)] by (metis order_refl)
next
  case False
  then show ?thesis using sim_grant [OF b n ev rv] h by (simp add: RequestVote_def)
qed

lemma startElection_healthy:
  assumes "healthy ev" "startElection ev n = (Some el, n')" "currentTerm n + 1 < 2 ^ 64" "logOffset n = 0"
  shows "role n \<noteq> Leader"
    and "n' = resetElectionDeadlineLocked ev ((setRoleLocked Candidate n)\<lparr>currentTerm := currentTerm n + 1, votedFor := nid n,
       dir := (dir n)\<lparr>stateJson := SavedState (currentTerm n + 1) (nid n)\<rparr>\<rparr>)"
    and "el = \<lparr>elTerm = currentTerm n + 1,
       elReq = \<lparr>rvTerm = currentTerm n + 1, rvCandidateId = nid n, rvLastLogIndex = length (log n), rvLastLogTerm = lastTerm (log n)\<rparr>,
       elQuorum = quorumSize (length (peers n) + 1), elVotes = 1\<rparr>"
  using assms by (auto simp: startElection_def Let_def healthyD persistStateLocked_ok last_log split: if_splits)

lemma peers_members:
  assumes "cluster_ok M C" "a \<in> set M" "peers n = cfgPeers (C a)"
  shows "distinct (peers n)" "set (peers n) = set M - {a}" "length (peers n) + 1 = length M"
proof -
  have p: "peers n = filter (\<lambda>b. b \<noteq> a) M" "distinct M" using assms by (auto simp: cluster_ok_def)
  then show "distinct (peers n)" "set (peers n) = set M - {a}" by auto
  then have "set M = insert a (set (peers n))" "a \<notin> set (peers n)" using assms(2) by auto
  then show "length (peers n) + 1 = length M"
    using p(2) \<open>distinct (peers n)\<close> by (metis Suc_eq_plus1 card_insert_disjoint distinct_card finite_set)
qed

lemma sim_stand:
  assumes b: "base M C s" and n: "node_rel C s a n" and ev: "healthy ev" and a: "a \<in> set M"
    and t: "currentTerm n + 1 < 2 ^ 64" and h: "startElection ev n = (Some el, n')"
  shows "\<exists>s'. arun (set M) a s s' \<and> base M C s' \<and> node_rel C s' a n' \<and> avote s a (elTerm el) = None \<and>
    avote s' a (elTerm el) = Some a \<and> elQuorum el = quorumSize (length M) \<and> elVotes el = 1 \<and>
    rvTerm (elReq el) = elTerm el \<and> (\<forall>p \<in> set M - {a}. rv_rel M C s' a p (elReq el))"
proof -
  note e = startElection_healthy [OF ev h t node_relD(4) [OF n]]
  let ?t = "currentTerm n + 1"
  let ?s = "s\<lparr>aterm := (aterm s)(a := ?t), avote := (avote s)(a := (avote s a)(?t := Some a)),
     vlog := (vlog s)(a := (vlog s a)(?t := alog s a))\<rparr>"
  have r: "areach (majority (set M)) s" and ok: "cluster_ok M C" using b by (auto simp: base_def)
  have new: "avote s a ?t = None"
    using votes_past [OF r, of a ?t] node_relD(8) [OF n] by (cases "avote s a ?t") auto
  have nl: "ldr s ?t \<noteq> Some a" using leader_voted [OF r] new by force
  have run: "arun (set M) a s ?s" by (rule run_Stand [OF r]) (simp add: node_relD(8) [OF n])
  have len: "length (peers n) + 1 = length M" by (rule peers_members(3) [OF ok a node_relD(3) [OF n]])
  have "node_rel C ?s a n'"
    using n nl node_relD(1,9) [OF n] by (simp add: e node_rel_def vote_text_def cand_rel_def)
  moreover have "base M C ?s" using b a arun_reach [OF run r] by (auto simp: base_def llogs_ok_def voters_ok_def)
  moreover have "\<forall>p \<in> set M - {a}. rv_rel M C ?s a p (elReq el)"
    using a node_relD(1,9) [OF n] by (simp add: e rv_rel_def)
  ultimately show ?thesis using run new len by (intro exI [of _ ?s]) (simp add: e)
qed

lemma fold_gm_set:
  "gm_wf m \<Longrightarrow> gm_wf (fold (\<lambda>p m. gm_set p (v p) m) ps m)"
  "fst ` set (fold (\<lambda>p m. gm_set p (v p) m) ps m) = set ps \<union> fst ` set m"
  "map_of (fold (\<lambda>p m. gm_set p (v p) m) ps m) p = (if p \<in> set ps then Some (v p) else map_of m p)"
  by (induction ps arbitrary: m) auto

lemma majority_of_votes:
  assumes "cluster_ok M C" "a \<in> set M" "S \<subseteq> set M - {a}" "quorumSize (length M) \<le> 1 + card S"
  shows "majority (set M) (insert a S)"
proof -
  have "distinct M" using assms(1) by (simp add: cluster_ok_def)
  have "card (insert a S) = 1 + card S"
    using assms(3) finite_subset [OF assms(3)] by (subst card_insert_disjoint) auto
  then show ?thesis using assms by (auto simp: majority_def quorumSize_def distinct_card [OF \<open>distinct M\<close>])
qed

lemma sim_become_leader:
  assumes b: "base M C s" and n: "node_rel C s a n" and a: "a \<in> set M" and role: "role n = Candidate"
    and S: "S \<subseteq> set M - {a}" "quorumSize (length M) \<le> 1 + card S" "\<forall>p \<in> S. avote s p (currentTerm n) = Some a"
  shows "\<exists>s'. arun (set M) a s s' \<and> base M C s' \<and> node_rel C s' a (becomeLeaderLocked n)"
proof -
  let ?t = "currentTerm n"
  let ?s = "s\<lparr>ldr := (ldr s)(?t := Some a), elq := (elq s)(?t := insert a S), llog := (llog s)(?t := alog s a),
     ack := (ack s)(a := (ack s a)(?t := length (alog s a)))\<rparr>"
  have r: "areach (majority (set M)) s" and ok: "cluster_ok M C" using b by (auto simp: base_def)
  have c: "ldr s ?t \<noteq> Some a" "avote s a ?t = Some a" "vlog s a ?t = log n"
    using node_relD(15) [OF n role] by (auto simp: cand_rel_def)
  have run: "arun (set M) a s ?s"
    by (rule run_Elect [OF r]) (use c S majority_of_votes [OF ok a S(1,2)] node_relD(8,9) [OF n] in auto)
  let ?mi = "fold (\<lambda>p m. gm_set p (0 :: nat) m) (peers n) []"
  have wf: "distinct (map fst ?mi)" using fold_gm_set(1) [of "[]" "\<lambda>_. 0 :: nat" "peers n"] by (simp add: gm_wf_def)
  have mem: "p \<in> set (peers n) \<and> m = 0" if "(p, m) \<in> set ?mi" for p m
    using fold_gm_set(3) [of "\<lambda>_. 0 :: nat" "peers n" "[]" p] map_of_is_SomeI [OF wf that] by (simp split: if_splits)
  have "leader_rel ?s a (becomeLeaderLocked n)"
    using role wf mem node_relD(9) [OF n] by (auto simp: leader_rel_def becomeLeaderLocked_def Let_def)
  then have "node_rel C ?s a (becomeLeaderLocked n)"
    using n role by (simp add: node_rel_def becomeLeaderLocked_def Let_def)
  moreover have "positional 0 (log n)" "\<forall>e \<in> set (log n). entry_ok e"
    using node_relD(5,6) [OF n] by (auto simp: stored_def)
  then have "base M C ?s" using b arun_reach [OF run r] node_relD(9) [OF n] by (auto simp: base_def llogs_ok_def voters_ok_def)
  ultimately show ?thesis using run by blast
qed

lemma becomeLeader_other: "role n \<noteq> Candidate \<Longrightarrow> becomeLeaderLocked n = n"
  by (simp add: becomeLeaderLocked_def)

section \<open>Replication\<close>

definition adopt :: "LogEntry list \<Rightarrow> LogEntry list \<Rightarrow> LogEntry list" where
  "adopt own pre = (if take (length pre) own = pre then own else pre)"

lemma adopts_adopt: "k \<le> length l \<Longrightarrow> adopts own k l (adopt own (take k l))"
proof -
  assume k: "k \<le> length l"
  have "j \<le> k" if "take k own \<noteq> take k l" "take j own = take j l" for j
    using that take_eq_mono [OF that(2), of k] by (meson nat_le_linear)
  then show ?thesis using k by (cases "take k own = take k l") (simp_all add: adopts_def adopt_def min_absorb2)
qed

lemma mergeAt_adopt:
  assumes "\<And>i. i < length xs \<Longrightarrow> i < length ys \<Longrightarrow> Term (xs ! i) = Term (ys ! i) \<Longrightarrow> xs ! i = ys ! i"
  shows "mergeAt xs (map pbOfEntry ys) = adopt xs ys"
  using assms
proof (induction ys arbitrary: xs)
  case Nil
  then show ?case by (cases xs) (simp_all add: adopt_def)
next
  case (Cons y ys)
  show ?case
  proof (cases xs)
    case Nil
    then show ?thesis by (simp add: adopt_def)
  next
    case (Cons x xs')
    have IH: "mergeAt xs' (map pbOfEntry ys) = adopt xs' ys"
      by (rule Cons.IH) (use Cons.prems [of "Suc _"] Cons in simp)
    then show ?thesis using Cons.prems [of 0] Cons by (auto simp: adopt_def)
  qed
qed

text \<open>Sending the end of a log and comparing term by term is adopting the whole prefix.\<close>

lemma mergeLog_adopt:
  assumes "take p lg = take p l" "p \<le> length lg" "p \<le> m" "m \<le> length l"
    and match: "\<And>i. i < length lg \<Longrightarrow> i < length l \<Longrightarrow> Term (lg ! i) = Term (l ! i) \<Longrightarrow> lg ! i = l ! i"
  shows "mergeLog p lg (map pbOfEntry (drop p (take m l))) = adopt lg (take m l)"
proof -
  have "mergeAt (drop p lg) (map pbOfEntry (drop p (take m l))) = adopt (drop p lg) (drop p (take m l))"
    using assms(2-4) match by (intro mergeAt_adopt) auto
  moreover have "take m lg = take m l \<longleftrightarrow> take (m - p) (drop p lg) = drop p (take m l)"
    using assms(1,3) by (metis append_take_drop_id drop_take take_add le_add_diff_inverse)
  moreover have "take p l @ drop p (take m l) = take m l"
    using append_take_drop_id [of p "take m l"] assms(3) by (simp add: min_absorb1)
  moreover have "take p l @ drop p lg = lg" using assms(1) by (metis append_take_drop_id)
  ultimately show ?thesis using assms(1,3,4) unfolding mergeLog_def adopt_def
    by (auto simp: min_absorb1 min_absorb2)
qed

lemma logs_match:
  assumes "areach (majority N) s" "ldr s t \<noteq> None" "i < length (alog s a)" "i < length (llog s t)"
    "Term (alog s a ! i) = Term (llog s t ! i)"
  shows "take (Suc i) (alog s a) = take (Suc i) (llog s t)"
  using arun_inv [OF assms(1)] assms(2-) by (intro valid_matching [of s]) (auto simp: raft_inv_def logs_inv_def)

lemma alog_terms_pos:
  assumes "areach (majority N) s" "i < length (alog s a)"
  shows "0 < Term (alog s a ! i)"
  using arun_inv [OF assms(1)] assms(2) by (auto simp: raft_inv_def logs_inv_def valid_log_def)

lemma committed_kept:
  assumes "areach (majority N) s" "arun N a s s'" "j \<le> acommit s a" "acommit s' a = acommit s a"
  shows "take j (alog s' a) = take j (alog s a)"
  using maj.machine_safety [OF arun_inv [OF assms(1)], of s' j a a] assms(2-4) by (simp add: arun_def)

lemma commit_within:
  assumes "areach (majority N) s"
  shows "acommit s a \<le> length (alog s a)"
  using arun_inv [OF assms] by (auto simp: raft_inv_def commit_inv_def may_commit_def)

text \<open>Committing further: the abstract step, then the loop over the new entries.\<close>

lemma sim_commit:
  assumes b: "base M C s" and n: "node_rel C s a n" and k: "commitIndex n \<le> k" "may_commit (majority (set M)) s a k"
  shows "\<exists>s'. arun (set M) a s s' \<and> base M C s' \<and> node_rel C s' a (applyCommittedLocked (n\<lparr>commitIndex := k\<rparr>)) \<and> ack s' = ack s"
proof -
  let ?s = "s\<lparr>acommit := (acommit s)(a := k)\<rparr>"
  have r: "areach (majority (set M)) s" using b by (simp add: base_def)
  have run: "arun (set M) a s ?s" by (rule run_Commit [OF r k(2)])
  have len: "k \<le> length (log n)" using k(2) node_relD(9) [OF n] by (auto simp: may_commit_def)
  let ?n = "n\<lparr>commitIndex := k\<rparr>"
  have "lastApplied ?n \<le> commitIndex ?n" "logOffset ?n \<le> lastApplied ?n" "commitIndex ?n \<le> lastLogIndexLocked ?n"
    using node_relD(4,12) [OF n] k(1) len by (auto simp: lastLogIndexLocked_def)
  from applyCommitted_spec [OF this(2,1,3)] obtain ws cs w where ap:
    "applyCommittedLocked ?n = ?n\<lparr>lastApplied := k, waiters := ws, chans := cs, wakeups := w,
       smOps := smOps n @ map applyOp (drop (commitIndex n) (take k (log n)))\<rparr>"
    using node_relD(4,12) [OF n] by auto
  have "take (commitIndex n) (log n) @ drop (commitIndex n) (take k (log n)) = take k (log n)"
    using k(1) by (metis append_take_drop_id min.absorb1 take_take)
  then have "smOps n @ map applyOp (drop (commitIndex n) (take k (log n))) = map applyOp (take k (log n))"
    using node_relD(13) [OF n] by (metis map_append)
  moreover have "role n = Leader \<Longrightarrow> leader_rel ?s a (applyCommittedLocked ?n)"
    "role n = Candidate \<Longrightarrow> cand_rel ?s a (applyCommittedLocked ?n)"
    using leader_rel_frame [OF node_relD(14) [OF n]] cand_rel_frame [OF node_relD(15) [OF n]] by (simp_all add: ap)
  ultimately have "node_rel C ?s a (applyCommittedLocked ?n)"
    using n by (simp add: node_rel_def ap)
  moreover have "base M C ?s" using b arun_reach [OF run r] by (simp add: base_def llogs_ok_def voters_ok_def)
  ultimately show ?thesis using run by (intro exI [of _ ?s]) simp
qed

lemma positional_take: "positional off lg \<Longrightarrow> positional off (take k lg)"
  by (simp add: positional_def)

lemma positional_adopt: "positional 0 xs \<Longrightarrow> positional 0 ys \<Longrightarrow> positional 0 (adopt xs ys)"
  by (simp add: adopt_def)

lemma entry_match:
  assumes "areach (majority N) s" "ldr s t \<noteq> None" "i < length (alog s a)" "i < length (llog s t)"
    "Term (alog s a ! i) = Term (llog s t ! i)"
  shows "alog s a ! i = llog s t ! i"
  by (rule take_eq_nth [OF logs_match [OF assms]]) (simp_all add: assms)

text \<open>The consistency check of \<open>AppendEntries\<close> implies that the logs agree up to the previous entry.\<close>

lemma check_consistent:
  assumes r: "areach (majority N) s" and l: "ldr s t \<noteq> None" "m \<le> length (llog s t)"
    and prev: "pt = (if 0 < p \<and> p \<le> m then Term (llog s t ! (p - 1)) else 0)"
    and check: "p = 0 \<or> p \<le> length (alog s a) \<and> Term (alog s a ! (p - 1)) = pt"
  shows "p \<le> m \<and> p \<le> length (alog s a) \<and> take p (alog s a) = take p (llog s t)"
proof (cases "p = 0")
  case False
  then have c: "p - 1 < length (alog s a)" "Term (alog s a ! (p - 1)) = pt" using check by auto
  have "0 < pt" using alog_terms_pos [OF r c(1)] c(2) by simp
  then have pm: "p \<le> m" "Term (alog s a ! (p - 1)) = Term (llog s t ! (p - 1))"
    using prev c(2) by (auto split: if_splits)
  have "take (Suc (p - 1)) (alog s a) = take (Suc (p - 1)) (llog s t)"
    by (rule logs_match [OF r l(1) c(1) _ pm(2)]) (use pm(1) l(2) False in simp)
  then show ?thesis using False pm c by simp
qed simp

lemma merged_adopt:
  assumes off: "logOffset n = 0" and l: "m \<le> length l"
    and p: "p \<le> m" "p \<le> length (log n)" "take p (log n) = take p l"
    and match: "\<And>i. i < length (log n) \<Longrightarrow> i < length l \<Longrightarrow> Term (log n ! i) = Term (l ! i) \<Longrightarrow> log n ! i = l ! i"
    and es: "es = map pbOfEntry (drop p (take m l))"
  shows "mergedLog n p es = adopt (log n) (take m l)"
  unfolding mergedLog_def off es by (simp, rule mergeLog_adopt [OF p(3,2,1) l], rule match)

lemma merge_adopts:
  assumes ev: "healthy ev" and st: "stored (dir n) (log n)" "positional 0 (log n)" "logOffset n = 0"
    and l: "m \<le> length l" "\<forall>e \<in> set l. entry_ok e"
    and p: "p \<le> m" "p \<le> length (log n)" "take p (log n) = take p l"
    and match: "\<And>i. i < length (log n) \<Longrightarrow> i < length l \<Longrightarrow> Term (log n ! i) = Term (l ! i) \<Longrightarrow> log n ! i = l ! i"
    and es: "es = map pbOfEntry (drop p (take m l))"
  shows "\<exists>d. (if es = [] then (None, n) else mergeEntriesLocked ev p es n) = (None, n\<lparr>dir := d, log := adopt (log n) (take m l)\<rparr>) \<and>
    stored d (adopt (log n) (take m l)) \<and> stateJson d = stateJson (dir n)"
proof -
  have merged: "mergedLog n p es = adopt (log n) (take m l)"
    by (rule merged_adopt [OF st(3) l(1) p match es])
  show ?thesis
  proof (cases "es = []")
    case True
    then have "adopt (log n) (take m l) = log n" using merged by (simp add: mergedLog_def mergeLog_def)
    then show ?thesis using True st by (intro exI [of _ "dir n"]) simp
  next
    case False
    have "\<forall>e \<in> set es. entry_ok (entryOfPb e)"
      using l(2) by (auto simp: es dest: in_set_dropD in_set_takeD)
    with merge_spec [OF ev st(1), of p es] st p False show ?thesis
      by (auto simp: lastLogIndexLocked_def merged)
  qed
qed

definition appendFacts :: "addr list \<Rightarrow> astate \<Rightarrow> outgoingAppendEntries \<Rightarrow> nat \<Rightarrow> bool" where
  "appendFacts M s r m \<longleftrightarrow> (let t = aeTerm (oaReq r) in
     ldr s t \<noteq> None \<and> m \<le> length (llog s t) \<and>
     aeEntries (oaReq r) = map pbOfEntry (drop (oaPrevIndex r) (take m (llog s t))) \<and>
     aePrevLogTerm (oaReq r) = (if 0 < oaPrevIndex r \<and> oaPrevIndex r \<le> m then Term (llog s t ! (oaPrevIndex r - 1)) else 0) \<and>
     aeLeaderCommit (oaReq r) \<le> m \<and> commit_ok (set M) s t (aeLeaderCommit (oaReq r)) \<and>
     aePrevLogIndex (oaReq r) = oaPrevIndex r \<and> oaNumEntries r = length (aeEntries (oaReq r)))"

lemma ae_facts: "ae_rel M s c r \<Longrightarrow> \<exists>m. appendFacts M s r m"
  unfolding ae_rel_def appendFacts_def Let_def by blast

text \<open>A request that passes the checks: adopt the prefix it stands for.\<close>

lemma sim_adopt:
  assumes b: "base M C s" and n: "node_rel C s a n" and role: "role n = Follower" and ev: "healthy ev"
    and m: "appendFacts M s r m" and t: "aeTerm (oaReq r) = currentTerm n"
    and check: "oaPrevIndex r = 0 \<or> oaPrevIndex r \<le> length (log n) \<and>
      Term (log n ! (oaPrevIndex r - 1)) = aePrevLogTerm (oaReq r)"
  shows "\<exists>s' d lg. (if aeEntries (oaReq r) = [] then (None, n) else mergeEntriesLocked ev (oaPrevIndex r) (aeEntries (oaReq r)) n)
      = (None, n\<lparr>dir := d, log := lg\<rparr>) \<and>
    arun (set M) a s s' \<and> base M C s' \<and> node_rel C s' a (n\<lparr>dir := d, log := lg\<rparr>) \<and>
    oaPrevIndex r + oaNumEntries r = m \<and> m \<le> ack s' a (currentTerm n) \<and>
    m \<le> length lg \<and> take m lg = take m (llog s' (currentTerm n)) \<and> llog s' = llog s"
proof -
  let ?t = "currentTerm n" and ?L = "llog s (currentTerm n)"
  let ?lg = "adopt (log n) (take m ?L)"
  have r: "areach (majority (set M)) s" and lok: "llogs_ok s" using b by (auto simp: base_def)
  have lg: "alog s a = log n" by (rule node_relD(9) [OF n])
  have m': "ldr s ?t \<noteq> None" "m \<le> length ?L" "aeEntries (oaReq r) = map pbOfEntry (drop (oaPrevIndex r) (take m ?L))"
    "aePrevLogTerm (oaReq r) = (if 0 < oaPrevIndex r \<and> oaPrevIndex r \<le> m then Term (?L ! (oaPrevIndex r - 1)) else 0)"
    "oaNumEntries r = length (aeEntries (oaReq r))"
    using m unfolding appendFacts_def Let_def t by blast+
  have p: "oaPrevIndex r \<le> m" "oaPrevIndex r \<le> length (log n)" "take (oaPrevIndex r) (log n) = take (oaPrevIndex r) ?L"
    using check_consistent [OF r m'(1,2,4), of a] check lg by simp_all
  have Lok: "positional 0 ?L" "\<forall>e \<in> set ?L. entry_ok e" using lok m'(1) by (auto simp: llogs_ok_def)
  obtain d where d: "(if aeEntries (oaReq r) = [] then (None, n) else mergeEntriesLocked ev (oaPrevIndex r) (aeEntries (oaReq r)) n)
      = (None, n\<lparr>dir := d, log := ?lg\<rparr>)" "stored d ?lg" "stateJson d = stateJson (dir n)"
    using merge_adopts [OF ev node_relD(5,6,4) [OF n] m'(2) Lok(2) p entry_match [OF r m'(1), of _ a, unfolded lg] m'(3)]
    by blast
  let ?s = "s\<lparr>alog := (alog s)(a := ?lg), ack := (ack s)(a := (ack s a)(?t := max (ack s a ?t) m))\<rparr>"
  have run: "arun (set M) a s ?s"
    by (rule run_Adopt [OF r])
      (simp_all add: node_relD(8) [OF n] m'(1,2) lg adopts_adopt [OF m'(2)] del: not_None_eq)
  have "take (commitIndex n) ?lg = take (commitIndex n) (log n)"
    using committed_kept [OF r run, of "commitIndex n"] node_relD(9,10) [OF n] by simp
  moreover have "LoadState NoFault d = LoadState NoFault (dir n)" using d(3) by (simp add: LoadState_def)
  moreover have "positional 0 ?lg" by (rule positional_adopt [OF node_relD(6) [OF n] positional_take [OF Lok(1)]])
  ultimately have "node_rel C ?s a (n\<lparr>dir := d, log := ?lg\<rparr>)" using n role d(2) by (simp add: node_rel_def)
  moreover have "base M C ?s" using b arun_reach [OF run r] by (simp add: base_def llogs_ok_def voters_ok_def)
  moreover have tk: "take m ?lg = take m ?L" using adopts_take [OF adopts_adopt [OF m'(2)]] by blast
  moreover have "m \<le> length ?lg" by (rule take_eq_length [OF tk [symmetric] m'(2)])
  moreover have "oaPrevIndex r + oaNumEntries r = m" using m'(2,3,5) p(1) by simp
  ultimately show ?thesis using d(1) run
    by (intro exI [of _ ?s] exI [of _ d] exI [of _ ?lg]) simp
qed

lemma setRole_id [simp]: "role n = r \<Longrightarrow> setRoleLocked r n = n"
  by (cases n) (auto simp: setRoleLocked_def)

lemma sim_accept:
  assumes b: "base M C s" and n: "node_rel C s a n" and role: "role n = Follower" and ev: "healthy ev"
    and ae: "ae_rel M s c r" and t: "aeTerm (oaReq r) = currentTerm n" and a: "oaPeer r = a"
    and check: "oaPrevIndex r = 0 \<or> oaPrevIndex r \<le> length (log n) \<and>
      Term (log n ! (oaPrevIndex r - 1)) = aePrevLogTerm (oaReq r)"
    and h: "acceptAppend ev (oaReq r) n = (Inr reply, n')"
  shows "\<exists>s'. arun (set M) a s s' \<and> base M C s' \<and> node_rel C s' a n' \<and> aer_rel M s' c r reply"
proof -
  define n1 where "n1 = n\<lparr>lastAppendEntriesAt := Some (now ev)\<rparr>"
  define lc where "lc = aeLeaderCommit (oaReq r)"
  have f1: "role n1 = Follower" "currentTerm n1 = currentTerm n" "log n1 = log n" "commitIndex n1 = commitIndex n"
    "logOffset n1 = 0" using role node_relD(4) [OF n] by (simp_all add: n1_def)
  have n1: "node_rel C s a n1" using n role by (simp add: node_rel_def n1_def)
  obtain m where m: "appendFacts M s r m" using ae_facts [OF ae] by blast
  obtain s2 d lg where s2: "(if aeEntries (oaReq r) = [] then (None, n1) else mergeEntriesLocked ev (oaPrevIndex r) (aeEntries (oaReq r)) n1)
      = (None, n1\<lparr>dir := d, log := lg\<rparr>)"
    "arun (set M) a s s2" "base M C s2" "node_rel C s2 a (n1\<lparr>dir := d, log := lg\<rparr>)"
    "oaPrevIndex r + oaNumEntries r = m" "m \<le> ack s2 a (currentTerm n)"
    "m \<le> length lg" "take m lg = take m (llog s2 (currentTerm n))" "llog s2 = llog s"
    using sim_adopt [OF b n1 f1(1) ev m] t check f1 by auto
  let ?n2 = "n1\<lparr>dir := d, log := lg\<rparr>"
  have mm: "ldr s (currentTerm n) \<noteq> None" "m \<le> length (llog s (currentTerm n))" "lc \<le> m"
    "commit_ok (set M) s (currentTerm n) lc" "aePrevLogIndex (oaReq r) = oaPrevIndex r"
    using m unfolding appendFacts_def Let_def t lc_def by blast+
  have aer: "aer_rel M s' c r reply" if "ack s' = ack s2" for s'
    using ae s2(5,6) that by (simp add: aer_rel_def ae_rel_def a t)
  have n': "n' = (if commitIndex ?n2 < lc then applyCommittedLocked (?n2\<lparr>commitIndex := min64 lc (lastLogIndexLocked ?n2)\<rparr>) else ?n2)"
    using h unfolding acceptAppend_def Let_def n1_def [symmetric] mm(5) s2(1) lc_def by auto
  show ?thesis
  proof (cases "commitIndex n < lc")
    case False
    then have "n' = ?n2" using n' f1(4) by simp
    then show ?thesis using s2(2-4) aer by blast
  next
    case True
    have eqn: "n' = applyCommittedLocked (?n2\<lparr>commitIndex := lc\<rparr>)"
      using n' True mm(3) f1 s2(7) by (simp add: min64_min lastLogIndexLocked_def min_absorb1)
    have "commit_ok (set M) s2 (currentTerm n) lc"
      using commit_ok_grows [OF mm(4) _ mm(1)] s2(2) mm(2,3) by (simp add: arun_def local_step_def)
    then have "may_commit (majority (set M)) s2 a lc"
      using s2(7) mm(3) take_eq_mono [OF s2(8) mm(3)] node_relD(8,9) [OF s2(4)] f1(2)
      by (auto simp: may_commit_def commit_ok_def)
    from sim_commit [OF s2(3,4) _ this] True obtain s3 where "arun (set M) a s2 s3" "base M C s3" "node_rel C s3 a n'" "ack s3 = ack s2"
      using f1(4) eqn by auto
    then show ?thesis using arun_trans [OF s2(2)] aer by blast
  qed
qed

lemma sim_follow:
  assumes b: "base M C s" and n: "node_rel C s a n" and ev: "healthy ev"
    and ae: "ae_rel M s c r" and t: "aeTerm (oaReq r) = currentTerm n" and a: "oaPeer r = a"
    and h: "appendAsFollower ev (oaReq r) n = (Inr reply, n')"
  shows "\<exists>s'. arun (set M) a s s' \<and> base M C s' \<and> node_rel C s' a n' \<and> aer_rel M s' c r reply"
proof -
  define n1 where "n1 = resetElectionDeadlineLocked ev ((setRoleLocked Follower n)\<lparr>currentLeader := aeLeaderId (oaReq r)\<rparr>)"
  have n1: "node_rel C s a n1" "role n1 = Follower" "currentTerm n1 = currentTerm n" "logOffset n1 = 0" "log n1 = log n"
    using n by (simp_all add: node_rel_def n1_def)
  have prev: "aePrevLogIndex (oaReq r) = oaPrevIndex r" using ae by (simp add: ae_rel_def)
  have aer: "aer_rel M s c r rep" if "\<not> aerSuccess rep" for rep using ae that by (simp add: aer_rel_def ae_rel_def a)
  let ?fail = "\<not> (oaPrevIndex r = 0 \<or> oaPrevIndex r \<le> length (log n1) \<and> Term (log n1 ! (oaPrevIndex r - 1)) = aePrevLogTerm (oaReq r))"
  show ?thesis
  proof (cases ?fail)
    case True
    then have "n' = n1 \<and> \<not> aerSuccess reply"
      using h n1(4) by (auto simp: appendAsFollower_def Let_def n1_def [symmetric] prev entryAtLocked_def split: if_splits)
    then show ?thesis using b n1(1) aer by (intro exI [of _ s]) (simp add: arun_refl)
  next
    case False
    then have "acceptAppend ev (oaReq r) n1 = (Inr reply, n')"
      using h n1(4) by (auto simp: appendAsFollower_def Let_def n1_def [symmetric] prev entryAtLocked_def split: if_splits)
    from sim_accept [OF b n1(1,2) ev ae _ a _ this] t False n1(3) show ?thesis by simp
  qed
qed

lemma sim_append:
  assumes b: "base M C s" and n: "node_rel C s a n" and ev: "healthy ev"
    and ae: "ae_rel M s c r" and a: "oaPeer r = a"
    and h: "AppendEntries ev (oaReq r) n = (Inr reply, n')"
  shows "\<exists>s'. arun (set M) a s s' \<and> base M C s' \<and> node_rel C s' a n' \<and> aer_rel M s' c r reply"
proof -
  let ?t = "aeTerm (oaReq r)"
  consider (higher) "currentTerm n < ?t" | (stale) "?t < currentTerm n" | (same) "?t = currentTerm n" by linarith
  then show ?thesis
  proof cases
    case higher
    let ?n = "snd (snd (observeTermLocked ev ?t n))"
    obtain s1 where s1: "arun (set M) a s s1" "base M C s1" "node_rel C s1 a ?n"
      "fst (snd (observeTermLocked ev ?t n)) = None" "currentTerm ?n = ?t"
      using sim_observe [OF b n ev higher] by blast
    have h1: "appendAsFollower ev (oaReq r) ?n = (Inr reply, n')"
      using h higher s1(4,5) by (cases "observeTermLocked ev ?t n") (auto simp: AppendEntries_def appendAtTerm_def)
    have "ae_rel M s1 c r" using ae_rel_grows [OF ae] s1(1) by (auto simp: arun_def)
    from sim_follow [OF s1(2,3) ev this _ a h1] s1(5) show ?thesis using arun_trans [OF s1(1)] by metis
  next
    case stale
    then have "n' = n" "\<not> aerSuccess reply" using h by (auto simp: AppendEntries_def appendAtTerm_def)
    then show ?thesis using b n ae by (intro exI [of _ s]) (simp add: arun_refl aer_rel_def ae_rel_def a)
  next
    case same
    then show ?thesis using sim_follow [OF b n ev ae same a] h by (simp add: AppendEntries_def appendAtTerm_def)
  qed
qed

text \<open>The quorum \<open>maybeAdvanceCommitIndexLocked\<close> counts.\<close>

lemma replicated_quorum:
  assumes ok: "cluster_ok M C" "a \<in> set M" and p: "peers n = cfgPeers (C a)"
    and mi: "distinct (map fst (matchIndex n))" "\<And>q m. (q, m) \<in> set (matchIndex n) \<Longrightarrow> q \<in> set (peers n)"
    and q: "quorumSize (length (peers n) + 1) \<le> 1 + length (filter (\<lambda>(_, m). N \<le> m) (matchIndex n))"
  shows "majority (set M) (insert a (fst ` {(q, m) \<in> set (matchIndex n). N \<le> m}))"
proof -
  let ?f = "filter (\<lambda>(_, m). N \<le> m) (matchIndex n)" and ?S = "fst ` {(q, m) \<in> set (matchIndex n). N \<le> m}"
  have S: "?S = set (map fst ?f)" by force
  have "distinct (map fst ?f)" using mi(1) by (simp add: distinct_map_filter)
  then have "card ?S = length ?f" unfolding S by (simp only: distinct_card length_map)
  moreover have "?S \<subseteq> set (peers n)" using mi(2) by auto
  ultimately show ?thesis using majority_of_votes [OF ok] q peers_members(2,3) [OF ok p] by simp
qed

lemma sim_advance:
  assumes b: "base M C s" and n: "node_rel C s a n" and a: "a \<in> set M" and role: "role n = Leader"
  shows "\<exists>s'. arun (set M) a s s' \<and> base M C s' \<and> node_rel C s' a (maybeAdvanceCommitIndexLocked n)"
proof -
  let ?t = "currentTerm n"
  have r: "areach (majority (set M)) s" and ok: "cluster_ok M C" using b by (auto simp: base_def)
  have l: "ldr s ?t = Some a" "llog s ?t = log n" "distinct (map fst (matchIndex n))"
    "\<And>p m. (p, m) \<in> set (matchIndex n) \<Longrightarrow> p \<in> set (peers n) \<and> m \<le> ack s p ?t"
    using node_relD(14) [OF n role] by (auto simp: leader_rel_def)
  consider N where "commitIndex n < N" "replicated n N"
      "maybeAdvanceCommitIndexLocked n = applyCommittedLocked (n\<lparr>commitIndex := N\<rparr>)"
    | "maybeAdvanceCommitIndexLocked n = n"
    using advanceFrom_spec [of n "lastLogIndexLocked n"] unfolding maybeAdvanceCommitIndexLocked_def by blast
  then show ?thesis
  proof cases
    case (1 N)
    have N: "0 < N" "N \<le> length (log n)" "Term (log n ! (N - 1)) = ?t"
      "quorumSize (length (peers n) + 1) \<le> 1 + length (filter (\<lambda>(_, m). N \<le> m) (matchIndex n))"
      using 1(2) node_relD(4) [OF n] by (auto simp: replicated_def entryAt_iff lastLogIndexLocked_def)
    define A where "A = insert a (fst ` {(q, m) \<in> set (matchIndex n). N \<le> m})"
    have "majority (set M) A" unfolding A_def
      by (rule replicated_quorum [OF ok a node_relD(3) [OF n] l(3) _ N(4)]) (use l(4) in blast)
    moreover have "ack s a ?t = length (llog s ?t)"
      using arun_inv [OF r] l(1) by (auto simp: raft_inv_def leaders_inv_def)
    then have "\<forall>q \<in> A. N \<le> ack s q ?t"
      using l(2,4) N(2) by (auto simp: A_def dest: order_trans)
    ultimately have "committed (majority (set M)) s N ?t" unfolding committed_def using N l(1,2)
      by (intro conjI exI [of _ A]) simp_all
    then have "may_commit (majority (set M)) s a N"
      using N(2) node_relD(8,9) [OF n] l(2) unfolding may_commit_def by (metis order_refl)
    from sim_commit [OF b n _ this] 1 show ?thesis by auto
  next
    case 2
    then show ?thesis using b n by (intro exI [of _ s]) (simp add: arun_refl)
  qed
qed

lemma node_rel_match:
  assumes n: "node_rel C s a n" and role: "role n = Leader" and p: "p \<in> set (peers n)" "m \<le> ack s p (currentTerm n)"
  shows "node_rel C s a (n\<lparr>matchIndex := gm_set p m (matchIndex n)\<rparr>)"
proof -
  have l: "leader_rel s a n" by (rule node_relD(14) [OF n role])
  have wf: "distinct (map fst (gm_set p m (matchIndex n)))"
    using l gm_wf_set [of "matchIndex n" p m] by (simp add: leader_rel_def gm_wf_def)
  have "q \<in> set (peers n) \<and> k \<le> ack s q (currentTerm n)" if "(q, k) \<in> set (gm_set p m (matchIndex n))" for q k
    using map_of_is_SomeI [OF wf that] l p map_of_SomeD [of "matchIndex n" q k]
    by (auto simp: leader_rel_def split: if_splits)
  then have "leader_rel s a (n\<lparr>matchIndex := gm_set p m (matchIndex n)\<rparr>)"
    using l wf by (auto simp: leader_rel_def)
  then show ?thesis using n role by (simp add: node_rel_def)
qed

lemma node_rel_nextIndex: "node_rel C s a n \<Longrightarrow> node_rel C s a (n\<lparr>nextIndex := x\<rparr>)"
  using leader_rel_frame [of s a n s "n\<lparr>nextIndex := x\<rparr>"] cand_rel_frame [of s a n s "n\<lparr>nextIndex := x\<rparr>"]
  by (simp add: node_rel_def)

lemma sim_reply:
  assumes b: "base M C s" and n: "node_rel C s a n" and a: "a \<in> set M" and ev: "healthy ev"
    and aer: "aer_rel M s a r reply" and h: "handleSendReply ev (aeTerm (oaReq r)) r (Some reply) n = (ok, n')"
  shows "\<exists>s'. arun (set M) a s s' \<and> base M C s' \<and> node_rel C s' a n'"
proof -
  have ok: "cluster_ok M C" using b by (simp add: base_def)
  let ?h = "handleAppendEntriesReplyLocked ev (oaPeer r) (oaPrevIndex r) (oaNumEntries r) reply n"
  consider (stale) "n' = n" | (live) "role n = Leader" "currentTerm n = aeTerm (oaReq r)" "n' = ?h"
    using h by (auto simp: handleSendReply_def split: if_splits)
  then show ?thesis
  proof cases
    case stale
    then show ?thesis using b n by (intro exI [of _ s]) (simp add: arun_refl)
  next
    case live
    show ?thesis
    proof (cases "currentTerm n < aerTerm reply")
      case True
      then show ?thesis using sim_observe [OF b n ev True] live(3) by (auto simp: handleAppendEntriesReplyLocked_def)
    next
      case False
      show ?thesis
      proof (cases "aerSuccess reply")
        case True
        define k where "k = oaPrevIndex r + oaNumEntries r"
        define n1 where "n1 = (if gm_get (matchIndex n) (oaPeer r) < k then n\<lparr>matchIndex := gm_set (oaPeer r) k (matchIndex n)\<rparr> else n)"
        define n2 where "n2 = (if gm_get (nextIndex n1) (oaPeer r) < k + 1 then n1\<lparr>nextIndex := gm_set (oaPeer r) (k + 1) (nextIndex n1)\<rparr> else n1)"
        have k: "oaPeer r \<in> set (peers n)" "k \<le> ack s (oaPeer r) (currentTerm n)"
          using aer True live(2) peers_members(2) [OF ok a node_relD(3) [OF n]] by (auto simp: aer_rel_def k_def)
        have "node_rel C s a n1" using n node_rel_match [OF n live(1) k] by (simp add: n1_def)
        then have "node_rel C s a n2" using node_rel_nextIndex by (simp add: n2_def)
        moreover have "role n2 = Leader" using live(1) by (simp add: n1_def n2_def)
        moreover have "n' = maybeAdvanceCommitIndexLocked n2"
          using live(3) True False by (simp add: handleAppendEntriesReplyLocked_def Let_def k_def n1_def n2_def)
        ultimately show ?thesis using sim_advance [OF b _ a] by blast
      next
        case fail: False
        then have "\<exists>x. n' = n\<lparr>nextIndex := x\<rparr>"
          using live(3) False by (simp only: handleAppendEntriesReplyLocked_def Let_def if_False) (rule exI, rule refl)
        then show ?thesis using b node_rel_nextIndex [OF n] arun_refl by blast
      qed
    qed
  qed
qed

section \<open>Proposals\<close>

lemma leader_rel_snoc:
  assumes "leader_rel s a n" "ldr s' (currentTerm n) = Some a" "llog s' (currentTerm n) = log n @ [e]"
    "\<And>p. ack s p (currentTerm n) \<le> ack s' p (currentTerm n)"
    "n' = n\<lparr>dir := d, log := log n @ [e]\<rparr>"
  shows "leader_rel s' a n'"
proof -
  have "p \<in> set (peers n) \<and> m \<le> ack s' p (currentTerm n)" if "(p, m) \<in> set (matchIndex n)" for p m
    using assms(1) that order_trans [OF _ assms(4)] by (simp add: leader_rel_def)
  then show ?thesis using assms(1-3,5) by (simp add: leader_rel_def)
qed

lemma sim_propose:
  assumes b: "base M C s" and n: "node_rel C s a n" and role: "role n = Leader" and ev: "healthy ev" and f: "fits cmd n"
  shows "\<exists>s' d e. arun (set M) a s s' \<and> base M C s' \<and> node_rel C s' a (n\<lparr>dir := d, log := log n @ [e]\<rparr>) \<and>
    e = \<lparr>Term = currentTerm n, Index = length (log n) + 1, Command = cmd\<rparr> \<and>
    appendLocalLocked ev cmd n = (length (log n) + 1, currentTerm n, None, n\<lparr>dir := d, log := log n @ [e]\<rparr>)"
proof -
  let ?t = "currentTerm n"
  define e where "e = \<lparr>Term = ?t, Index = length (log n) + 1, Command = cmd\<rparr>"
  let ?d = "snd (AppendLogEntries NoFault [e] (dir n))"
  let ?n = "n\<lparr>dir := ?d, log := log n @ [e]\<rparr>"
  have off: "logOffset n = 0" by (rule node_relD(4) [OF n])
  have r: "areach (majority (set M)) s" using b by (simp add: base_def)
  have l: "ldr s ?t = Some a" "llog s ?t = log n" "leader_rel s a n"
    using node_relD(14) [OF n role] by (auto simp: leader_rel_def)
  have e: "\<forall>x \<in> set [e]. entry_ok x" "Term e = ?t" using f off by (auto simp: fits_def e_def lastLogIndexLocked_def)
  note st = Append_stored [OF node_relD(5) [OF n] e(1)]
  let ?s = "s\<lparr>alog := (alog s)(a := alog s a @ [e]), llog := (llog s)(?t := alog s a @ [e]),
     ack := (ack s)(a := (ack s a)(?t := length (alog s a) + 1))\<rparr>"
  have run: "arun (set M) a s ?s"
    by (rule run_Request [OF r]) (use l e node_relD(8,9) [OF n] in auto)
  have pos: "positional 0 (log n @ [e])" using node_relD(6) [OF n] by (auto simp: positional_def nth_append e_def)
  have "take (commitIndex n) (log n @ [e]) = take (commitIndex n) (log n)"
    using commit_within [OF r, of a] node_relD(9,10) [OF n] by simp
  moreover have "LoadState NoFault ?d = LoadState NoFault (dir n)" by (simp add: LoadState_def stateJson_log_ops)
  moreover have "grows s ?s" using run by (simp add: arun_def local_step_def)
  then have "ack s p ?t \<le> ack ?s p ?t" for p unfolding grows_def by blast
  then have "leader_rel ?s a ?n"
    by (intro leader_rel_snoc [OF l(3)]) (simp_all add: node_relD(9) [OF n] l(1))
  ultimately have "node_rel C ?s a ?n" using n role st(2) pos by (simp add: node_rel_def)
  moreover have "base M C ?s"
    using b arun_reach [OF run r] pos e(1) node_relD(5,9) [OF n]
    by (auto simp: base_def llogs_ok_def voters_ok_def stored_def)
  moreover have "appendLocalLocked ev cmd n = (length (log n) + 1, ?t, None, ?n)"
    using st(1) healthyD [OF ev] off
    by (auto simp: appendLocalLocked_def appendToLog_def lastLogIndexLocked_def e_def Let_def split: prod.split)
  ultimately show ?thesis using run e_def by (intro exI [of _ ?s] exI [of _ ?d] exI [of _ e]) simp
qed

section \<open>Crashes\<close>

text \<open>What is on the disk of a crashed node, as a restart reads it.\<close>

definition disk_rel :: "(addr \<Rightarrow> Config) \<Rightarrow> astate \<Rightarrow> addr \<Rightarrow> datadir \<Rightarrow> bool" where
  "disk_rel C s a d \<longleftrightarrow> LoadState NoFault d = Inr (aterm s a, vote_text C (avote s a (aterm s a))) \<and>
     fst (ReadAllLogEntries NoFault d) = Inr (alog s a) \<and> stored (snd (ReadAllLogEntries NoFault d)) (alog s a) \<and>
     positional 0 (alog s a)"

lemma disk_rel_stored:
  assumes "stored d (alog s a)" "positional 0 (alog s a)"
    "LoadState NoFault d = Inr (aterm s a, vote_text C (avote s a (aterm s a)))"
  shows "disk_rel C s a d"
proof -
  have "ReadAllLogEntries NoFault d = (Inr (alog s a), d\<lparr>logFile := Some (logBytes d)\<rparr>)"
    using stored_scan [OF assms(1)] by (simp add: ReadAllLogEntries_def)
  then show ?thesis using assms by (simp add: disk_rel_def stored_def)
qed

lemma disk_rel_node: "node_rel C s a n \<Longrightarrow> disk_rel C s a (dir n)"
  by (rule disk_rel_stored) (simp_all add: node_rel_def)

lemma restart_node:
  assumes ok: "cluster_ok M C" and a: "a \<in> set M" and ev: "healthy ev" and d: "disk_rel C s a d"
    and h: "NewNode ev (C a) d = Inr n'"
  shows "node_rel C (s\<lparr>acommit := (acommit s)(a := 0)\<rparr>) a n'"
proof -
  obtain d' where rd: "ReadAllLogEntries NoFault d = (Inr (alog s a), d')"
    using d by (cases "ReadAllLogEntries NoFault d") (simp add: disk_rel_def)
  have fb: "fallbackBaseline (alog s a) = (alog s a, 0, 0, '''')"
  proof (cases "alog s a")
    case (Cons e es)
    then have "Index e = 1" using d by (auto simp: disk_rel_def positional_def)
    then have "sub64 (Index e) 1 = 0" by (simp add: sub64_le)
    then show ?thesis using Cons by (simp add: fallbackBaseline_def Let_def)
  qed (simp add: fallbackBaseline_def)
  have cfg: "cfgLocalSnapshot (C a) = None" "cfgAddress (C a) = a" using ok a by (auto simp: cluster_ok_def)
  have ld: "LoadState NoFault d = Inr (aterm s a, vote_text C (avote s a (aterm s a)))"
    "LoadState NoFault d' = Inr (aterm s a, vote_text C (avote s a (aterm s a)))"
    using d stateJson_log_ops(4) [of NoFault d] by (simp_all add: disk_rel_def LoadState_def rd)
  have st: "stored d' (alog s a)" "positional 0 (alog s a)" using d by (simp_all add: disk_rel_def rd)
  show ?thesis
    using h st ld by (auto simp: NewNode_def healthyD [OF ev] rd cfg baseline_def fb Let_def node_rel_def)
qed

lemma sim_restart:
  assumes b: "base M C s" and a: "a \<in> set M" and ev: "healthy ev" and d: "disk_rel C s a d"
    and h: "NewNode ev (C a) d = Inr n'"
  shows "\<exists>s'. arun (set M) a s s' \<and> base M C s' \<and> node_rel C s' a n'"
proof -
  let ?s = "s\<lparr>acommit := (acommit s)(a := 0)\<rparr>"
  have r: "areach (majority (set M)) s" and ok: "cluster_ok M C" using b by (auto simp: base_def)
  have run: "arun (set M) a s ?s" by (rule run_Commit [OF r]) (simp add: may_commit_def)
  have "base M C ?s" using b arun_reach [OF run r] by (simp add: base_def llogs_ok_def voters_ok_def)
  then show ?thesis using run restart_node [OF ok a ev d h] by blast
qed

definition heal :: "env \<Rightarrow> env" where
  "heal ev = ev\<lparr>ioObserve := NoFault, ioVote := NoFault, ioTruncate := NoFault, ioAppend := NoFault,
     ioSnapshot := NoFault, ioRewrite := NoFault\<rparr>"

lemma healthy_heal [simp]: "healthy (heal ev)"
  by (simp add: healthy_def heal_def)

lemma heal_sel [simp]:
  "ioObserve (heal ev) = NoFault" "ioVote (heal ev) = NoFault" "ioTruncate (heal ev) = NoFault"
  "ioAppend (heal ev) = NoFault" "now (heal ev) = now ev" "draw (heal ev) = draw ev"
  by (simp_all add: heal_def)

lemma persist_fault: "flt \<noteq> NoFault \<Longrightarrow> persistStateLocked flt n = (Some IOError, n)"
  by (simp add: persistStateLocked_def SaveState_def)

lemma reset_heal [simp]: "resetElectionDeadlineLocked (heal ev) n = resetElectionDeadlineLocked ev n"
  by (simp add: resetElectionDeadlineLocked_def)

lemma observe_crash:
  assumes "currentTerm n < t"
  shows "ioObserve ev = NoFault \<Longrightarrow> observeTermLocked ev t n = observeTermLocked (heal ev) t n"
    and "ioObserve ev \<noteq> NoFault \<Longrightarrow> fst (snd (observeTermLocked ev t n)) \<noteq> None \<and>
      dir (snd (snd (observeTermLocked ev t n))) = dir n"
  using assms by (simp_all add: observeTermLocked_def persist_fault)

lemma crash_grant:
  assumes b: "base M C s" and n: "node_rel C s a n" and rv: "rv_rel M C s c a req" and t: "rvTerm req \<le> currentTerm n"
  shows "\<exists>s'. arun (set M) a s s' \<and> base M C s' \<and> disk_rel C s' a (dir (snd (grantVote ev req n)))"
proof (cases "ioVote ev = NoFault")
  case True
  then have eq: "grantVote ev req n = grantVote (heal ev) req n"
    by (simp add: grantVote_def Let_def persistStateLocked_ok)
  obtain reply n' where h: "grantVote (heal ev) req n = (Inr reply, n')"
    unfolding grantVote_healthy [OF healthy_heal] by (metis (lifting))
  from sim_grant [OF b n healthy_heal rv t h] show ?thesis using disk_rel_node by (auto simp: eq h)
next
  case False
  then have "dir (snd (grantVote ev req n)) = dir n" by (simp add: grantVote_def Let_def persist_fault)
  then show ?thesis using b disk_rel_node [OF n] arun_refl by auto
qed

lemma crash_vote:
  assumes b: "base M C s" and n: "node_rel C s a n" and rv: "rv_rel M C s c a req"
  shows "\<exists>s'. arun (set M) a s s' \<and> base M C s' \<and> disk_rel C s' a (dir (snd (RequestVote ev req n)))"
proof (cases "currentTerm n < rvTerm req")
  case lt: True
  let ?o = "observeTermLocked ev (rvTerm req) n"
  show ?thesis
  proof (cases "ioObserve ev = NoFault")
    case True
    note eq = observe_crash(1) [OF lt True]
    obtain s1 where s1: "arun (set M) a s s1" "base M C s1" "node_rel C s1 a (snd (snd ?o))"
      "fst (snd ?o) = None" "currentTerm (snd (snd ?o)) = rvTerm req"
      using sim_observe [OF b n healthy_heal lt, of ev] unfolding eq by blast
    have "RequestVote ev req n = grantVote ev req (snd (snd ?o))"
      using lt s1(4) by (cases ?o) (simp add: RequestVote_def)
    moreover have "rv_rel M C s1 c a req" using rv_rel_grows [OF rv] s1(1) by (auto simp: arun_def)
    ultimately show ?thesis using crash_grant [OF s1(2,3), of c req ev] s1(5) arun_trans [OF s1(1)] by force
  next
    case False
    then have "dir (snd (RequestVote ev req n)) = dir n"
      using lt observe_crash(2) [OF lt False] by (cases ?o) (auto simp: RequestVote_def)
    then show ?thesis using b disk_rel_node [OF n] arun_refl by auto
  qed
next
  case False
  then show ?thesis using crash_grant [OF b n rv] by (simp add: RequestVote_def)
qed

lemma crash_stand:
  assumes b: "base M C s" and n: "node_rel C s a n" and a: "a \<in> set M" and t: "currentTerm n + 1 < 2 ^ 64"
  shows "\<exists>s'. arun (set M) a s s' \<and> base M C s' \<and> disk_rel C s' a (dir (snd (startElection ev n)))"
proof (cases "role n = Leader \<or> ioVote ev \<noteq> NoFault")
  case True
  then have "dir (snd (startElection ev n)) = dir n" by (auto simp: startElection_def Let_def persist_fault)
  then show ?thesis using b disk_rel_node [OF n] arun_refl by auto
next
  case False
  then have eq: "startElection ev n = startElection (heal ev) n"
    by (simp add: startElection_def Let_def persistStateLocked_ok)
  obtain el n' where h: "startElection (heal ev) n = (Some el, n')"
    using False by (auto simp: startElection_def Let_def persistStateLocked_ok)
  show ?thesis using sim_stand [OF b n healthy_heal a t h] disk_rel_node by (fastforce simp: eq h)
qed

lemma crash_propose:
  assumes b: "base M C s" and n: "node_rel C s a n" and f: "fits cmd n"
  shows "\<exists>s'. arun (set M) a s s' \<and> base M C s' \<and> disk_rel C s' a (dir (snd (Propose ev cmd n)))"
proof (cases "role n = Leader")
  case False
  then show ?thesis using b disk_rel_node [OF n] arun_refl by (auto simp: Propose_def)
next
  case True
  obtain s1 d e where s1: "arun (set M) a s s1" "base M C s1" "node_rel C s1 a (n\<lparr>dir := d, log := log n @ [e]\<rparr>)"
    "e = \<lparr>Term = currentTerm n, Index = length (log n) + 1, Command = cmd\<rparr>"
    using sim_propose [OF b n True healthy_heal f] by blast
  let ?d = "snd (AppendLogEntries (ioAppend ev) [e] (dir n))"
  have dir: "dir (snd (Propose ev cmd n)) = ?d"
    using True node_relD(4) [OF n]
    by (cases "AppendLogEntries (ioAppend ev) [e] (dir n)")
      (simp add: Propose_def appendLocalLocked_def appendToLog_def lastLogIndexLocked_def s1(4) Let_def split: option.split)
  have "entry_ok e" using f node_relD(4) [OF n] by (simp add: fits_def s1(4) lastLogIndexLocked_def)
  then obtain j where j: "j \<le> 1" "fst (ReadAllLogEntries NoFault ?d) = Inr (log n @ take j [e])"
      "stored (snd (ReadAllLogEntries NoFault ?d)) (log n @ take j [e])"
    using ReadAll_after_append [OF node_relD(5) [OF n], of "[e]" "ioAppend ev"] by auto
  have ld: "LoadState NoFault ?d = LoadState NoFault (dir n)" by (simp add: LoadState_def stateJson_log_ops)
  show ?thesis
  proof (cases "j = 0")
    case True
    then have "disk_rel C s a ?d" using j ld n by (simp add: disk_rel_def node_rel_def)
    then show ?thesis using b arun_refl dir by auto
  next
    case False
    then have "j = 1" using j(1) by simp
    then have "disk_rel C s1 a ?d" using j ld s1(3) node_relD(7) [OF n] by (simp add: disk_rel_def node_rel_def)
    then show ?thesis using s1(1,2) dir by auto
  qed
qed

lemma Truncate_fault:
  assumes "stored d lg" "fst (TruncateLogFrom flt i d) \<noteq> None"
  shows "stored (snd (TruncateLogFrom flt i d)) lg"
  using assms stored_scan [OF assms(1)]
  by (auto simp: TruncateLogFrom_def ReadAllLogEntries_def RewriteLog_def stored_def split: if_splits)

lemma Truncate_success: "fst (TruncateLogFrom flt i d) = None \<Longrightarrow> TruncateLogFrom flt i d = TruncateLogFrom NoFault i d"
  by (cases "flt = NoFault")
    (auto simp: TruncateLogFrom_def ReadAllLogEntries_def RewriteLog_def split: if_splits prod.splits sum.splits)

lemma adopts_partial:
  assumes eq: "take k lg @ new = take m l" "m \<le> length l" and k: "k \<le> length lg" "k < length lg \<Longrightarrow> lg ! k \<noteq> l ! k"
    and j: "j \<le> length new"
  shows "k + j \<le> length l" "adopts lg (k + j) l (take k lg @ take j new)"
proof -
  have len: "m = k + length new" using arg_cong [OF eq(1), of length] eq(2) k(1) by simp
  then show "k + j \<le> length l" using eq(2) j by simp
  have "take (k + j) l = take (k + j) (take m l)" using len j by simp
  also have "\<dots> = take k lg @ take j new" using k(1) by (simp flip: eq(1))
  finally have new: "take k lg @ take j new = take (k + j) l" ..
  have "i \<le> k" if i: "i \<le> length l" "take i lg = take i l" for i
  proof (rule ccontr)
    assume "\<not> i \<le> k"
    then have "k < i" "i \<le> length lg" using take_eq_length [OF i(2) [symmetric] i(1)] by simp_all
    then show False using k(2) take_eq_nth [OF i(2), of k] by simp
  qed
  then have "\<forall>i \<le> length l. take i lg = take i l \<longrightarrow> i \<le> k + j" by (meson trans_le_add1)
  then show "adopts lg (k + j) l (take k lg @ take j new)" using new by (simp add: adopts_def)
qed

text \<open>Where a crash inside \<open>mergeEntriesLocked\<close> can leave the log.\<close>

lemma merge_crash_disk:
  assumes st: "stored (dir n) (log n)" "positional 0 (log n)" "logOffset n = 0" and p: "p \<le> length (log n)"
    and ok: "\<forall>e \<in> set es. entry_ok (entryOfPb e)"
  shows "\<exists>k j. let d = dir (snd (mergeEntriesLocked ev p es n)) in
    stateJson d = stateJson (dir n) \<and>
    (stored d (log n) \<or>
     (\<exists>new. k \<le> length (log n) \<and> mergedLog n p es = take k (log n) @ new \<and> new \<noteq> [] \<and> j \<le> length new \<and>
        (k < length (log n) \<longrightarrow> Term (log n ! k) \<noteq> Term (hd new)) \<and>
        fst (ReadAllLogEntries NoFault d) = Inr (take k (log n) @ take j new) \<and>
        stored (snd (ReadAllLogEntries NoFault d)) (take k (log n) @ take j new)))"
proof -
  have pl: "p \<le> lastLogIndexLocked n" using p st(3) by (simp add: lastLogIndexLocked_def)
  from mergeEntries_walk [OF pl, of es ev, unfolded Let_def st(3) diff_zero diff_0_eq_0 drop_0 add_0] obtain m where m: "p + m \<le> length (log n)" "m \<le> length es"
    "m < length es \<longrightarrow> p + m < length (log n) \<longrightarrow> Term (log n ! (p + m)) \<noteq> peTerm (es ! m)"
    "mergedLog n p es = (if m < length es then take (p + m) (log n) @ map entryOfPb (drop m es) else log n)"
    "mergeEntriesLocked ev p es n =
      (case (if m < length es \<and> p + m < length (log n) then truncateAt ev (p + m + 1) n else (None, n)) of
         (Some e, n1) \<Rightarrow> (Some e, n1)
       | (None, n1) \<Rightarrow> if drop m es = [] then (None, n1) else appendToLog ev (map entryOfPb (drop m es)) n1)"
    by blast
  let ?new = "map entryOfPb (drop m es)" and ?k = "p + m"
  have new_ok: "\<forall>e \<in> set ?new. entry_ok e" using ok by (auto dest!: in_set_dropD)
  have appdir: "dir (snd (appendToLog ev ?new n1)) = snd (AppendLogEntries (ioAppend ev) ?new (dir n1))" for n1
    by (simp add: appendToLog_def split: prod.split option.split)
  have fin: ?thesis if d: "dir (snd (mergeEntriesLocked ev p es n)) = snd (AppendLogEntries (ioAppend ev) ?new d0)"
    and d0: "stored d0 (take ?k (log n))" "stateJson d0 = stateJson (dir n)" and lt: "m < length es" for d0
  proof -
    obtain j where j: "j \<le> length ?new"
      "fst (ReadAllLogEntries NoFault (snd (AppendLogEntries (ioAppend ev) ?new d0))) = Inr (take ?k (log n) @ take j ?new)"
      "stored (snd (ReadAllLogEntries NoFault (snd (AppendLogEntries (ioAppend ev) ?new d0)))) (take ?k (log n) @ take j ?new)"
      using ReadAll_after_append [OF d0(1) new_ok] by blast
    have "Term (hd ?new) = peTerm (es ! m)" using lt by (simp add: hd_drop_conv_nth hd_map)
    then show ?thesis using j m(1-4) lt d0(2) unfolding Let_def d stateJson_log_ops
      by (intro exI [of _ ?k] exI [of _ j] conjI disjI2 exI [of _ ?new]) auto
  qed
  consider (same) "m = length es" | (app) "m < length es" "?k = length (log n)" | (cut) "m < length es" "?k < length (log n)"
    using m(1,2) by linarith
  then show ?thesis
  proof cases
    case same
    then show ?thesis using m(5) st(1) by (simp add: Let_def)
  next
    case app
    then show ?thesis using fin [of "dir n"] m(5) st(1) appdir by simp
  next
    case cut
    let ?t = "TruncateLogFrom (ioTruncate ev) (?k + 1) (dir n)"
    show ?thesis
    proof (cases "fst ?t = None")
      case True
      then have eq: "?t = TruncateLogFrom NoFault (?k + 1) (dir n)" by (rule Truncate_success)
      have "stored (snd ?t) (take ?k (log n))"
        unfolding eq using dlog.cut_positional [OF st(1), of 0 "?k + 1"] st(2) by (simp add: positional_dlog)
      moreover have "dir (snd (mergeEntriesLocked ev p es n)) = snd (AppendLogEntries (ioAppend ev) ?new (snd ?t))"
        using m(5) cut True appdir by (cases ?t) (simp add: truncateAt_def)
      ultimately show ?thesis using fin [of "snd ?t"] cut(1) by (simp add: stateJson_log_ops)
    next
      case False
      then have "dir (snd (mergeEntriesLocked ev p es n)) = snd ?t"
        using m(5) cut by (cases ?t) (auto simp: truncateAt_def)
      then show ?thesis using Truncate_fault [OF st(1) False] by (simp add: Let_def stateJson_log_ops)
    qed
  qed
qed

lemma partial_merge:
  assumes eq: "adopt lg (take m l) = take k lg @ new" and k: "k \<le> length lg" and new: "new \<noteq> []"
    and diff: "k < length lg \<longrightarrow> Term (lg ! k) \<noteq> Term (hd new)" and m: "m \<le> length l"
  shows "take k lg @ new = take m l" "k < length lg \<Longrightarrow> lg ! k \<noteq> l ! k"
proof -
  have hd: "hd new = (take k lg @ new) ! k" using k new by (simp add: nth_append hd_conv_nth)
  have "take k lg @ new \<noteq> lg"
  proof
    assume *: "take k lg @ new = lg"
    then have "k < length lg" using k new by (metis append_take_drop_id append_self_conv drop_all le_neq_implies_less same_append_eq)
    moreover have "hd new = lg ! k" using hd * by simp
    ultimately show False using diff by simp
  qed
  then show tk: "take k lg @ new = take m l" using eq by (auto simp: adopt_def split: if_splits)
  assume lt: "k < length lg"
  have "k < m" using arg_cong [OF tk, of length] k new m by (cases new) auto
  then have "hd new = l ! k" using hd tk by simp
  then show "lg ! k \<noteq> l ! k" using diff lt by auto
qed

lemma crash_merge:
  assumes b: "base M C s" and n: "node_rel C s a n"
    and m: "appendFacts M s r m" and t: "aeTerm (oaReq r) = currentTerm n"
    and check: "oaPrevIndex r = 0 \<or> oaPrevIndex r \<le> length (log n) \<and>
      Term (log n ! (oaPrevIndex r - 1)) = aePrevLogTerm (oaReq r)"
  shows "\<exists>s'. arun (set M) a s s' \<and> base M C s' \<and>
    disk_rel C s' a (dir (snd (mergeEntriesLocked ev (oaPrevIndex r) (aeEntries (oaReq r)) n)))"
proof -
  define p where "p = oaPrevIndex r"
  define es where "es = aeEntries (oaReq r)"
  define d where "d = dir (snd (mergeEntriesLocked ev p es n))"
  let ?t = "currentTerm n" and ?L = "llog s (currentTerm n)"
  have r: "areach (majority (set M)) s" and lok: "llogs_ok s" using b by (auto simp: base_def)
  have lg: "alog s a = log n" by (rule node_relD(9) [OF n])
  have m': "ldr s ?t \<noteq> None" "m \<le> length ?L" "es = map pbOfEntry (drop p (take m ?L))"
    "aePrevLogTerm (oaReq r) = (if 0 < p \<and> p \<le> m then Term (?L ! (p - 1)) else 0)"
    using m unfolding appendFacts_def Let_def t p_def es_def by blast+
  have p: "p \<le> m" "p \<le> length (log n)" "take p (log n) = take p ?L"
    using check_consistent [OF r m'(1,2,4), of a] check lg by (simp_all add: p_def)
  have Lok: "positional 0 ?L" "\<forall>e \<in> set ?L. entry_ok e" using lok m'(1) by (auto simp: llogs_ok_def)
  have merged: "mergedLog n p es = adopt (log n) (take m ?L)"
    by (rule merged_adopt [OF node_relD(4) [OF n] m'(2) p entry_match [OF r m'(1), of _ a, unfolded lg] m'(3)])
  have es_ok: "\<forall>e \<in> set es. entry_ok (entryOfPb e)" using Lok(2) by (auto simp: m'(3) dest: in_set_dropD in_set_takeD)
  have ld: "LoadState NoFault d' = Inr (aterm s a, vote_text C (avote s a (aterm s a)))"
    if "stateJson d' = stateJson (dir n)" for d' :: datadir
    using n that by (simp add: node_rel_def LoadState_def)
  from merge_crash_disk [OF node_relD(5,6,4) [OF n] p(2) es_ok, of ev, folded d_def, unfolded Let_def merged]
  obtain k j where d: "stateJson d = stateJson (dir n)" and
    cases: "stored d (log n) \<or> (\<exists>new. k \<le> length (log n) \<and> adopt (log n) (take m ?L) = take k (log n) @ new \<and> new \<noteq> [] \<and>
      j \<le> length new \<and> (k < length (log n) \<longrightarrow> Term (log n ! k) \<noteq> Term (hd new)) \<and>
      fst (ReadAllLogEntries NoFault d) = Inr (take k (log n) @ take j new) \<and>
      stored (snd (ReadAllLogEntries NoFault d)) (take k (log n) @ take j new))" by blast
  show ?thesis unfolding p_def [symmetric] es_def [symmetric] d_def [symmetric]
  proof (cases "stored d (log n)")
    case True
    then have "disk_rel C s a d" using node_relD(6) [OF n] ld [OF d] lg by (intro disk_rel_stored) simp_all
    then show "\<exists>s'. arun (set M) a s s' \<and> base M C s' \<and> disk_rel C s' a d" using b arun_refl by blast
  next
    case False
    then obtain new where new: "k \<le> length (log n)" "adopt (log n) (take m ?L) = take k (log n) @ new" "new \<noteq> []"
      "j \<le> length new" "k < length (log n) \<longrightarrow> Term (log n ! k) \<noteq> Term (hd new)"
      "fst (ReadAllLogEntries NoFault d) = Inr (take k (log n) @ take j new)"
      "stored (snd (ReadAllLogEntries NoFault d)) (take k (log n) @ take j new)" using cases by blast
    note pm = partial_merge [OF new(2,1,3,5) m'(2)]
    note ad = adopts_partial [OF pm(1) m'(2) new(1) pm(2) new(4)]
    let ?lg = "take k (log n) @ take j new"
    let ?s = "s\<lparr>alog := (alog s)(a := ?lg), ack := (ack s)(a := (ack s a)(?t := max (ack s a ?t) (k + j)))\<rparr>"
    have run: "arun (set M) a s ?s"
      by (rule run_Adopt [OF r]) (simp_all add: node_relD(8) [OF n] m'(1) lg ad del: not_None_eq)
    have "positional 0 ?lg" using ad(2) positional_take [OF Lok(1), of "k + j"] node_relD(6) [OF n]
      by (auto simp: adopts_def)
    then have "disk_rel C ?s a d" using new(6,7) ld [OF d] by (simp add: disk_rel_def)
    moreover have "base M C ?s" using b arun_reach [OF run r] by (simp add: base_def llogs_ok_def voters_ok_def)
    ultimately show "\<exists>s'. arun (set M) a s s' \<and> base M C s' \<and> disk_rel C s' a d" using run by blast
  qed
qed

lemma crash_follow:
  assumes b: "base M C s" and n: "node_rel C s a n" and ae: "ae_rel M s c r" and t: "aeTerm (oaReq r) = currentTerm n"
  shows "\<exists>s'. arun (set M) a s s' \<and> base M C s' \<and> disk_rel C s' a (dir (snd (appendAsFollower ev (oaReq r) n)))"
proof -
  define n1 where "n1 = resetElectionDeadlineLocked ev ((setRoleLocked Follower n)\<lparr>currentLeader := aeLeaderId (oaReq r)\<rparr>)"
  define n2 where "n2 = n1\<lparr>lastAppendEntriesAt := Some (now ev)\<rparr>"
  have n1: "node_rel C s a n1" "logOffset n1 = 0" "dir n1 = dir n" using n by (simp_all add: node_rel_def n1_def)
  have n2: "node_rel C s a n2" "currentTerm n2 = currentTerm n" "log n2 = log n1"
    using n by (simp_all add: node_rel_def n1_def n2_def)
  obtain m where m: "appendFacts M s r m" using ae_facts [OF ae] by blast
  have prev: "aePrevLogIndex (oaReq r) = oaPrevIndex r" using ae by (simp add: ae_rel_def)
  let ?check = "oaPrevIndex r = 0 \<or> oaPrevIndex r \<le> length (log n1) \<and> Term (log n1 ! (oaPrevIndex r - 1)) = aePrevLogTerm (oaReq r)"
  have same: ?thesis if "dir (snd (appendAsFollower ev (oaReq r) n)) = dir n"
    using that b disk_rel_node [OF n] arun_refl by auto
  show ?thesis
  proof (cases "?check \<and> aeEntries (oaReq r) \<noteq> []")
    case True
    then have "appendAsFollower ev (oaReq r) n = acceptAppend ev (oaReq r) n1"
      using n1(2) by (auto simp: appendAsFollower_def Let_def n1_def [symmetric] prev entryAtLocked_def)
    then have "dir (snd (appendAsFollower ev (oaReq r) n)) = dir (snd (mergeEntriesLocked ev (oaPrevIndex r) (aeEntries (oaReq r)) n2))"
      using True by (simp add: acceptAppend_def Let_def n2_def [symmetric] prev split: prod.split option.split)
    then show ?thesis using crash_merge [OF b n2(1) m, of ev] t True n2(2,3) by simp
  next
    case False
    have "dir (snd (appendAsFollower ev (oaReq r) n)) = dir n"
      using False n1(2,3) by (auto simp: appendAsFollower_def Let_def n1_def [symmetric] prev entryAtLocked_def acceptAppend_def)
    then show ?thesis by (rule same)
  qed
qed

lemma crash_append:
  assumes b: "base M C s" and n: "node_rel C s a n" and ae: "ae_rel M s c r"
  shows "\<exists>s'. arun (set M) a s s' \<and> base M C s' \<and> disk_rel C s' a (dir (snd (AppendEntries ev (oaReq r) n)))"
proof -
  let ?t = "aeTerm (oaReq r)"
  have same: ?thesis if "dir (snd (AppendEntries ev (oaReq r) n)) = dir n"
    using that b disk_rel_node [OF n] arun_refl by auto
  consider (higher) "currentTerm n < ?t" | (stale) "?t < currentTerm n" | (same) "?t = currentTerm n" by linarith
  then show ?thesis
  proof cases
    case higher
    let ?o = "observeTermLocked ev ?t n"
    show ?thesis
    proof (cases "ioObserve ev = NoFault")
      case True
      note eq = observe_crash(1) [OF higher True]
      obtain s1 where s1: "arun (set M) a s s1" "base M C s1" "node_rel C s1 a (snd (snd ?o))"
        "fst (snd ?o) = None" "currentTerm (snd (snd ?o)) = ?t"
        using sim_observe [OF b n healthy_heal higher, of ev] unfolding eq by blast
      have "AppendEntries ev (oaReq r) n = appendAsFollower ev (oaReq r) (snd (snd ?o))"
        using higher s1(4,5) by (cases ?o) (simp add: AppendEntries_def appendAtTerm_def)
      moreover have "ae_rel M s1 c r" using ae_rel_grows [OF ae] s1(1) by (auto simp: arun_def)
      ultimately show ?thesis using crash_follow [OF s1(2,3), of c r ev] s1(5) arun_trans [OF s1(1)] by force
    next
      case False
      then show ?thesis using higher observe_crash(2) [OF higher False]
        by (intro same, cases ?o) (auto simp: AppendEntries_def)
    qed
  next
    case stale
    then show ?thesis by (intro same) (simp add: AppendEntries_def appendAtTerm_def)
  next
    case same
    then show ?thesis using crash_follow [OF b n ae] by (simp add: AppendEntries_def appendAtTerm_def)
  qed
qed

section \<open>The simulation\<close>

lemma simD:
  assumes "cluster_ok M C" "sim M C c s"
  shows "base M C s" "once c" "a \<in> set M \<Longrightarrow> node_rel C s a (nodeAt c a)"
    "(a, p, req) \<in> rvCalls c \<Longrightarrow> rv_rel M C s a p req"
    "(a, p, t, rep) \<in> rvReplies c \<Longrightarrow> rvr_rel M s a p t rep"
    "(a, r) \<in> aeCalls c \<Longrightarrow> ae_rel M s a r"
    "(a, r, arep) \<in> aeReplies c \<Longrightarrow> aer_rel M s a r arep"
    "a \<in> set M \<Longrightarrow> elections c a t = Some el \<Longrightarrow> el_rel M s c a t el"
  using assms unfolding sim_def base_def by blast+

text \<open>
  A step of node \<open>a\<close> is simulated when its own part of the relation is re-established and every
  message that is new satisfies its part; the rest is carried over.
\<close>

lemma sim_extend:
  assumes sim: "cluster_ok M C" "sim M C c s" and run: "arun (set M) a s s'" "base M C s'"
    and node: "node_rel C s' a (nodeAt c' a)" "\<And>b. b \<noteq> a \<Longrightarrow> nodeAt c' b = nodeAt c b"
    and once: "once c'"
    and rv: "\<And>x p req. (x, p, req) \<in> rvCalls c' \<Longrightarrow> (x, p, req) \<notin> rvCalls c \<Longrightarrow> rv_rel M C s' x p req"
    and rvr: "\<And>x p t rep. (x, p, t, rep) \<in> rvReplies c' \<Longrightarrow> (x, p, t, rep) \<notin> rvReplies c \<Longrightarrow> rvr_rel M s' x p t rep"
    and ae: "\<And>x r. (x, r) \<in> aeCalls c' \<Longrightarrow> (x, r) \<notin> aeCalls c \<Longrightarrow> ae_rel M s' x r"
    and aer: "\<And>x r rep. (x, r, rep) \<in> aeReplies c' \<Longrightarrow> (x, r, rep) \<notin> aeReplies c \<Longrightarrow> aer_rel M s' x r rep"
    and el: "\<And>x t e. x \<in> set M \<Longrightarrow> elections c' x t = Some e \<Longrightarrow> el_rel M s' c' x t e"
  shows "sim M C c' s'"
proof -
  have l: "local_step a s s'" using run(1) by (simp add: arun_def)
  note D = simD [OF sim]
  have "node_rel C s' b (nodeAt c' b)" if "b \<in> set M" for b
    using node D(3) [OF that] node_rel_other [OF _ l] by (cases "b = a") auto
  moreover have "rv_rel M C s' x p req" if "(x, p, req) \<in> rvCalls c'" for x p req
    using rv that rv_rel_grows [OF D(4) l] by blast
  moreover have "rvr_rel M s' x p t rep" if "(x, p, t, rep) \<in> rvReplies c'" for x p t rep
    using rvr that rvr_rel_grows [OF D(5) l] by blast
  moreover have "ae_rel M s' x r" if "(x, r) \<in> aeCalls c'" for x r
    using ae that ae_rel_grows [OF D(6) l] by blast
  moreover have "aer_rel M s' x r rep" if "(x, r, rep) \<in> aeReplies c'" for x r rep
    using aer that aer_rel_grows [OF D(7) l] by blast
  ultimately show ?thesis using run(2) once el unfolding sim_def base_def by auto
qed

text \<open>Steps that leave the vote traffic alone.\<close>

lemma sim_extend_quiet:
  assumes sim: "cluster_ok M C" "sim M C c s" and run: "arun (set M) a s s'" "base M C s'"
    and node: "node_rel C s' a n'"
    and c': "c' = (setNode a n' c)\<lparr>aeCalls := ac, aeReplies := ar\<rparr>"
    and ae: "\<And>x r. (x, r) \<in> ac \<Longrightarrow> (x, r) \<notin> aeCalls c \<Longrightarrow> ae_rel M s' x r"
    and aer: "\<And>x r rep. (x, r, rep) \<in> ar \<Longrightarrow> (x, r, rep) \<notin> aeReplies c \<Longrightarrow> aer_rel M s' x r rep"
  shows "sim M C c' s'"
proof (rule sim_extend [OF sim run])
  have l: "local_step a s s'" using run(1) by (simp add: arun_def)
  show "\<And>x t e. x \<in> set M \<Longrightarrow> elections c' x t = Some e \<Longrightarrow> el_rel M s' c' x t e"
    by (rule el_rel_grows [OF simD(8) [OF sim] l, where X = "{}" and Y = "{}"]) (auto simp: c' setNode_def)
  show "once c'" using simD(2) [OF sim] by (simp add: once_def c' setNode_def)
qed (use node ae aer in \<open>auto simp: c' setNode_def\<close>)

lemma rv_rel_unique: "rv_rel M C s a p req \<Longrightarrow> rv_rel M C s a p' req' \<Longrightarrow> rvTerm req = rvTerm req' \<Longrightarrow> req = req'"
  by (simp add: rv_rel_def)

lemma step_Timeout:
  assumes ok: "cluster_ok M C" and sim: "sim M C c s" and a: "a \<in> set M" and ev: "healthy ev"
    and t: "currentTerm (nodeAt c a) + 1 < 2 ^ 64" and h: "startElection ev (nodeAt c a) = (Some el, n')"
    and c': "c' = (setNode a n' c)\<lparr>elections := (elections c)(a := (elections c a)(elTerm el := Some el)),
        rvCalls := rvCalls c \<union> {(a, p, elReq el) | p. p \<in> set (peers n')}\<rparr>"
  shows "\<exists>s'. arun (set M) a s s' \<and> sim M C c' s'"
proof -
  note D = simD [OF ok sim]
  obtain s' where s': "arun (set M) a s s'" "base M C s'" "node_rel C s' a n'" "avote s a (elTerm el) = None"
    "avote s' a (elTerm el) = Some a" "elQuorum el = quorumSize (length M)" "elVotes el = 1"
    "rvTerm (elReq el) = elTerm el" "\<forall>p \<in> set M - {a}. rv_rel M C s' a p (elReq el)"
    using sim_stand [OF D(1,3) ev a t h, OF a] by blast
  have l: "local_step a s s'" using s'(1) by (simp add: arun_def)
  have peers: "set (peers n') \<subseteq> set M - {a}" using peers_members(2) [OF ok a node_relD(3) [OF s'(3)]] by auto
  have noreply: "(a, p, elTerm el, rep) \<notin> rvReplies c" for p rep
    using D(5) [of a p "elTerm el" rep] s'(4) by (auto simp: rvr_rel_def)
  have "sim M C c' s'"
  proof (rule sim_extend [OF ok sim s'(1,2)])
    show "once c'" using D(2) noreply s'(8) by (auto simp: once_def c' setNode_def)
    show "el_rel M s' c' x t e" if x: "x \<in> set M" "elections c' x t = Some e" for x t e
    proof (cases "x = a \<and> t = elTerm el")
      case True
      then have "e = el" using x(2) by (simp add: c')
      then show ?thesis using True s'(5-7) by (auto simp: el_rel_def intro!: exI [of _ "{}"])
    next
      case False
      then have "elections c x t = Some e" using x(2) by (auto simp: c' split: if_splits)
      from el_rel_grows [OF D(8) [OF x(1) this] l, where X = "{(a, p, elReq el) | p. p \<in> set (peers n')}" and Y = "{}"]
      show ?thesis using False s'(8) by (auto simp: c' setNode_def)
    qed
  qed (use s'(3,9) peers in \<open>auto simp: c' setNode_def\<close>)
  then show ?thesis using s'(1) by blast
qed

lemma setNode_quiet: "(setNode a n' c)\<lparr>aeCalls := aeCalls c, aeReplies := aeReplies c\<rparr> = setNode a n' c"
  by (simp add: setNode_def)

lemma sim_node_only:
  assumes "cluster_ok M C" "sim M C c s" "arun (set M) a s s'" "base M C s'" "node_rel C s' a n'"
  shows "\<exists>s'. arun (set M) a s s' \<and> sim M C (setNode a n' c) s'"
  using sim_extend_quiet [OF assms setNode_quiet [symmetric]] assms(3) by blast

lemma step_SelfElect:
  assumes ok: "cluster_ok M C" and sim: "sim M C c s" and a: "a \<in> set M" and el: "elections c a t = Some el"
  shows "\<exists>s'. arun (set M) a s s' \<and> sim M C (setNode a (selfElect el (nodeAt c a)) c) s'"
proof -
  note D = simD [OF ok sim]
  let ?n = "nodeAt c a"
  have n: "node_rel C s a ?n" by (rule D(3) [OF a])
  show ?thesis
  proof (cases "elQuorum el \<le> elVotes el \<and> role ?n = Candidate \<and> currentTerm ?n = elTerm el")
    case True
    obtain S where S: "S \<subseteq> set M - {a}" "elVotes el = 1 + card S" "\<forall>p \<in> S. avote s p t = Some a"
      "elTerm el = t" "elQuorum el = quorumSize (length M)"
      using D(8) [OF a el] by (auto simp: el_rel_def)
    obtain s' where "arun (set M) a s s'" "base M C s'" "node_rel C s' a (becomeLeaderLocked ?n)"
      using sim_become_leader [OF D(1) n a _ S(1)] True S by auto
    then show ?thesis using True sim_node_only [OF ok sim] by (simp add: selfElect_def)
  next
    case False
    then show ?thesis using sim_node_only [OF ok sim arun_refl D(1) n] by (auto simp: selfElect_def)
  qed
qed

lemma step_DeliverVote:
  assumes ok: "cluster_ok M C" and sim: "sim M C c s" and call: "(a, p, req) \<in> rvCalls c" and ev: "healthy ev"
    and h: "RequestVote ev req (nodeAt c p) = (Inr reply, n')"
    and c': "c' = (setNode p n' c)\<lparr>rvCalls := rvCalls c - {(a, p, req)},
        rvReplies := insert (a, p, rvTerm req, reply) (rvReplies c)\<rparr>"
  shows "\<exists>s'. arun (set M) p s s' \<and> sim M C c' s'"
proof -
  note D = simD [OF ok sim]
  have rv: "rv_rel M C s a p req" and p: "p \<in> set M" using D(4) [OF call] by (auto simp: rv_rel_def)
  obtain s' where s': "arun (set M) p s s'" "base M C s'" "node_rel C s' p n'" "rvr_rel M s' a p (rvTerm req) reply"
    using sim_vote [OF D(1) D(3) [OF p] ev rv h] by blast
  have l: "local_step p s s'" using s'(1) by (simp add: arun_def)
  have uniq: "req' = req" if "(a, p, req') \<in> rvCalls c" "rvTerm req' = rvTerm req" for req'
    using rv_rel_unique [OF D(4) [OF that(1)] rv that(2)] .
  have "sim M C c' s'"
  proof (rule sim_extend [OF ok sim s'(1,2)])
    show "once c'" using D(2) call uniq unfolding once_def c' setNode_def by auto
    show "el_rel M s' c' x t e" if x: "x \<in> set M" "elections c' x t = Some e" for x t e
      by (rule el_rel_grows [OF D(8) l, where X = "{}" and Y = "{(a, p, rvTerm req, reply)}"])
        (use x call in \<open>auto simp: c' setNode_def\<close>)
  qed (use s'(3,4) in \<open>auto simp: c' setNode_def\<close>)
  then show ?thesis using s'(1) by blast
qed

text \<open>Counting one more vote keeps the counter the number of distinct voters, plus the candidate.\<close>

lemma el_rel_count:
  assumes el: "el_rel M s c a t el" and rep: "(a, p, t, reply) \<in> rvReplies c" and once: "once c"
    and rvr: "rvr_rel M s a p t reply" and g: "rvrVoteGranted reply" and pa: "p \<noteq> a"
    and c': "rvCalls c' = rvCalls c" "rvReplies c' = rvReplies c - {(a, p, t, reply)}"
  shows "el_rel M s c' a t (el\<lparr>elVotes := elVotes el + 1\<rparr>)"
proof -
  obtain S where S: "S \<subseteq> set M - {a}" "elVotes el = 1 + card S"
    "\<forall>q \<in> S. avote s q t = Some a \<and> (\<forall>req. (a, q, req) \<in> rvCalls c \<longrightarrow> rvTerm req \<noteq> t) \<and> (\<forall>rep. (a, q, t, rep) \<notin> rvReplies c)"
    using el by (auto simp: el_rel_def)
  have p: "p \<notin> S" "p \<in> set M" "avote s p t = Some a" using S(3) rep rvr g by (auto simp: rvr_rel_def)
  have fin: "finite S" using S(1) finite_subset by blast
  have "(\<forall>req. (a, p, req) \<in> rvCalls c' \<longrightarrow> rvTerm req \<noteq> t) \<and> (\<forall>rep. (a, p, t, rep) \<notin> rvReplies c')"
    using once rep unfolding once_def c' by blast
  then show ?thesis using el S p pa fin c' unfolding el_rel_def
    by (intro conjI exI [of _ "insert p S"]) auto
qed

lemma el_rel_uncounted:
  assumes "el_rel M s c a t el" "local_step x s s'" "rvCalls c' = rvCalls c" "rvReplies c' \<subseteq> rvReplies c"
  shows "el_rel M s' c' a t el"
  by (rule el_rel_grows [OF assms(1,2), where X = "{}" and Y = "{}"]) (use assms(3,4) in auto)

lemma step_VoteReply:
  assumes ok: "cluster_ok M C" and sim: "sim M C c s" and rep: "(a, p, t, reply) \<in> rvReplies c" and ev: "healthy ev"
    and el: "elections c a t = Some el" and h: "handleVoteReply ev reply el (nodeAt c a) = (el', n')"
    and c': "c' = (setNode a n' c)\<lparr>elections := (elections c)(a := (elections c a)(t := Some el')),
        rvReplies := rvReplies c - {(a, p, t, reply)}\<rparr>"
  shows "\<exists>s'. arun (set M) a s s' \<and> sim M C c' s'"
proof -
  note D = simD [OF ok sim]
  let ?n = "nodeAt c a"
  have rvr: "rvr_rel M s a p t reply" and a: "a \<in> set M" using D(5) [OF rep] by (auto simp: rvr_rel_def)
  have n: "node_rel C s a ?n" by (rule D(3) [OF a])
  have er: "el_rel M s c a t el" by (rule D(8) [OF a el])
  have cr: "rvCalls c' = rvCalls c" "rvReplies c' = rvReplies c - {(a, p, t, reply)}" by (simp_all add: c' setNode_def)
  have main: "sim M C c' s'" if s': "arun (set M) a s s'" "base M C s'" "node_rel C s' a n'" "el_rel M s' c' a t el'" for s'
  proof (rule sim_extend [OF ok sim s'(1,2)])
    have l: "local_step a s s'" using s'(1) by (simp add: arun_def)
    show "once c'" using D(2) unfolding once_def cr by blast
    show "el_rel M s' c' x u e" if x: "x \<in> set M" "elections c' x u = Some e" for x u e
    proof (cases "x = a \<and> u = t")
      case True
      then show ?thesis using x s'(4) by (simp add: c')
    next
      case False
      then have "elections c x u = Some e" using x(2) by (auto simp: c' split: if_splits)
      then show ?thesis using el_rel_uncounted [OF D(8) [OF x(1)] l] cr by auto
    qed
  qed (use s'(3) in \<open>auto simp: c' setNode_def\<close>)
  have keep: "el_rel M s' c' a t el" if "arun (set M) a s s'" for s'
    using el_rel_uncounted [OF er] that cr by (auto simp: arun_def)
  consider (higher) "currentTerm ?n < rvrTerm reply" | (idle) "el' = el" "n' = ?n"
    | (count) "role ?n = Candidate" "currentTerm ?n = t" "rvrVoteGranted reply" "el' = el\<lparr>elVotes := elVotes el + 1\<rparr>"
        "n' = (if elQuorum el' \<le> elVotes el' then becomeLeaderLocked ?n else ?n)"
    using h er by (auto simp: handleVoteReply_def Let_def el_rel_def split: if_splits)
  then show ?thesis
  proof cases
    case higher
    then have "el' = el" "n' = snd (snd (observeTermLocked ev (rvrTerm reply) ?n))"
      using h by (auto simp: handleVoteReply_def)
    then show ?thesis using sim_observe [OF D(1) n ev higher] main keep by blast
  next
    case idle
    then show ?thesis using main [OF arun_refl D(1)] n keep [OF arun_refl] arun_refl by blast
  next
    case count
    have "p \<noteq> a" using rvr by (simp add: rvr_rel_def)
    then have e1: "el_rel M s c' a t el'" using el_rel_count [OF er rep D(2) rvr count(3) _ cr] count(4) by simp
    show ?thesis
    proof (cases "elQuorum el' \<le> elVotes el'")
      case False
      then show ?thesis using main [OF arun_refl D(1)] n e1 count(5) arun_refl by auto
    next
      case True
      obtain S where S: "S \<subseteq> set M - {a}" "elVotes el' = 1 + card S" "\<forall>q \<in> S. avote s q t = Some a" "elQuorum el' = quorumSize (length M)"
        using e1 by (auto simp: el_rel_def)
      obtain s' where s': "arun (set M) a s s'" "base M C s'" "node_rel C s' a (becomeLeaderLocked ?n)"
        using sim_become_leader [OF D(1) n a count(1) S(1)] S True count(2) by auto
      have "el_rel M s' c' a t el'" using el_rel_uncounted [OF e1] s'(1) by (auto simp: arun_def)
      then show ?thesis using main s' True count(5) by auto
    qed
  qed
qed

lemma request_rel:
  assumes ok: "cluster_ok M C" and b: "base M C s" and n: "node_rel C s a n" and a: "a \<in> set M" and role: "role n = Leader"
    and p: "p \<in> set (peers n)" and r: "r = buildRequest n p"
  shows "ae_rel M s a r"
proof -
  note B = build_spec [OF r]
  let ?t = "currentTerm n"
  have reach: "areach (majority (set M)) s" using b by (simp add: base_def)
  have l: "ldr s ?t = Some a" "llog s ?t = log n" using node_relD(14) [OF n role] by (auto simp: leader_rel_def)
  have off: "logOffset n = 0" by (rule node_relD(4) [OF n])
  have mc: "may_commit (majority (set M)) s a (commitIndex n)"
    using arun_inv [OF reach] node_relD(10) [OF n] by (auto simp: raft_inv_def commit_inv_def dest: spec [of _ a])
  have "commit_ok (set M) s ?t (commitIndex n)"
    using mc l node_relD(8,9) [OF n] by (simp add: may_commit_def commit_ok_def)
  moreover have "commitIndex n \<le> length (log n)" using mc node_relD(9) [OF n] by (simp add: may_commit_def)
  moreover have "p \<in> set M" "p \<noteq> a" using p peers_members(2) [OF ok a node_relD(3) [OF n]] by auto
  ultimately show ?thesis using B l a off unfolding ae_rel_def Let_def
    by (intro conjI exI [of _ "length (log n)"]) (simp_all add: lastLogIndexLocked_def)
qed

lemma step_Broadcast:
  assumes ok: "cluster_ok M C" and sim: "sim M C c s" and a: "a \<in> set M"
    and h: "broadcastAppendEntries (nodeAt c a) = Some (t, reqs)"
  shows "\<exists>s'. arun (set M) a s s' \<and> sim M C (c\<lparr>aeCalls := aeCalls c \<union> {(a, r) | r. r \<in> set reqs}\<rparr>) s'"
proof -
  note D = simD [OF ok sim]
  have role: "role (nodeAt c a) = Leader" and reqs: "reqs = map (buildRequest (nodeAt c a)) (peers (nodeAt c a))"
    using h by (auto simp: broadcastAppendEntries_def buildAppendEntriesRequestsLocked_def split: if_splits)
  have "sim M C (c\<lparr>aeCalls := aeCalls c \<union> {(a, r) | r. r \<in> set reqs}\<rparr>) s"
  proof (rule sim_extend_quiet [OF ok sim arun_refl D(1) D(3) [OF a]])
    show "c\<lparr>aeCalls := aeCalls c \<union> {(a, r) | r. r \<in> set reqs}\<rparr>
      = (setNode a (nodeAt c a) c)\<lparr>aeCalls := aeCalls c \<union> {(a, r) | r. r \<in> set reqs}, aeReplies := aeReplies c\<rparr>"
      by (simp add: setNode_def)
    show "ae_rel M s x r" if "(x, r) \<in> aeCalls c \<union> {(a, r) | r. r \<in> set reqs}" "(x, r) \<notin> aeCalls c" for x r
      using that request_rel [OF ok D(1) D(3) [OF a] a role] by (auto simp: reqs)
  qed simp
  then show ?thesis using arun_refl by blast
qed

lemma step_DeliverAppend:
  assumes ok: "cluster_ok M C" and sim: "sim M C c s" and call: "(a, r) \<in> aeCalls c" and ev: "healthy ev"
    and h: "AppendEntries ev (oaReq r) (nodeAt c (oaPeer r)) = (Inr reply, n')"
  shows "\<exists>s'. arun (set M) (oaPeer r) s s' \<and>
    sim M C ((setNode (oaPeer r) n' c)\<lparr>aeReplies := insert (a, r, reply) (aeReplies c)\<rparr>) s'"
proof -
  note D = simD [OF ok sim]
  have ae: "ae_rel M s a r" and p: "oaPeer r \<in> set M" using D(6) [OF call] by (auto simp: ae_rel_def)
  obtain s' where s': "arun (set M) (oaPeer r) s s'" "base M C s'" "node_rel C s' (oaPeer r) n'" "aer_rel M s' a r reply"
    using sim_append [OF D(1) D(3) [OF p] ev ae refl h] by blast
  have "sim M C ((setNode (oaPeer r) n' c)\<lparr>aeReplies := insert (a, r, reply) (aeReplies c)\<rparr>) s'"
    by (rule sim_extend_quiet [OF ok sim s'(1-3), where ac = "aeCalls c" and ar = "insert (a, r, reply) (aeReplies c)"])
      (use s'(4) in \<open>auto simp: setNode_def\<close>)
  then show ?thesis using s'(1) by blast
qed

lemma rel_volatile [simp]:
  "leader_rel s a (n\<lparr>waiters := ws\<rparr>) = leader_rel s a n" "cand_rel s a (n\<lparr>waiters := ws\<rparr>) = cand_rel s a n"
  "leader_rel s a (n\<lparr>nextChan := k\<rparr>) = leader_rel s a n" "cand_rel s a (n\<lparr>nextChan := k\<rparr>) = cand_rel s a n"
  "leader_rel s a (n\<lparr>chans := cs\<rparr>) = leader_rel s a n" "cand_rel s a (n\<lparr>chans := cs\<rparr>) = cand_rel s a n"
  by (simp_all add: leader_rel_def cand_rel_def)

lemma node_rel_volatile:
  "node_rel C s a n \<Longrightarrow> node_rel C s a (n\<lparr>waiters := ws, nextChan := k\<rparr>)"
  "node_rel C s a n \<Longrightarrow> node_rel C s a (n\<lparr>waiters := ws\<rparr>)"
  "node_rel C s a n \<Longrightarrow> node_rel C s a (n\<lparr>chans := cs\<rparr>)"
  by (simp_all add: node_rel_def)

lemma step_Propose:
  assumes ok: "cluster_ok M C" and sim: "sim M C c s" and a: "a \<in> set M" and ev: "healthy ev" and f: "fits cmd (nodeAt c a)"
  shows "Propose ev cmd (nodeAt c a) = (res, n') \<Longrightarrow> \<exists>s'. arun (set M) a s s' \<and> sim M C (setNode a n' c) s'"
    and "proposeBegin ev cmd (nodeAt c a) = (res', n') \<Longrightarrow> \<exists>s'. arun (set M) a s s' \<and> sim M C (setNode a n' c) s'"
proof -
  note D = simD [OF ok sim]
  let ?n = "nodeAt c a"
  have n: "node_rel C s a ?n" by (rule D(3) [OF a])
  show "\<exists>s'. arun (set M) a s s' \<and> sim M C (setNode a n' c) s'" if h: "Propose ev cmd ?n = (res, n')"
  proof (cases "role ?n = Leader")
    case False
    then show ?thesis using h sim_node_only [OF ok sim arun_refl D(1) n] by (simp add: Propose_def)
  next
    case True
    then show ?thesis using h sim_propose [OF D(1) n True ev f] sim_node_only [OF ok sim] by (auto simp: Propose_def)
  qed
  show "\<exists>s'. arun (set M) a s s' \<and> sim M C (setNode a n' c) s'" if h: "proposeBegin ev cmd ?n = (res', n')"
  proof (cases "role ?n = Leader")
    case False
    then show ?thesis using h sim_node_only [OF ok sim arun_refl D(1) n] by (simp add: proposeBegin_def)
  next
    case True
    then obtain s' d e where s': "arun (set M) a s s'" "base M C s'" "node_rel C s' a (?n\<lparr>dir := d, log := log ?n @ [e]\<rparr>)"
      "appendLocalLocked ev cmd ?n = (length (log ?n) + 1, currentTerm ?n, None, ?n\<lparr>dir := d, log := log ?n @ [e]\<rparr>)"
      using sim_propose [OF D(1) n True ev f] by blast
    have "node_rel C s' a n'" using h True s'(4) node_rel_volatile(1) [OF s'(3)] by (auto simp: proposeBegin_def)
    then show ?thesis using sim_node_only [OF ok sim s'(1,2)] by blast
  qed
qed

lemma crash_disk:
  assumes ok: "cluster_ok M C" and sim: "sim M C c s" and a: "a \<in> set M" and i: "interrupted c a n1"
  shows "\<exists>s'. arun (set M) a s s' \<and> base M C s' \<and> disk_rel C s' a (dir n1)"
proof -
  note D = simD [OF ok sim]
  have n: "node_rel C s a (nodeAt c a)" by (rule D(3) [OF a])
  from i show ?thesis
  proof cases
    case idle
    then show ?thesis using D(1) disk_rel_node [OF n] arun_refl by blast
  next
    case (voting b req ev)
    then show ?thesis using crash_vote [OF D(1) n D(4)] by blast
  next
    case (appending b r ev)
    then show ?thesis using crash_append [OF D(1) n D(6)] by blast
  next
    case (standing ev)
    then show ?thesis using crash_stand [OF D(1) n a] by blast
  next
    case (proposing cmd ev)
    then show ?thesis using crash_propose [OF D(1) n] by blast
  qed
qed

lemma step_Crash:
  assumes ok: "cluster_ok M C" and sim: "sim M C c s" and a: "a \<in> set M" and i: "interrupted c a n1" and ev: "healthy ev"
    and h: "NewNode ev (C a) (dir n1) = Inr n'"
  shows "\<exists>s'. arun (set M) a s s' \<and> sim M C (forgetElections a (setNode a n' c)) s'"
proof -
  note D = simD [OF ok sim]
  obtain s1 where s1: "arun (set M) a s s1" "base M C s1" "disk_rel C s1 a (dir n1)"
    using crash_disk [OF ok sim a i] by blast
  obtain s' where s': "arun (set M) a s1 s'" "base M C s'" "node_rel C s' a n'"
    using sim_restart [OF s1(2) a ev s1(3) h] by blast
  have run: "arun (set M) a s s'" by (rule arun_trans [OF s1(1) s'(1)])
  have "sim M C (forgetElections a (setNode a n' c)) s'"
  proof (rule sim_extend [OF ok sim run s'(2)])
    show "once (forgetElections a (setNode a n' c))" using D(2) by (simp add: once_def forgetElections_def setNode_def)
    show "el_rel M s' (forgetElections a (setNode a n' c)) x t e"
      if "x \<in> set M" "elections (forgetElections a (setNode a n' c)) x t = Some e" for x t e
      using that run el_rel_uncounted [OF D(8) [OF that(1)], of t e a s']
      by (auto simp: forgetElections_def setNode_def arun_def split: if_splits)
  qed (use s'(3) in \<open>auto simp: forgetElections_def setNode_def\<close>)
  then show ?thesis using run by blast
qed

lemma sim_step:
  assumes "cluster_ok M C" "sim M C c s" "cstep M C c c'"
  shows "\<exists>s' a. arun (set M) a s s' \<and> sim M C c' s'"
  using assms(3)
proof cases
  case (Timeout a ev el n')
  then show ?thesis using step_Timeout [OF assms(1,2) Timeout(2-5,1)] by blast
next
  case (SelfElect a t el)
  then show ?thesis using step_SelfElect [OF assms(1,2)] by blast
next
  case (DeliverVote a p req ev reply n')
  then show ?thesis using step_DeliverVote [OF assms(1,2) DeliverVote(2-4,1)] by blast
next
  case (VoteReply a p t reply ev el el' n')
  then show ?thesis using step_VoteReply [OF assms(1,2) VoteReply(2-5,1)] by blast
next
  case (Broadcast a t reqs)
  then show ?thesis using step_Broadcast [OF assms(1,2)] by blast
next
  case (DeliverAppend a r ev reply n')
  then show ?thesis using step_DeliverAppend [OF assms(1,2)] by blast
next
  case (AppendReply a r reply ev ok n')
  have aer: "aer_rel M s a r reply" by (rule simD(7) [OF assms(1,2) AppendReply(2)])
  then have a: "a \<in> set M" by (simp add: aer_rel_def)
  show ?thesis unfolding AppendReply(1)
    using sim_reply [OF simD(1) [OF assms(1,2)] simD(3) [OF assms(1,2) a] a AppendReply(3) aer AppendReply(4)]
      sim_node_only [OF assms(1,2)] by blast
next
  case (ClientPropose a ev cmd res n')
  then show ?thesis using step_Propose(1) [OF assms(1,2)] by blast
next
  case (ClientProposeSync a ev cmd res' n')
  then show ?thesis using step_Propose(2) [OF assms(1,2)] by blast
next
  case (ClientReceive a ch v n')
  have "node_rel C s a n'" using ClientReceive(3) simD(3) [OF assms(1,2) ClientReceive(2)] node_rel_volatile(3)
    by (auto simp: proposeReceive_def split: list.splits)
  then show ?thesis unfolding ClientReceive(1)
    using sim_node_only [OF assms(1,2) arun_refl simD(1) [OF assms(1,2)]] by blast
next
  case (ClientCancel a i)
  have "node_rel C s a (proposeCancel i (nodeAt c a))"
    using simD(3) [OF assms(1,2) ClientCancel(2)] node_rel_volatile(2) by (simp add: proposeCancel_def)
  then show ?thesis unfolding ClientCancel(1)
    using sim_node_only [OF assms(1,2) arun_refl simD(1) [OF assms(1,2)]] by blast
next
  case (CrashRestart a n1 ev n')
  then show ?thesis using step_Crash [OF assms(1,2)] by blast
qed

lemma sim_start:
  assumes "cluster_ok M C" "cluster_start M C c"
  shows "sim M C c ainit"
proof -
  have "node_rel C ainit a (nodeAt c a)" if a: "a \<in> set M" for a
  proof -
    obtain ev where ev: "healthy ev" "NewNode ev (C a) emptyDir = Inr (nodeAt c a)"
      using assms(2) a by (auto simp: cluster_start_def)
    have "disk_rel C ainit a emptyDir"
      by (rule disk_rel_stored)
        (simp_all add: ainit_def emptyDir_def stored_def logBytes_def positional_def LoadState_def vote_text_def)
    moreover have "ainit\<lparr>acommit := (acommit ainit)(a := 0)\<rparr> = ainit" by (simp add: ainit_def fun_eq_iff)
    ultimately show ?thesis using restart_node [OF assms(1) a ev(1) _ ev(2)] by metis
  qed
  then show ?thesis using assms(2)
    by (auto simp: sim_def cluster_start_def areach_init llogs_ok_def voters_ok_def once_def) (simp_all add: ainit_def)
qed

lemma sim_run:
  assumes "(cstep M C)\<^sup>*\<^sup>* c c'" "cluster_ok M C" "sim M C c s"
  shows "\<exists>s'. (astep (majority (set M)))\<^sup>*\<^sup>* s s' \<and> sim M C c' s'"
  using assms(1)
proof (induction rule: rtranclp_induct)
  case base
  then show ?case using assms(3) by blast
next
  case (step c1 c2)
  then obtain s1 where s1: "(astep (majority (set M)))\<^sup>*\<^sup>* s s1" "sim M C c1 s1" by blast
  from sim_step [OF assms(2) s1(2) step(2)] obtain s2 where "(astep (majority (set M)))\<^sup>*\<^sup>* s1 s2" "sim M C c2 s2"
    by (auto simp: arun_def)
  then show ?case using s1(1) by (meson rtranclp_trans)
qed

text \<open>Two states of one run, the second reached from the first, and their abstractions.\<close>

lemma sim_two:
  assumes ok: "cluster_ok M C" and "creach M C c" "(cstep M C)\<^sup>*\<^sup>* c c'"
  obtains s s' where "sim M C c s" "sim M C c' s'" "(astep (majority (set M)))\<^sup>*\<^sup>* s s'"
    "raft_inv (majority (set M)) s" "raft_inv (majority (set M)) s'" "grows s s'"
proof -
  obtain c0 where c0: "cluster_start M C c0" "(cstep M C)\<^sup>*\<^sup>* c0 c" using assms(2) by (auto simp: creach_def)
  obtain s where s: "sim M C c s" using sim_run [OF c0(2) ok sim_start [OF ok c0(1)]] by blast
  obtain s' where s': "(astep (majority (set M)))\<^sup>*\<^sup>* s s'" "sim M C c' s'" using sim_run [OF assms(3) ok s] by blast
  have i: "raft_inv (majority (set M)) s" using s arun_inv by (auto simp: sim_def)
  show ?thesis using that [OF s s'(2,1) i] maj.run_grows [OF s'(1) i] by blast
qed

end
