(* ===== verification/Raft_Run.thy ===== *)
theory Raft_Run
  imports Raft_Cluster
begin

text \<open>
  A run of the cluster of \<open>Raft_Cluster\<close> on concrete data, evaluated through the handlers: three nodes,
  the first stands for election, is elected with the second's vote, accepts a command, replicates it to
  the second, commits and applies it, and tells the second. The safety properties are instantiated
  on its states.
\<close>

section \<open>The nodes\<close>


definition demoMembers :: "addr list" where
  "demoMembers = [''a'', ''b'', ''c'']"

definition demoConfig :: "addr \<Rightarrow> Config" where
  "demoConfig x = \<lparr>cfgID = x, cfgAddress = x, cfgPeers = filter (\<lambda>b. b \<noteq> x) demoMembers,
     cfgTiming = \<lparr>ElectionTimeoutMin = 150, ElectionTimeoutMax = 300, HeartbeatInterval = 50\<rparr>,
     cfgLogCapacity = 0, cfgLocalSnapshot = None\<rparr>"

definition demoNode :: "addr \<Rightarrow> node" where
  "demoNode x = projr (NewNode calm (demoConfig x) emptyDir)"

definition demoElection :: election where
  "demoElection = the (fst (startElection calm (demoNode ''a'')))"

definition demoCandidate :: node where
  "demoCandidate = snd (startElection calm (demoNode ''a''))"

definition demoVote :: RequestVoteReply where
  "demoVote = projr (fst (RequestVote calm (elReq demoElection) (demoNode ''b'')))"

definition demoVoter :: node where
  "demoVoter = snd (RequestVote calm (elReq demoElection) (demoNode ''b''))"

definition demoLeader :: node where
  "demoLeader = snd (handleVoteReply calm demoVote demoElection demoCandidate)"

definition demoProposer :: node where
  "demoProposer = snd (Propose calm [7] demoLeader)"

definition demoRequest :: outgoingAppendEntries where
  "demoRequest = buildRequest demoProposer ''b''"

definition demoAck :: AppendEntriesReply where
  "demoAck = projr (fst (AppendEntries calm (oaReq demoRequest) demoVoter))"

definition demoFollower :: node where
  "demoFollower = snd (AppendEntries calm (oaReq demoRequest) demoVoter)"

definition demoCommitter :: node where
  "demoCommitter = snd (handleSendReply calm (aeTerm (oaReq demoRequest)) demoRequest (Some demoAck) demoProposer)"

definition demoNotice :: outgoingAppendEntries where
  "demoNotice = buildRequest demoCommitter ''b''"

definition demoApplier :: node where
  "demoApplier = snd (AppendEntries calm (oaReq demoNotice) demoFollower)"

section \<open>Evaluation\<close>

text \<open>The one entry of the run.\<close>

abbreviation "seven \<equiv> \<lparr>Term = 1, Index = 1, Command = [7]\<rparr>"

lemma demoNode_eq: "demoNode x = \<lparr>nid = x, address = x, peers = filter (\<lambda>b. b \<noteq> x) demoMembers,
   timing = \<lparr>ElectionTimeoutMin = 150, ElectionTimeoutMax = 300, HeartbeatInterval = 50\<rparr>,
   logCapacity = 1000, dir = emptyDir\<lparr>logFile := Some []\<rparr>, currentTerm = 0, votedFor = '''', log = [], logOffset = 0,
   currentSnapshotPath = '''', role = Follower, commitIndex = 0, lastApplied = 0, nextIndex = [], matchIndex = [],
   currentLeader = '''', lastHeartbeat = 0, electionTimeout = 150, lastAppendEntriesAt = None, wakeups = 0,
   waiters = [], chans = (\<lambda>_. []), nextChan = 0, smOps = []\<rparr>"
  by (simp add: demoNode_def NewNode_def demoConfig_def emptyDir_def LoadState_def ReadAllLogEntries_def logBytes_def
      baseline_def fallbackBaseline_def resetElectionDeadlineLocked_def calm_def defaultLogCapacityEntries_def)

lemmas demo_election_defs = demoVote_def demoElection_def demoCandidate_def election_defs observeTermLocked_def
  isLogAtLeastAsUpToDate_def lastLogTermLocked_def lastLogIndexLocked_def demoNode_eq setRoleLocked_def
  persistStateLocked_ok calm_def resetElectionDeadlineLocked_def demoMembers_def quorumSize_def

lemma demoStands: "startElection calm (demoNode ''a'') = (Some demoElection, demoCandidate)"
  by (simp add: demo_election_defs)

lemma demoElection_eq: "demoElection = \<lparr>elTerm = 1, elReq = \<lparr>rvTerm = 1, rvCandidateId = ''a'',
   rvLastLogIndex = 0, rvLastLogTerm = 0\<rparr>, elQuorum = 2, elVotes = 1\<rparr>"
  by (simp add: demo_election_defs)

lemma demoCandidate_peers [simp]: "peers demoCandidate = [''b'', ''c'']"
  by (simp add: demo_election_defs)

lemma demoVotes: "RequestVote calm (elReq demoElection) (demoNode ''b'') = (Inr demoVote, demoVoter)"
  by (simp add: demo_election_defs demoVoter_def)

lemma demoVote_eq: "demoVote = \<lparr>rvrTerm = 1, rvrVoteGranted = True\<rparr>"
  by (simp add: demo_election_defs)

lemma demoLeader_eq: "demoLeader = (demoNode ''a'')\<lparr>role := Leader, currentTerm := 1, votedFor := ''a'',
   dir := emptyDir\<lparr>logFile := Some [], stateJson := SavedState 1 ''a''\<rparr>, currentLeader := ''a'',
   nextIndex := [(''b'', 1), (''c'', 1)], matchIndex := [(''b'', 0), (''c'', 0)]\<rparr>"
  by (simp add: demoLeader_def demo_election_defs)

lemma demoVoter_eq: "demoVoter = (demoNode ''b'')\<lparr>currentTerm := 1, votedFor := ''a'',
   dir := emptyDir\<lparr>logFile := Some [], stateJson := SavedState 1 ''a''\<rparr>\<rparr>"
  by (simp add: demo_election_defs demoVoter_def)

lemmas demo_log_defs = Let_def calm_def logBytes_def lastLogIndexLocked_def entryAtLocked_def
  appendToLog_def AppendLogEntries_def demoNode_eq

lemmas demo_append_defs = AppendEntries_def appendAtTerm_def appendAsFollower_def acceptAppend_def
  mergeEntriesLocked_def entryOfPb_def setRoleLocked_def resetElectionDeadlineLocked_def min64_def

lemmas demo_apply_defs = applyCommittedLocked_def applyLoop.simps applyOne_def notifyWaiter_def applyOp_def

lemma demoProposer_eq: "demoProposer = demoLeader\<lparr>log := [seven],
    dir := (dir demoLeader)\<lparr>logFile := Some (records [seven])\<rparr>\<rparr>"
  by (simp add: demoProposer_def Propose_def appendLocalLocked_def demoLeader_eq demo_log_defs)

lemma demoFits: "fits [7] demoLeader"
  by (simp add: fits_def demoLeader_eq demoNode_eq lastLogIndexLocked_def entry_ok_def gobEncode_def typeDef_def gobValue_def
      encUintField_def encBytesField_def gobField_def gobString_def gobUint_def asciiBytes_def)

lemma demoRequest_eq: "demoRequest = \<lparr>oaPeer = ''b'', oaReq = \<lparr>aeTerm = 1, aeLeaderId = ''a'', aePrevLogIndex = 0,
    aePrevLogTerm = 0, aeEntries = [\<lparr>peTerm = 1, peIndex = 1, peCommand = [7]\<rparr>], aeLeaderCommit = 0\<rparr>,
    oaPrevIndex = 0, oaNumEntries = 1\<rparr>"
  by (simp add: demoRequest_def buildRequest_def demoProposer_eq demoLeader_eq gm_get_def pbOfEntry_def demo_log_defs)

lemma demoAppend: "AppendEntries calm (oaReq demoRequest) demoVoter =
   (Inr \<lparr>aerTerm = 1, aerSuccess = True, aerConflictIndex = 0, aerConflictTerm = 0\<rparr>,
    demoVoter\<lparr>log := [seven], dir := (dir demoVoter)\<lparr>logFile := Some (records [seven])\<rparr>, currentLeader := ''a'',
      lastAppendEntriesAt := Some 0\<rparr>)"
  by (simp add: demo_append_defs demoRequest_eq demoVoter_eq demo_log_defs)

lemma demoAck_eq: "demoAck = \<lparr>aerTerm = 1, aerSuccess = True, aerConflictIndex = 0, aerConflictTerm = 0\<rparr>"
  by (simp add: demoAck_def demoAppend)

lemma demoFollower_eq: "demoFollower = demoVoter\<lparr>log := [seven], dir := (dir demoVoter)\<lparr>logFile := Some (records [seven])\<rparr>,
    currentLeader := ''a'', lastAppendEntriesAt := Some 0\<rparr>"
  by (simp add: demoFollower_def demoAppend)

lemma demoReply: "handleSendReply calm 1 demoRequest (Some demoAck) demoProposer
  = (True, demoProposer\<lparr>matchIndex := [(''b'', 1), (''c'', 0)], nextIndex := [(''b'', 2), (''c'', 1)],
      commitIndex := 1, lastApplied := 1, wakeups := 1, smOps := [applyOp seven]\<rparr>)"
  by (simp add: handleSendReply_def handleAppendEntriesReplyLocked_def maybeAdvanceCommitIndexLocked_def demoAck_eq
      demoRequest_eq demoProposer_eq demoLeader_eq gm_get_def quorumSize_def demoMembers_def demo_log_defs demo_apply_defs)

lemma demoCommitter_eq: "demoCommitter = demoProposer\<lparr>matchIndex := [(''b'', 1), (''c'', 0)],
    nextIndex := [(''b'', 2), (''c'', 1)], commitIndex := 1, lastApplied := 1, wakeups := 1, smOps := [applyOp seven]\<rparr>"
  using demoReply by (simp add: demoCommitter_def demoRequest_eq)

lemma demoNotice_eq: "demoNotice = \<lparr>oaPeer = ''b'', oaReq = \<lparr>aeTerm = 1, aeLeaderId = ''a'', aePrevLogIndex = 1,
    aePrevLogTerm = 1, aeEntries = [], aeLeaderCommit = 1\<rparr>, oaPrevIndex = 1, oaNumEntries = 0\<rparr>"
  by (simp add: demoNotice_def demoCommitter_eq buildRequest_def demoProposer_eq demoLeader_eq gm_get_def demo_log_defs)

lemma demoNotified: "AppendEntries calm (oaReq demoNotice) demoFollower =
    (Inr demoAck, demoFollower\<lparr>commitIndex := 1, lastApplied := 1, wakeups := 1, smOps := [applyOp seven]\<rparr>)"
  by (simp add: demoNotice_eq demoAck_eq demo_append_defs demoFollower_eq demoVoter_eq demo_log_defs demo_apply_defs)

lemma demoApplier_eq: "demoApplier = demoFollower\<lparr>commitIndex := 1, lastApplied := 1, wakeups := 1, smOps := [applyOp seven]\<rparr>"
  by (simp add: demoApplier_def demoNotified)

section \<open>The states of the cluster\<close>

definition dc0 :: cluster where
  "dc0 = \<lparr>nodeAt = demoNode, elections = (\<lambda>_ _. None), rvCalls = {}, rvReplies = {}, aeCalls = {}, aeReplies = {}\<rparr>"

definition dc1 :: cluster where
  "dc1 = (setNode ''a'' demoCandidate dc0)\<lparr>
     elections := (elections dc0)(''a'' := (elections dc0 ''a'')(elTerm demoElection := Some demoElection)),
     rvCalls := rvCalls dc0 \<union> {(''a'', p, elReq demoElection) | p. p \<in> set (peers demoCandidate)}\<rparr>"

definition dc2 :: cluster where
  "dc2 = (setNode ''b'' demoVoter dc1)\<lparr>rvCalls := rvCalls dc1 - {(''a'', ''b'', elReq demoElection)},
     rvReplies := insert (''a'', ''b'', rvTerm (elReq demoElection), demoVote) (rvReplies dc1)\<rparr>"

definition dc3 :: cluster where
  "dc3 = (setNode ''a'' demoLeader dc2)\<lparr>
     elections := (elections dc2)(''a'' := (elections dc2 ''a'')(1 := Some (fst (handleVoteReply calm demoVote demoElection demoCandidate)))),
     rvReplies := rvReplies dc2 - {(''a'', ''b'', 1, demoVote)}\<rparr>"

definition dc4 :: cluster where
  "dc4 = setNode ''a'' demoProposer dc3"

definition dc5 :: cluster where
  "dc5 = dc4\<lparr>aeCalls := aeCalls dc4 \<union> {(''a'', r) | r. r \<in> set (snd (buildAppendEntriesRequestsLocked demoProposer))}\<rparr>"

definition dc6 :: cluster where
  "dc6 = (setNode (oaPeer demoRequest) demoFollower dc5)\<lparr>aeReplies := insert (''a'', demoRequest, demoAck) (aeReplies dc5)\<rparr>"

definition dc7 :: cluster where
  "dc7 = setNode ''a'' demoCommitter dc6"

definition dc8 :: cluster where
  "dc8 = dc7\<lparr>aeCalls := aeCalls dc7 \<union> {(''a'', r) | r. r \<in> set (snd (buildAppendEntriesRequestsLocked demoCommitter))}\<rparr>"

definition dc9 :: cluster where
  "dc9 = (setNode (oaPeer demoNotice) demoApplier dc8)\<lparr>aeReplies := insert (''a'', demoNotice, demoAck) (aeReplies dc8)\<rparr>"

lemmas dc_defs = dc1_def dc2_def dc3_def dc4_def dc5_def dc6_def dc7_def dc8_def dc9_def setNode_def

lemma demo_ok: "cluster_ok demoMembers demoConfig"
  by (auto simp: cluster_ok_def demoMembers_def demoConfig_def)

lemma demo_start: "cluster_start demoMembers demoConfig dc0"
proof -
  have "NewNode calm (demoConfig x) emptyDir = Inr (demoNode x)" for x
    by (simp add: demoNode_def NewNode_def demoConfig_def emptyDir_def LoadState_def ReadAllLogEntries_def logBytes_def calm_def
        baseline_def fallbackBaseline_def)
  then show ?thesis by (auto simp: cluster_start_def dc0_def intro!: exI [of _ calm])
qed

lemma demo_members [simp]: "''a'' \<in> set demoMembers" "''b'' \<in> set demoMembers"
  by (simp_all add: demoMembers_def)

lemma demo_peers [simp]: "peers demoProposer = [''b'', ''c'']" "peers demoCommitter = [''b'', ''c'']"
  by (simp_all add: demoCommitter_eq demoProposer_eq demoLeader_eq demoNode_eq demoMembers_def)

lemma demo_targets [simp]: "oaPeer demoRequest = ''b''" "oaPeer demoNotice = ''b''" "aeTerm (oaReq demoRequest) = 1"
  by (simp_all add: demoRequest_eq demoNotice_eq)

lemma demo_sent: "demoRequest \<in> set (snd (buildAppendEntriesRequestsLocked demoProposer))"
  "demoNotice \<in> set (snd (buildAppendEntriesRequestsLocked demoCommitter))"
  by (simp_all add: buildAppendEntriesRequestsLocked_def demoRequest_def demoNotice_def)

lemma demo_step1: "cstep demoMembers demoConfig dc0 dc1"
  unfolding dc1_def by (rule Timeout [of _ _ calm]) (simp_all add: dc0_def demoStands, simp add: demoNode_eq)

lemma demo_step2: "cstep demoMembers demoConfig dc1 dc2"
  unfolding dc2_def by (rule DeliverVote [of _ _ _ _ calm]) (simp_all add: dc_defs dc0_def demoVotes)

lemma demo_step3: "cstep demoMembers demoConfig dc2 dc3"
  unfolding dc3_def by (rule VoteReply [of _ _ _ _ _ calm demoElection])
    (simp_all add: dc_defs dc0_def demoElection_eq demoLeader_def)

lemma demo_step4: "cstep demoMembers demoConfig dc3 dc4"
  unfolding dc4_def by (rule ClientPropose [of _ _ calm "[7]"])
    (simp_all add: dc_defs demoFits demoProposer_def prod_eq_iff)

lemma demo_step5: "cstep demoMembers demoConfig dc4 dc5"
  unfolding dc5_def by (rule Broadcast)
    (simp_all add: dc4_def setNode_def broadcastAppendEntries_def demoProposer_eq demoLeader_eq prod_eq_iff)

lemma demo_step6: "cstep demoMembers demoConfig dc5 dc6"
  unfolding dc6_def by (rule DeliverAppend [of _ _ _ calm])
    (simp_all add: dc_defs demo_sent demoAppend demoAck_eq demoFollower_eq)

lemma demo_step7: "cstep demoMembers demoConfig dc6 dc7"
  unfolding dc7_def by (rule AppendReply [of _ demoRequest demoAck _ calm])
    (simp_all add: dc_defs demoReply [simplified] demoCommitter_eq)

lemma demo_step8: "cstep demoMembers demoConfig dc7 dc8"
  unfolding dc8_def by (rule Broadcast)
    (simp_all add: dc7_def setNode_def broadcastAppendEntries_def demoCommitter_eq demoProposer_eq demoLeader_eq prod_eq_iff)

lemma demo_step9: "cstep demoMembers demoConfig dc8 dc9"
  unfolding dc9_def by (rule DeliverAppend [of _ _ _ calm])
    (simp_all add: dc_defs demo_sent demoNotified demoApplier_eq)

lemma demo_steps: "(cstep demoMembers demoConfig)\<^sup>*\<^sup>* dc0 dc7" "(cstep demoMembers demoConfig)\<^sup>*\<^sup>* dc7 dc9"
  using demo_step1 demo_step2 demo_step3 demo_step4 demo_step5 demo_step6 demo_step7 demo_step8 demo_step9
  by (meson converse_rtranclp_into_rtranclp rtranclp.rtrancl_refl)+

lemma demo_reach: "creach demoMembers demoConfig dc7" "creach demoMembers demoConfig dc9"
  using demo_start demo_steps unfolding creach_def by (meson rtranclp_trans)+

lemma demo_nodes [simp]:
  "nodeAt dc7 ''a'' = demoCommitter" "nodeAt dc7 ''b'' = demoFollower"
  "nodeAt dc9 ''a'' = demoCommitter" "nodeAt dc9 ''b'' = demoApplier"
  by (simp_all add: dc_defs)

lemma demo_fields [simp]:
  "role demoCommitter = Leader" "currentTerm demoCommitter = 1" "log demoCommitter = [seven]" "commitIndex demoCommitter = 1"
  "smOps demoCommitter = [applyOp seven]" "log demoFollower = [seven]" "commitIndex demoFollower = 0" "currentTerm demoFollower = 1"
  "currentTerm demoApplier = 1" "log demoApplier = [seven]" "commitIndex demoApplier = 1" "smOps demoApplier = [applyOp seven]"
  by (simp_all add: demoApplier_eq demoFollower_eq demoVoter_eq demoCommitter_eq demoProposer_eq demoLeader_eq demoNode_eq)

end
