(* ===== verification/Raft_Safety.thy ===== *)
theory Raft_Safety
  imports Raft_Refinement Raft_Run "HOL-Library.Sublist"
begin

text \<open>
  The safety of the consensus core: what holds in every state a cluster of \<open>Raft_Cluster\<close> can reach,
  and between any two states of one run. The facts come from \<open>Raft_Abstract\<close> through the
  simulation of \<open>Raft_Refinement\<close>.
\<close>

section \<open>Facts of a reachable state\<close>

lemma sim_leader:
  assumes "cluster_ok M C" "sim M C c s" "a \<in> set M" "role (nodeAt c a) = Leader"
  shows "ldr s (currentTerm (nodeAt c a)) = Some a" "llog s (currentTerm (nodeAt c a)) = log (nodeAt c a)"
  using node_relD(14) [OF simD(3) [OF assms(1-3)] assms(4)] by (simp_all add: leader_rel_def)

lemma sim_log:
  assumes "cluster_ok M C" "sim M C c s" "a \<in> set M"
  shows "alog s a = log (nodeAt c a)" "acommit s a = commitIndex (nodeAt c a)" "aterm s a = currentTerm (nodeAt c a)"
    "appliedEntries c a = map applyOp (take (commitIndex (nodeAt c a)) (log (nodeAt c a)))"
  using node_relD(8,9,10,13) [OF simD(3) [OF assms]] by (simp_all add: appliedEntries_def)

lemma one_leader:
  assumes ok: "cluster_ok M C" and "creach M C c" "(cstep M C)\<^sup>*\<^sup>* c c'" and m: "a \<in> set M" "b \<in> set M"
    and l: "role (nodeAt c a) = Leader" "role (nodeAt c' b) = Leader" "currentTerm (nodeAt c a) = currentTerm (nodeAt c' b)"
  shows "a = b"
proof -
  from sim_two [OF ok assms(2,3)] obtain s s' where s: "sim M C c s" "sim M C c' s'" "grows s s'" by metis
  from grows_ldr [OF s(3) sim_leader(1) [OF ok s(1) m(1) l(1)]] sim_leader(1) [OF ok s(2) m(2) l(2)] l(3)
  show ?thesis by simp
qed

lemma logs_agree:
  assumes ok: "cluster_ok M C" and "creach M C c" and m: "a \<in> set M" "b \<in> set M"
    and i: "i < length (log (nodeAt c a))" "i < length (log (nodeAt c b))"
      "Term (log (nodeAt c a) ! i) = Term (log (nodeAt c b) ! i)"
  shows "take (Suc i) (log (nodeAt c a)) = take (Suc i) (log (nodeAt c b))"
proof -
  from sim_two [OF ok assms(2) rtranclp.rtrancl_refl] obtain s where s: "sim M C c s" "raft_inv (majority (set M)) s" by metis
  have "valid_log s (alog s a)" "valid_log s (alog s b)" using s(2) by (auto simp: raft_inv_def logs_inv_def)
  then show ?thesis using valid_matching [of s "alog s a" "alog s b" i] i
    by (simp add: sim_log(1) [OF ok s(1) m(1)] sim_log(1) [OF ok s(1) m(2)])
qed

lemma committed_in_leader:
  assumes ok: "cluster_ok M C" and "creach M C c" "(cstep M C)\<^sup>*\<^sup>* c c'" and m: "a \<in> set M" "b \<in> set M"
    and j: "j \<le> commitIndex (nodeAt c a)" and l: "role (nodeAt c' b) = Leader"
    and t: "currentTerm (nodeAt c a) \<le> currentTerm (nodeAt c' b)"
  shows "j \<le> length (log (nodeAt c' b)) \<and> take j (log (nodeAt c' b)) = take j (log (nodeAt c a))"
proof (cases "j = 0")
  case False
  from sim_two [OF ok assms(2,3)] obtain s s' where s: "sim M C c s" "sim M C c' s'" "grows s s'"
    "raft_inv (majority (set M)) s" "raft_inv (majority (set M)) s'" by metis
  note A = sim_log [OF ok s(1) m(1)] and L = sim_leader [OF ok s(2) m(2) l]
  have "may_commit (majority (set M)) s a (acommit s a)" using s(4) by (auto simp: raft_inv_def commit_inv_def)
  then obtain k u where u: "committed (majority (set M)) s k u" "acommit s a \<le> k" "u \<le> aterm s a"
    "take (acommit s a) (alog s a) = take (acommit s a) (llog s u)"
    using False j A(2) unfolding may_commit_def by (metis le_zero_eq)
  have ju: "take j (log (nodeAt c a)) = take j (llog s u)" using take_eq_mono [OF u(4)] j A(1,2) by simp
  have jk: "j \<le> k" using j u(2) A(2) by simp
  have "committed (majority (set M)) s' k u" by (rule grows_committed [OF s(3) u(1)])
  from maj.committed_agrees [OF s(5) this, of "currentTerm (nodeAt c' b)"] u(3) t A(3) L(1)
  have ag: "k \<le> length (log (nodeAt c' b))" "take k (log (nodeAt c' b)) = take k (llog s' u)"
    by (simp_all add: agrees_def L(2))
  have "take j (llog s' u) = take j (llog s u)"
    using u(1) jk by (intro grows_llog [OF s(3)]) (auto simp: committed_def)
  then show ?thesis using ag jk ju take_eq_mono [OF ag(2) jk] by simp
qed simp

lemma applied_comparable:
  assumes ok: "cluster_ok M C" and "creach M C c" "(cstep M C)\<^sup>*\<^sup>* c c'" and m: "a \<in> set M" "b \<in> set M"
  shows "prefix (appliedEntries c a) (appliedEntries c' b) \<or> prefix (appliedEntries c' b) (appliedEntries c a)"
proof -
  from sim_two [OF ok assms(2,3)] obtain s s' where s: "sim M C c s" "sim M C c' s'" "(astep (majority (set M)))\<^sup>*\<^sup>* s s'"
    "raft_inv (majority (set M)) s" by metis
  note A = sim_log [OF ok s(1) m(1)] and B = sim_log [OF ok s(2) m(2)]
  let ?ca = "commitIndex (nodeAt c a)" and ?cb = "commitIndex (nodeAt c' b)"
  have eq: "take j (log (nodeAt c a)) = take j (log (nodeAt c' b))" if "j \<le> ?ca" "j \<le> ?cb" for j
    using maj.machine_safety [OF s(4,3), of j a b] that A(1,2) B(1,2) by simp
  show ?thesis
  proof (cases "?ca \<le> ?cb")
    case True
    then have "prefix (take ?ca (log (nodeAt c a))) (take ?cb (log (nodeAt c' b)))"
      using eq [of ?ca] by (metis order_refl take_is_prefix min.absorb1 take_take)
    then show ?thesis unfolding A(4) B(4) by (blast intro: map_mono_prefix)
  next
    case False
    then have "prefix (take ?cb (log (nodeAt c' b))) (take ?ca (log (nodeAt c a)))"
      using eq [of ?cb] by (metis order_refl take_is_prefix min.absorb1 take_take nat_le_linear)
    then show ?thesis unfolding A(4) B(4) by (blast intro: map_mono_prefix)
  qed
qed

lemma positional_log:
  assumes "cluster_ok M C" "creach M C c" "a \<in> set M"
  shows "positional 0 (log (nodeAt c a))" "commitIndex (nodeAt c a) \<le> length (log (nodeAt c a))"
    "stored (dir (nodeAt c a)) (log (nodeAt c a))"
    "LoadState NoFault (dir (nodeAt c a)) = Inr (currentTerm (nodeAt c a), votedFor (nodeAt c a))"
proof -
  from sim_two [OF assms(1,2) rtranclp.rtrancl_refl] obtain s where s: "sim M C c s" "raft_inv (majority (set M)) s" by metis
  show "positional 0 (log (nodeAt c a))" "stored (dir (nodeAt c a)) (log (nodeAt c a))"
    "LoadState NoFault (dir (nodeAt c a)) = Inr (currentTerm (nodeAt c a), votedFor (nodeAt c a))"
    using node_relD(5-7) [OF simD(3) [OF assms(1) s(1) assms(3)]] by simp_all
  show "commitIndex (nodeAt c a) \<le> length (log (nodeAt c a))"
    using s(2) sim_log(1,2) [OF assms(1) s(1) assms(3)] by (metis commit_inv_def may_commit_def raft_inv_def)
qed

section \<open>Properties\<close>

text \<open>
  C1: Election safety. In no run of the cluster, with lost, delayed and reordered messages and nodes
  crashing at any point and restarting from disk, do two different nodes ever lead the same term, at
  the same moment or at different ones.
\<close>

theorem election_safety:
  assumes "cluster_ok M C" "creach M C c" "(cstep M C)\<^sup>*\<^sup>* c c'" "a \<in> set M" "b \<in> set M"
    "role (nodeAt c a) = Leader" "role (nodeAt c' b) = Leader" "currentTerm (nodeAt c a) = currentTerm (nodeAt c' b)"
  shows "a = b"
  by (rule one_leader [OF assms])

theorem election_safety_witness:
  "cluster_ok demoMembers demoConfig \<and> creach demoMembers demoConfig dc7 \<and> (cstep demoMembers demoConfig)\<^sup>*\<^sup>* dc7 dc9 \<and>
   role (nodeAt dc7 ''a'') = Leader \<and> role (nodeAt dc9 ''a'') = Leader \<and> ''a'' = ''a''"
  using election_safety [OF demo_ok demo_reach(1) demo_steps(2) demo_members(1) demo_members(1)]
  by (simp add: demo_ok demo_reach demo_steps appliedEntries_def)

text \<open>
  C2: State machine safety. The sequences of commands that any two nodes have handed to their state
  machines since their last start, at any two moments of a run, are prefixes of one another.
\<close>

theorem state_machine_safety:
  assumes "cluster_ok M C" "creach M C c" "(cstep M C)\<^sup>*\<^sup>* c c'" "a \<in> set M" "b \<in> set M"
  shows "prefix (appliedEntries c a) (appliedEntries c' b) \<or> prefix (appliedEntries c' b) (appliedEntries c a)"
  by (rule applied_comparable [OF assms])

theorem state_machine_safety_witness:
  "creach demoMembers demoConfig dc7 \<and> (cstep demoMembers demoConfig)\<^sup>*\<^sup>* dc7 dc9 \<and>
   appliedEntries dc7 ''a'' = [applyOp seven] \<and>
   (prefix (appliedEntries dc7 ''a'') (appliedEntries dc9 ''b'') \<or> prefix (appliedEntries dc9 ''b'') (appliedEntries dc7 ''a''))"
  using state_machine_safety [OF demo_ok demo_reach(1) demo_steps(2) demo_members]
  by (simp add: demo_reach demo_steps appliedEntries_def)

text \<open>
  C3: Leader completeness. An entry some node regards as committed is in the log of every leader of
  its node's term or a later one, at the same place, from then on.
\<close>

theorem leader_completeness:
  assumes "cluster_ok M C" "creach M C c" "(cstep M C)\<^sup>*\<^sup>* c c'" "a \<in> set M" "b \<in> set M"
    "j \<le> commitIndex (nodeAt c a)" "role (nodeAt c' b) = Leader" "currentTerm (nodeAt c a) \<le> currentTerm (nodeAt c' b)"
  shows "j \<le> length (log (nodeAt c' b)) \<and> take j (log (nodeAt c' b)) = take j (log (nodeAt c a))"
  by (rule committed_in_leader [OF assms])

theorem leader_completeness_witness:
  "creach demoMembers demoConfig dc9 \<and> commitIndex (nodeAt dc9 ''b'') = 1 \<and> role (nodeAt dc9 ''a'') = Leader \<and>
   1 \<le> length (log (nodeAt dc9 ''a'')) \<and> take 1 (log (nodeAt dc9 ''a'')) = take 1 (log (nodeAt dc9 ''b''))"
  using leader_completeness [OF demo_ok demo_reach(2) rtranclp.rtrancl_refl demo_members(2) demo_members(1), of 1]
  by (simp add: demo_reach appliedEntries_def)

text \<open>
  C5: Log matching. If the logs of two nodes hold entries of the same term at the same position, the
  logs are equal up to that position, commands included.
\<close>

theorem log_matching:
  assumes "cluster_ok M C" "creach M C c" "a \<in> set M" "b \<in> set M"
    "i < length (log (nodeAt c a))" "i < length (log (nodeAt c b))"
    "Term (log (nodeAt c a) ! i) = Term (log (nodeAt c b) ! i)"
  shows "take (Suc i) (log (nodeAt c a)) = take (Suc i) (log (nodeAt c b))"
  by (rule logs_agree [OF assms])

theorem log_matching_witness:
  "creach demoMembers demoConfig dc7 \<and> Term (log (nodeAt dc7 ''a'') ! 0) = Term (log (nodeAt dc7 ''b'') ! 0) \<and>
   take (Suc 0) (log (nodeAt dc7 ''a'')) = take (Suc 0) (log (nodeAt dc7 ''b''))"
  using log_matching [OF demo_ok demo_reach(1) demo_members, of 0] by (simp add: demo_reach appliedEntries_def)

text \<open>
  C6: What a node has applied is exactly the committed prefix of its log, in log order, each
  entry once since its last start, and its log lies on its disk together with its term and vote.
\<close>

theorem applied_is_committed_prefix:
  assumes "cluster_ok M C" "creach M C c" "a \<in> set M"
  shows "appliedEntries c a = map applyOp (take (commitIndex (nodeAt c a)) (log (nodeAt c a))) \<and>
    commitIndex (nodeAt c a) \<le> length (log (nodeAt c a)) \<and> positional 0 (log (nodeAt c a)) \<and>
    stored (dir (nodeAt c a)) (log (nodeAt c a)) \<and>
    LoadState NoFault (dir (nodeAt c a)) = Inr (currentTerm (nodeAt c a), votedFor (nodeAt c a))"
proof -
  from sim_two [OF assms(1,2) rtranclp.rtrancl_refl] obtain s where "sim M C c s" by metis
  from sim_log(4) [OF assms(1) this assms(3)] positional_log [OF assms] show ?thesis by simp
qed

theorem applied_is_committed_prefix_witness:
  "creach demoMembers demoConfig dc9 \<and> appliedEntries dc9 ''b'' = [applyOp seven] \<and>
   appliedEntries dc9 ''b'' = map applyOp (take (commitIndex (nodeAt dc9 ''b'')) (log (nodeAt dc9 ''b'')))"
  using applied_is_committed_prefix [OF demo_ok demo_reach(2) demo_members(2)]
  by (simp add: demo_reach appliedEntries_def)

end
