(* ===== verification/Discovery.thy ===== *)
theory Discovery
  imports Raft_Safety Go_Text "HOL-Library.Multiset"
begin

text \<open>
  Service discovery (\<open>internal/discovery/registry.go\<close>, \<open>server.go\<close>): a registry polls every configured node for
  its status and rebuilds its view of the cluster from the answers of the round.

  The probes of a round run concurrently and their results are read from a channel, so a round is
  given by the list of results in the order of their arrival; a probe that failed or timed out has
  no reply. What the round logs is part of its result.
\<close>

section \<open>The registry\<close>

type_synonym probeResult = "addr \<times> GetStatusReply option"

record Registry =
  regPeers :: "addr list"
  regView :: ClusterView
  regReachable :: "(addr, bool) gomap"

definition emptyView :: ClusterView where
  "emptyView = \<lparr>cvLeaderAddress = '''', cvFollowers = [], cvAllNodes = []\<rparr>"

definition NewRegistry :: "addr list \<Rightarrow> Registry" where
  "NewRegistry ps = \<lparr>regPeers = ps, regView = emptyView, regReachable = []\<rparr>"

text \<open>The state of the loop over the results: the view, the reachability map, and the leader's term when there is one.\<close>

record pollState =
  psView :: ClusterView
  psReachable :: "(addr, bool) gomap"
  psLeaderTerm :: uint64
  psHaveLeader :: bool

definition pollInit :: pollState where
  "pollInit = \<lparr>psView = emptyView, psReachable = [], psLeaderTerm = 0, psHaveLeader = False\<rparr>"

definition nodeInfo :: "addr \<Rightarrow> GetStatusReply \<Rightarrow> NodeInfo" where
  "nodeInfo a reply = \<lparr>niNodeId = gsNodeId reply, niAddress = a, niRole = gsRole reply, niTerm = gsTerm reply\<rparr>"

definition pollResult :: "probeResult \<Rightarrow> pollState \<Rightarrow> pollState" where
  "pollResult res st =
     (case res of (a, reply) \<Rightarrow>
        let st = st\<lparr>psReachable := gm_set a (reply \<noteq> None) (psReachable st)\<rparr>
        in case reply of
             None \<Rightarrow> st
           | Some r \<Rightarrow>
               (let info = nodeInfo a r;
                    view = psView st;
                    view = view\<lparr>cvAllNodes := cvAllNodes view @ [info]\<rparr>
                in case niRole info of
                     Role_LEADER \<Rightarrow>
                       if \<not> psHaveLeader st \<or> psLeaderTerm st \<le> niTerm info
                       then st\<lparr>psView := view\<lparr>cvLeaderAddress := niAddress info\<rparr>, psLeaderTerm := niTerm info, psHaveLeader := True\<rparr>
                       else st\<lparr>psView := view\<rparr>
                   | Role_FOLLOWER \<Rightarrow> st\<lparr>psView := view\<lparr>cvFollowers := cvFollowers view @ [info]\<rparr>\<rparr>
                   | Role_CANDIDATE \<Rightarrow> st\<lparr>psView := view\<rparr>))"

definition sortedFollowerAddrs :: "NodeInfo list \<Rightarrow> addr list" where
  "sortedFollowerAddrs fs = sort (map niAddress fs)"

fun followersEqual :: "addr list \<Rightarrow> addr list \<Rightarrow> bool" where
  "followersEqual [] [] = True"
| "followersEqual (a # as) (b # bs) = (a = b \<and> followersEqual as bs)"
| "followersEqual _ _ = False"

datatype pollLog = ViewUpdated addr "addr list" addr | NodeStatusChanged addr bool

definition logViewChangeIfAny :: "ClusterView \<Rightarrow> ClusterView \<Rightarrow> pollLog list" where
  "logViewChangeIfAny old new =
     (if cvLeaderAddress old = cvLeaderAddress new \<and>
         followersEqual (sortedFollowerAddrs (cvFollowers old)) (sortedFollowerAddrs (cvFollowers new)) then []
      else [ViewUpdated (cvLeaderAddress new) (sortedFollowerAddrs (cvFollowers new)) (cvLeaderAddress old)])"

definition logReachabilityChanges :: "(addr, bool) gomap \<Rightarrow> (addr, bool) gomap \<Rightarrow> pollLog list" where
  "logReachabilityChanges old new =
     map (\<lambda>(a, ok). NodeStatusChanged a ok) (filter (\<lambda>(a, ok). map_of old a \<noteq> Some ok) new)"

definition PollOnce :: "probeResult list \<Rightarrow> Registry \<Rightarrow> pollLog list \<times> Registry" where
  "PollOnce results r =
     (let st = fold pollResult results pollInit
      in (logViewChangeIfAny (regView r) (psView st) @ logReachabilityChanges (regReachable r) (psReachable st),
          r\<lparr>regView := psView st, regReachable := psReachable st\<rparr>))"

definition GetClusterView :: "Registry \<Rightarrow> ClusterView" where
  "GetClusterView r = regView r"

section \<open>What a round computes\<close>

text \<open>The replies of a round, and those among them that claim to lead.\<close>

definition replies :: "probeResult list \<Rightarrow> NodeInfo list" where
  "replies results = concat (map (\<lambda>(a, r). case r of None \<Rightarrow> [] | Some r \<Rightarrow> [nodeInfo a r]) results)"

definition claims :: "probeResult list \<Rightarrow> NodeInfo list" where
  "claims results = filter (\<lambda>i. niRole i = Role_LEADER) (replies results)"

lemma replies_simps [simp]:
  "replies [] = []" "replies (xs @ ys) = replies xs @ replies ys" "replies [(a, None)] = []" "replies [(a, Some r)] = [nodeInfo a r]"
  by (simp_all add: replies_def)

lemma claims_append [simp]: "claims (xs @ ys) = claims xs @ claims ys"
  by (simp add: claims_def)

lemma poll_nodes:
  "cvAllNodes (psView (fold pollResult results pollInit)) = replies results \<and>
   cvFollowers (psView (fold pollResult results pollInit)) = filter (\<lambda>i. niRole i = Role_FOLLOWER) (replies results)"
proof (induction results rule: rev_induct)
  case Nil
  then show ?case by (simp add: pollInit_def emptyView_def)
next
  case (snoc res results)
  obtain a r where res: "res = (a, r)" by force
  show ?case
  proof (cases r)
    case None
    then show ?thesis using snoc by (simp add: res pollResult_def Let_def)
  next
    case (Some x)
    then show ?thesis using snoc by (cases "gsRole x") (simp_all add: res pollResult_def Let_def nodeInfo_def)
  qed
qed

lemma poll_reachable:
  "map_of (psReachable (fold pollResult results pollInit)) a = map_option (\<lambda>r. r \<noteq> None) (map_of (rev results) a) \<and>
   gm_wf (psReachable (fold pollResult results pollInit))"
proof (induction results rule: rev_induct)
  case Nil
  then show ?case by (simp add: pollInit_def)
next
  case (snoc res results)
  obtain b r where res: "res = (b, r)" by force
  have "psReachable (pollResult res st) = gm_set b (r \<noteq> None) (psReachable st)" for st
    by (simp add: res pollResult_def Let_def split: option.split PbRole.split)
  then show ?case using snoc by (auto simp: res)
qed

text \<open>The leader of the view is a claim of the largest term, and the one that arrived last among those.\<close>

definition leaderOf :: "NodeInfo list \<Rightarrow> NodeInfo option" where
  "leaderOf is = fold (\<lambda>i best. case best of None \<Rightarrow> Some i | Some b \<Rightarrow> if niTerm b \<le> niTerm i then Some i else best) is None"

lemma leaderOf_snoc: "leaderOf (is @ [i]) = (case leaderOf is of None \<Rightarrow> Some i | Some b \<Rightarrow> if niTerm b \<le> niTerm i then Some i else Some b)"
  by (simp add: leaderOf_def split: option.split)

lemma leaderOf_max: "(case leaderOf is of None \<Rightarrow> is = [] | Some b \<Rightarrow> b \<in> set is \<and> (\<forall>i \<in> set is. niTerm i \<le> niTerm b))"
proof (induction "is" rule: rev_induct)
  case Nil
  then show ?case by (simp add: leaderOf_def)
next
  case (snoc i "is")
  then show ?case by (auto simp: leaderOf_snoc split: option.splits)
qed

lemma poll_leader:
  "let st = fold pollResult results pollInit
   in case leaderOf (claims results) of
        None \<Rightarrow> \<not> psHaveLeader st \<and> cvLeaderAddress (psView st) = ''''
      | Some i \<Rightarrow> psHaveLeader st \<and> psLeaderTerm st = niTerm i \<and> cvLeaderAddress (psView st) = niAddress i"
proof (induction results rule: rev_induct)
  case Nil
  then show ?case by (simp add: pollInit_def emptyView_def claims_def leaderOf_def)
next
  case (snoc res results)
  obtain a r where res: "res = (a, r)" by force
  let ?st = "fold pollResult results pollInit"
  show ?case
  proof (cases "r = None \<or> gsRole (the r) \<noteq> Role_LEADER")
    case True
    then have "claims (results @ [res]) = claims results" by (cases r) (auto simp: claims_def res nodeInfo_def)
    moreover have "psHaveLeader (pollResult res ?st) = psHaveLeader ?st" "psLeaderTerm (pollResult res ?st) = psLeaderTerm ?st"
      "cvLeaderAddress (psView (pollResult res ?st)) = cvLeaderAddress (psView ?st)"
      using True by (auto simp: res pollResult_def Let_def nodeInfo_def split: option.split PbRole.split)
    ultimately show ?thesis using snoc by (cases "leaderOf (claims results)") (simp_all add: Let_def)
  next
    case False
    then obtain x where x: "r = Some x" "gsRole x = Role_LEADER" by auto
    then have c: "claims (results @ [res]) = claims results @ [nodeInfo a x]" by (simp add: claims_def res nodeInfo_def)
    show ?thesis using snoc unfolding c leaderOf_snoc
      by (auto simp: res x pollResult_def Let_def nodeInfo_def split: option.splits)
  qed
qed

section \<open>Properties\<close>

text \<open>
  The view of a round. It lists exactly the nodes that answered, its followers are those that reported
  to follow, and its leader is a node that claimed to lead in a term no other claim
  exceeds; without a claim there is no leader.
\<close>

theorem poll_view:
  "let v = GetClusterView (snd (PollOnce results r))
   in cvAllNodes v = replies results \<and> cvFollowers v = filter (\<lambda>i. niRole i = Role_FOLLOWER) (replies results) \<and>
      (if claims results = [] then cvLeaderAddress v = ''''
       else (\<exists>i. i \<in> set (claims results) \<and> niAddress i = cvLeaderAddress v \<and> list_all (\<lambda>j. niTerm j \<le> niTerm i) (claims results)))"
  using poll_nodes [of results] poll_leader [of results] leaderOf_max [of "claims results"]
  by (auto simp: PollOnce_def GetClusterView_def Let_def list_all_iff split: option.splits)

lemma run_later:
  assumes "\<forall>i. (cstep M C)\<^sup>*\<^sup>* (run i) (run (Suc i))" "i \<le> j"
  shows "(cstep M C)\<^sup>*\<^sup>* (run i) (run j)"
  using assms(2)
proof (induction rule: dec_induct)
  case (step n)
  then show ?case using assms(1) by (meson rtranclp_trans)
qed simp

lemma leader_claim:
  "i \<in> set (claims results) \<longleftrightarrow> (\<exists>a r. (a, Some r) \<in> set results \<and> i = nodeInfo a r \<and> gsRole r = Role_LEADER)"
  by (force simp: claims_def replies_def nodeInfo_def split: option.splits)

lemma claims_of_run:
  assumes "cluster_ok M C" "creach M C (run 0)" "\<forall>i. (cstep M C)\<^sup>*\<^sup>* (run i) (run (Suc i))"
    "\<forall>a r. (a, Some r) \<in> set results \<longrightarrow> a \<in> set M \<and> (\<exists>t. r = GetStatus (nodeAt (run t) a))"
    "i \<in> set (claims results)" "j \<in> set (claims results)" "niTerm i = niTerm j"
  shows "niAddress i = niAddress j"
proof -
  have led: "\<exists>a t. a \<in> set M \<and> niAddress i = a \<and> role (nodeAt (run t) a) = Leader \<and> niTerm i = currentTerm (nodeAt (run t) a)"
    if "i \<in> set (claims results)" for i
  proof -
    from that obtain a r where i: "(a, Some r) \<in> set results" "i = nodeInfo a r" "gsRole r = Role_LEADER" by (auto simp: leader_claim)
    from assms(4) i(1) obtain t where "a \<in> set M" "r = GetStatus (nodeAt (run t) a)" by blast
    then show ?thesis using i by (auto simp: nodeInfo_def GetStatus_def toProto_def split: Role.splits intro!: exI [of _ t])
  qed
  from led [OF assms(5)] led [OF assms(6)] obtain a t b u where
    a: "a \<in> set M" "niAddress i = a" "role (nodeAt (run t) a) = Leader" "niTerm i = currentTerm (nodeAt (run t) a)" and
    b: "b \<in> set M" "niAddress j = b" "role (nodeAt (run u) b) = Leader" "niTerm j = currentTerm (nodeAt (run u) b)" by blast
  have reach: "creach M C (run k)" for k
    using run_later [OF assms(3), of 0 k] assms(2) unfolding creach_def by (meson rtranclp_trans zero_le)
  show ?thesis
  proof (cases "t \<le> u")
    case True
    then show ?thesis using one_leader [OF assms(1) reach run_later [OF assms(3) True] a(1) b(1) a(3) b(3)] a b assms(7) by simp
  next
    case False
    then have "u \<le> t" by simp
    then show ?thesis using one_leader [OF assms(1) reach run_later [OF assms(3)] b(1) a(1) b(3) a(3)] a b assms(7) by simp
  qed
qed

lemma leader_by_claims:
  assumes "set results = set results'"
    "\<And>i j. i \<in> set (claims results) \<Longrightarrow> j \<in> set (claims results) \<Longrightarrow> niTerm i = niTerm j \<Longrightarrow> niAddress i = niAddress j"
  shows "map_option niAddress (leaderOf (claims results)) = map_option niAddress (leaderOf (claims results'))"
proof -
  have c: "set (claims results) = set (claims results')" using leader_claim assms(1) by auto
  note m = leaderOf_max [of "claims results"] leaderOf_max [of "claims results'"]
  show ?thesis
  proof (cases "leaderOf (claims results)")
    case None
    then show ?thesis using m c by (auto split: option.splits)
  next
    case (Some i)
    then obtain j where j: "leaderOf (claims results') = Some j" using m c by (cases "leaderOf (claims results')") auto
    have "niTerm i = niTerm j" using m c Some j by (auto intro!: order.antisym)
    moreover have "i \<in> set (claims results)" "j \<in> set (claims results)" using m c Some j by auto
    ultimately have "niAddress i = niAddress j" by (intro assms(2))
    then show ?thesis using Some j by simp
  qed
qed

text \<open>
  C35: The view does not depend on the order in which the answers arrive. When the answers come from nodes of one
  run of the cluster, each probed at a moment of its own, the leader the view names is the same
  for every arrival order, because no two nodes ever lead the same term.
\<close>

theorem poll_order_irrelevant:
  assumes "cluster_ok M C" "creach M C (run 0)" "\<forall>i. (cstep M C)\<^sup>*\<^sup>* (run i) (run (Suc i))"
    "\<forall>a r. (a, Some r) \<in> set results \<longrightarrow> a \<in> set M \<and> (\<exists>t. r = GetStatus (nodeAt (run t) a))" "mset results' = mset results"
  shows "cvLeaderAddress (GetClusterView (snd (PollOnce results reg))) = cvLeaderAddress (GetClusterView (snd (PollOnce results' reg')))"
proof -
  have "set results = set results'" using assms(5) by (metis set_mset_mset)
  from leader_by_claims [OF this] claims_of_run [OF assms(1-4)]
  have "map_option niAddress (leaderOf (claims results)) = map_option niAddress (leaderOf (claims results'))" by blast
  then show ?thesis using poll_leader [of results] poll_leader [of results']
    by (auto simp: PollOnce_def GetClusterView_def Let_def split: option.splits)
qed

theorem poll_order_irrelevant_witness:
  "cvLeaderAddress (GetClusterView (snd (PollOnce [(''a'', Some (GetStatus (nodeAt dc7 ''a''))), (''b'', Some (GetStatus (nodeAt dc7 ''b'')))]
      (NewRegistry demoMembers))))
   = cvLeaderAddress (GetClusterView (snd (PollOnce [(''b'', Some (GetStatus (nodeAt dc7 ''b''))), (''a'', Some (GetStatus (nodeAt dc7 ''a'')))]
      (NewRegistry demoMembers))))"
  by (rule poll_order_irrelevant [OF demo_ok, where run = "\<lambda>_. dc7"]) (use demo_reach(1) demo_members in auto)

lemma followersEqual_iff [simp]: "followersEqual as bs \<longleftrightarrow> as = bs"
  by (induction as bs rule: followersEqual.induct) auto

lemma sort_eq_iff: "sort xs = sort ys \<longleftrightarrow> mset xs = mset ys" for xs ys :: "addr list"
proof
  assume "sort xs = sort ys"
  then have "mset (sort xs) = mset (sort ys)" by simp
  then show "mset xs = mset ys" by simp
next
  assume "mset xs = mset ys"
  then show "sort xs = sort ys" by (intro properties_for_sort) simp_all
qed

text \<open>
  The log of a round tells every change and nothing else: a view line exactly when the leader or the set of
  follower addresses changed, and for each polled address a status line exactly when its reachability differs
  from the round before.
\<close>

theorem poll_logs_changes:
  assumes "PollOnce results r = (lines, r')"
  shows "((\<exists>l fs w. ViewUpdated l fs w \<in> set lines) \<longleftrightarrow>
       cvLeaderAddress (regView r) \<noteq> cvLeaderAddress (regView r') \<or>
       mset (map niAddress (cvFollowers (regView r))) \<noteq> mset (map niAddress (cvFollowers (regView r')))) \<and>
    (NodeStatusChanged a ok \<in> set lines \<longleftrightarrow>
       map_of (regReachable r') a = Some ok \<and> map_of (regReachable r) a \<noteq> Some ok)"
proof -
  let ?st = "fold pollResult results pollInit"
  have r': "regView r' = psView ?st" "regReachable r' = psReachable ?st"
    and l: "lines = logViewChangeIfAny (regView r) (psView ?st) @ logReachabilityChanges (regReachable r) (psReachable ?st)"
    using assms by (auto simp: PollOnce_def Let_def)
  have "(a, ok) \<in> set (psReachable ?st) \<longleftrightarrow> map_of (psReachable ?st) a = Some ok"
    using poll_reachable [THEN conjunct2, of results] by (simp add: gm_wf_def)
  moreover have "NodeStatusChanged a ok \<in> set lines \<longleftrightarrow> (a, ok) \<in> set (psReachable ?st) \<and> map_of (regReachable r) a \<noteq> Some ok"
    by (auto simp: l logViewChangeIfAny_def logReachabilityChanges_def)
  moreover have "(\<exists>l fs w. ViewUpdated l fs w \<in> set lines) \<longleftrightarrow> logViewChangeIfAny (regView r) (psView ?st) \<noteq> []"
    by (auto simp: l logViewChangeIfAny_def logReachabilityChanges_def)
  ultimately show ?thesis by (auto simp: r' logViewChangeIfAny_def sortedFollowerAddrs_def sort_eq_iff)
qed

theorem poll_logs_changes_witness:
  "set (fst (PollOnce [(''b'', None)] (NewRegistry [''b'']))) = {NodeStatusChanged ''b'' False}"
proof -
  have p: "fst (PollOnce [(''b'', None)] (NewRegistry [''b''])) = [NodeStatusChanged ''b'' False]"
    by (simp add: PollOnce_def NewRegistry_def pollResult_def pollInit_def logViewChangeIfAny_def logReachabilityChanges_def emptyView_def
        sortedFollowerAddrs_def Let_def)
  have "NodeStatusChanged ''b'' False \<in> set (fst (PollOnce [(''b'', None)] (NewRegistry [''b''])))"
    using poll_logs_changes [OF surjective_pairing [of "PollOnce [(''b'', None)] (NewRegistry [''b''])"], of "''b''" False]
    by (simp add: PollOnce_def NewRegistry_def pollResult_def pollInit_def Let_def)
  then show ?thesis by (simp add: p)
qed

end
