(* ===== verification/Proxy.thy ===== *)
theory Proxy
  imports Circuitbreaker Discovery
begin

text \<open>
  The client proxy (\<open>internal/proxy\<close>): routing of writes and reads (\<open>proxy.go\<close>), the error values (\<open>errors.go\<close>) and the
  REST handlers (\<open>http.go\<close>).

  A request makes a bounded number of calls to nodes. The nodes' answers are arguments: the k-th
  call to an address gives an error text or a reply. \<open>calls\<close> records the addresses actually called and
  \<open>refreshes\<close> counts the goroutines started by \<open>asyncRefresh\<close>; each of those runs \<open>refreshNow\<close> at some later time.
  The round-robin counter is a natural number, it would overflow after \<open>2 ^ 63\<close> reads.
\<close>

section \<open>Errors\<close>

type_synonym nanoseconds = int

definition second :: nanoseconds where
  "second = 1000000000"

record apiError =
  aeStatus :: nat
  aeCode :: string
  aeMessage :: string
  aeRetryAfter :: nanoseconds

definition errBadRequest :: "string \<Rightarrow> apiError" where
  "errBadRequest msg = \<lparr>aeStatus = 400, aeCode = ''bad_request'', aeMessage = msg, aeRetryAfter = 0\<rparr>"

definition errNotFound :: "string \<Rightarrow> apiError" where
  "errNotFound msg = \<lparr>aeStatus = 404, aeCode = ''not_found'', aeMessage = msg, aeRetryAfter = 0\<rparr>"

definition errUnavailable :: "string \<Rightarrow> nanoseconds \<Rightarrow> apiError" where
  "errUnavailable msg after = \<lparr>aeStatus = 503, aeCode = ''unavailable'', aeMessage = msg, aeRetryAfter = after\<rparr>"

definition defaultRefreshInterval :: nanoseconds where
  "defaultRefreshInterval = 2 * second"

definition circuitbreakerRetryAfter :: nanoseconds where
  "circuitbreakerRetryAfter = 2 * second"

definition maxHops :: nat where
  "maxHops = 3"

section \<open>The proxy\<close>

datatype WriteOp = OpPut | OpUpdate | OpDelete

datatype kvCall = CallPut PutRequest | CallUpdate PutRequest | CallDelete DeleteRequest

record 'b Proxy =
  pxBreakers :: "'b BreakerRegistry"
  pxView :: ClusterView
  rrIndex :: nat
  refreshes :: nat
  calls :: "addr list"

definition NewProxy :: "'b Proxy" where
  "NewProxy = \<lparr>pxBreakers = NewBreakerRegistry, pxView = emptyView, rrIndex = 0, refreshes = 0, calls = []\<rparr>"

definition asyncRefresh :: "'b Proxy \<Rightarrow> 'b Proxy" where
  "asyncRefresh p = p\<lparr>refreshes := refreshes p + 1\<rparr>"

definition refreshNow :: "ClusterView option \<Rightarrow> 'b Proxy \<Rightarrow> 'b Proxy" where
  "refreshNow fetched p =
     (case fetched of
        None \<Rightarrow> p
      | Some view \<Rightarrow>
          p\<lparr>pxView := view, pxBreakers := Prune (\<lambda>a. a \<in> set (map niAddress (cvAllNodes view))) (pxBreakers p)\<rparr>)"

definition updateLeaderCache :: "addr \<Rightarrow> 'b Proxy \<Rightarrow> 'b Proxy" where
  "updateLeaderCache a p = p\<lparr>pxView := (pxView p)\<lparr>cvLeaderAddress := a\<rparr>\<rparr>"

definition allNodesOpen :: "'b breakerLib \<Rightarrow> int \<Rightarrow> ClusterView \<Rightarrow> 'b Proxy \<Rightarrow> bool \<times> 'b Proxy" where
  "allNodesOpen lib t view p =
     (if cvAllNodes view = [] then (False, p)
      else (case AllOpen lib t (map niAddress (cvAllNodes view)) (pxBreakers p) of (b, r) \<Rightarrow> (b, p\<lparr>pxBreakers := r\<rparr>)))"

definition pickFollowerRoundRobin :: "NodeInfo list \<Rightarrow> 'b Proxy \<Rightarrow> addr \<times> 'b Proxy" where
  "pickFollowerRoundRobin followers p =
     (niAddress (followers ! (rrIndex p mod length followers)), p\<lparr>rrIndex := rrIndex p + 1\<rparr>)"

text \<open>
  The environment of a request: the library, the clock at the start and around the k-th call, the
  answer to the k-th call, and the texts of the library's two errors.
\<close>

record 'b proxyEnv =
  peLib :: "'b breakerLib"
  peStart :: int
  peClock :: "nat \<Rightarrow> int \<times> int"
  peWrite :: "nat \<Rightarrow> addr \<Rightarrow> kvCall \<Rightarrow> string + WriteReply"
  peGet :: "nat \<Rightarrow> addr \<Rightarrow> GetRequest \<Rightarrow> string + GetReply"
  peErrText :: "cbError \<Rightarrow> string"

text \<open>A call through the breaker: a trip of the breaker starts a refresh.\<close>

definition guarded :: "'b proxyEnv \<Rightarrow> nat \<Rightarrow> addr \<Rightarrow> (string + 'a) \<Rightarrow> 'b Proxy \<Rightarrow> (string callError + 'a) \<times> 'b Proxy" where
  "guarded pe k a outcome p =
     (case breakerCall (peLib pe) (fst (peClock pe k)) (snd (peClock pe k)) a outcome (pxBreakers p) of
        (res, invoked, trip, r) \<Rightarrow>
          (let p1 = p\<lparr>pxBreakers := r, calls := (if invoked then calls p @ [a] else calls p)\<rparr>
           in (res, if trip then asyncRefresh p1 else p1)))"

definition writeRequest :: "WriteOp \<Rightarrow> string \<Rightarrow> string \<Rightarrow> kvCall" where
  "writeRequest op key val =
     (case op of
        OpPut \<Rightarrow> CallPut \<lparr>prKey = key, prValue = val\<rparr>
      | OpUpdate \<Rightarrow> CallUpdate \<lparr>prKey = key, prValue = val\<rparr>
      | OpDelete \<Rightarrow> CallDelete \<lparr>drKey = key\<rparr>)"

definition callWrite :: "'b proxyEnv \<Rightarrow> nat \<Rightarrow> addr \<Rightarrow> WriteOp \<Rightarrow> string \<Rightarrow> string \<Rightarrow> 'b Proxy \<Rightarrow> (string callError + WriteReply) \<times> 'b Proxy" where
  "callWrite pe k a op key val p = guarded pe k a (peWrite pe k a (writeRequest op key val)) p"

definition callGet :: "'b proxyEnv \<Rightarrow> nat \<Rightarrow> addr \<Rightarrow> string \<Rightarrow> 'b Proxy \<Rightarrow> (string callError + GetReply) \<times> 'b Proxy" where
  "callGet pe k a key p = guarded pe k a (peGet pe k a \<lparr>grKey = key\<rparr>) p"

definition errorText :: "'b proxyEnv \<Rightarrow> string callError \<Rightarrow> string" where
  "errorText pe e = (case e of Skipped c \<Rightarrow> peErrText pe c | Failed s \<Rightarrow> s)"

section \<open>Writes\<close>

text \<open>The loop over the attempts; the first argument is the number of attempts left.\<close>

fun writeLoop :: "'b proxyEnv \<Rightarrow> WriteOp \<Rightarrow> string \<Rightarrow> string \<Rightarrow> nat \<Rightarrow> addr \<Rightarrow> 'b Proxy \<Rightarrow> (apiError + WriteReply) \<times> 'b Proxy" where
  "writeLoop pe op key val 0 a p = (Inl (errUnavailable ''redirect-hop budget exhausted'' defaultRefreshInterval), asyncRefresh p)"
| "writeLoop pe op key val (Suc left) a p =
     (case callWrite pe (maxHops - left) a op key val p of
        (Inl e, p1) \<Rightarrow>
          (Inl (errUnavailable (''failed to reach leader: '' @ errorText pe e) circuitbreakerRetryAfter), asyncRefresh p1)
      | (Inr reply, p1) \<Rightarrow>
          if wrSuccess reply then (Inr reply, p1)
          else (let redirect = wrRedirectLeader reply
                in if redirect = ''''
                   then (Inl (errUnavailable ''target is not leader and no redirect is known'' defaultRefreshInterval), asyncRefresh p1)
                   else writeLoop pe op key val left redirect (updateLeaderCache redirect p1)))"

definition proxyWrite :: "'b proxyEnv \<Rightarrow> WriteOp \<Rightarrow> string \<Rightarrow> string \<Rightarrow> 'b Proxy \<Rightarrow> (apiError + WriteReply) \<times> 'b Proxy" where
  "proxyWrite pe op key val p =
     (let view = pxView p
      in case allNodesOpen (peLib pe) (peStart pe) view p of
           (True, p1) \<Rightarrow> (Inl (errUnavailable ''every known node's circuit breaker is open'' circuitbreakerRetryAfter), p1)
         | (False, p1) \<Rightarrow>
             if cvLeaderAddress view = ''''
             then (Inl (errUnavailable ''no known leader'' defaultRefreshInterval), asyncRefresh p1)
             else writeLoop pe op key val maxHops (cvLeaderAddress view) p1)"

section \<open>Reads\<close>

definition answered :: "GetReply \<Rightarrow> apiError + GetReply" where
  "answered reply = (if \<not> grFound reply then Inl (errNotFound ''key not found'') else Inr reply)"

fun leaderPathLoop :: "'b proxyEnv \<Rightarrow> string \<Rightarrow> nat \<Rightarrow> addr \<Rightarrow> 'b Proxy \<Rightarrow> (apiError + GetReply) \<times> 'b Proxy" where
  "leaderPathLoop pe key 0 a p = (Inl (errUnavailable ''redirect-hop budget exhausted'' defaultRefreshInterval), asyncRefresh p)"
| "leaderPathLoop pe key (Suc left) a p =
     (case callGet pe (maxHops - left) a key p of
        (Inl e, p1) \<Rightarrow>
          (Inl (errUnavailable (''failed to reach leader: '' @ errorText pe e) circuitbreakerRetryAfter), asyncRefresh p1)
      | (Inr reply, p1) \<Rightarrow>
          if \<not> grOk reply
          then (let redirect = grRedirectLeader reply
                in if redirect = ''''
                   then (Inl (errUnavailable ''target could not answer authoritatively'' defaultRefreshInterval), asyncRefresh p1)
                   else leaderPathLoop pe key left redirect (updateLeaderCache redirect p1))
          else (answered reply, p1))"

definition leaderPathGet :: "'b proxyEnv \<Rightarrow> addr \<Rightarrow> string \<Rightarrow> 'b Proxy \<Rightarrow> (apiError + GetReply) \<times> 'b Proxy" where
  "leaderPathGet pe a key p =
     (if a = '''' then (Inl (errUnavailable ''no known leader'' defaultRefreshInterval), asyncRefresh p)
      else leaderPathLoop pe key maxHops a p)"

definition singleHopLeaderGet :: "'b proxyEnv \<Rightarrow> string \<Rightarrow> 'b Proxy \<Rightarrow> (apiError + GetReply) \<times> 'b Proxy" where
  "singleHopLeaderGet pe key p =
     (let a = cvLeaderAddress (pxView p)
      in if a = '''' then (Inl (errUnavailable ''no known leader'' defaultRefreshInterval), asyncRefresh p)
         else (case callGet pe 2 a key p of
                 (Inl e, p1) \<Rightarrow>
                   (Inl (errUnavailable (''failed to reach leader: '' @ errorText pe e) circuitbreakerRetryAfter), asyncRefresh p1)
               | (Inr reply, p1) \<Rightarrow>
                   if \<not> grOk reply
                   then (Inl (errUnavailable ''leader could not answer authoritatively'' defaultRefreshInterval), asyncRefresh p1)
                   else (answered reply, p1)))"

definition proxyGet :: "'b proxyEnv \<Rightarrow> string \<Rightarrow> 'b Proxy \<Rightarrow> (apiError + GetReply) \<times> 'b Proxy" where
  "proxyGet pe key p =
     (let view = pxView p
      in case allNodesOpen (peLib pe) (peStart pe) view p of
           (True, p1) \<Rightarrow> (Inl (errUnavailable ''every known node's circuit breaker is open'' circuitbreakerRetryAfter), p1)
         | (False, p1) \<Rightarrow>
             if cvFollowers view = [] then leaderPathGet pe (cvLeaderAddress view) key p1
             else (case pickFollowerRoundRobin (cvFollowers view) p1 of (a, p2) \<Rightarrow>
                     (case callGet pe 1 a key p2 of
                        (Inl e, p3) \<Rightarrow> singleHopLeaderGet pe key p3
                      | (Inr reply, p3) \<Rightarrow>
                          if \<not> grOk reply
                          then singleHopLeaderGet pe key
                                 (if grRedirectLeader reply \<noteq> '''' then updateLeaderCache (grRedirectLeader reply) p3 else p3)
                          else (answered reply, p3))))"

section \<open>The REST surface\<close>

text \<open>
  A handler receives the key of the path and the body as the decoder left it, and yields a status, headers and the value
  that is encoded. The router and the texts are the subject of \<open>Rest\<close>.
\<close>

datatype jsonInput = Malformed | Parsed "string option"

datatype jsonBody = NoBody | CommittedBody string uint64 | ValueBody string string | ErrorBody string string | HealthBody

record httpResponse =
  rsStatus :: nat
  rsHeaders :: "(string \<times> string) list"
  rsBody :: jsonBody

definition writeJSON :: "(string \<times> string) list \<Rightarrow> nat \<Rightarrow> jsonBody \<Rightarrow> httpResponse" where
  "writeJSON hs status body = \<lparr>rsStatus = status, rsHeaders = hs @ [(''Content-Type'', ''application/json'')], rsBody = body\<rparr>"

definition writeError :: "apiError \<Rightarrow> httpResponse" where
  "writeError e =
     (let secs = aeRetryAfter e div second;
          secs = (if secs < 1 then 1 else secs)
      in writeJSON (if 0 < aeRetryAfter e then [(''Retry-After'', showNat (nat secs))] else []) (aeStatus e)
           (ErrorBody (aeCode e) (aeMessage e)))"

definition writeCommitted :: "nat \<Rightarrow> string \<Rightarrow> uint64 \<Rightarrow> httpResponse" where
  "writeCommitted status key index = writeJSON [(''X-Commit-Index'', showNat index)] status (CommittedBody key index)"

definition decodeValueBody :: "jsonInput \<Rightarrow> apiError + string" where
  "decodeValueBody body =
     (case body of
        Malformed \<Rightarrow> Inl (errBadRequest ''malformed JSON body'')
      | Parsed None \<Rightarrow> Inl (errBadRequest ''missing \"value\" in request body'')
      | Parsed (Some v) \<Rightarrow> Inr v)"

definition handleHealthz :: httpResponse where
  "handleHealthz = writeJSON [] 200 HealthBody"

definition handlePush :: "'b proxyEnv \<Rightarrow> string \<Rightarrow> jsonInput \<Rightarrow> 'b Proxy \<Rightarrow> httpResponse \<times> 'b Proxy" where
  "handlePush pe key body p =
     (case decodeValueBody body of
        Inl e \<Rightarrow> (writeError e, p)
      | Inr v \<Rightarrow>
          (case proxyWrite pe OpPut key v p of
             (Inl e, p1) \<Rightarrow> (writeError e, p1)
           | (Inr reply, p1) \<Rightarrow> (writeCommitted 201 key (wrCommitIndex reply), p1)))"

definition handleUpdate :: "'b proxyEnv \<Rightarrow> string \<Rightarrow> jsonInput \<Rightarrow> 'b Proxy \<Rightarrow> httpResponse \<times> 'b Proxy" where
  "handleUpdate pe key body p =
     (case decodeValueBody body of
        Inl e \<Rightarrow> (writeError e, p)
      | Inr v \<Rightarrow>
          (case proxyWrite pe OpUpdate key v p of
             (Inl e, p1) \<Rightarrow> (writeError e, p1)
           | (Inr reply, p1) \<Rightarrow> (writeCommitted 200 key (wrCommitIndex reply), p1)))"

definition handleDelete :: "'b proxyEnv \<Rightarrow> string \<Rightarrow> 'b Proxy \<Rightarrow> httpResponse \<times> 'b Proxy" where
  "handleDelete pe key p =
     (case proxyWrite pe OpDelete key '''' p of
        (Inl e, p1) \<Rightarrow> (writeError e, p1)
      | (Inr reply, p1) \<Rightarrow>
          (\<lparr>rsStatus = 204, rsHeaders = [(''X-Commit-Index'', showNat (wrCommitIndex reply))], rsBody = NoBody\<rparr>, p1))"

definition handleGet :: "'b proxyEnv \<Rightarrow> string \<Rightarrow> 'b Proxy \<Rightarrow> httpResponse \<times> 'b Proxy" where
  "handleGet pe key p =
     (case proxyGet pe key p of
        (Inl e, p1) \<Rightarrow> (writeError e, p1)
      | (Inr reply, p1) \<Rightarrow> (writeJSON [] 200 (ValueBody key (grValue reply)), p1))"

section \<open>What a call does to the proxy\<close>

lemma guarded_effect:
  assumes "guarded pe k a outcome p = (res, p')"
  shows "pxView p' = pxView p" "rrIndex p' = rrIndex p" "refreshes p \<le> refreshes p'"
    "calls p' = calls p @ [a] \<or> calls p' = calls p \<and> isl res" "res = Inr x \<Longrightarrow> outcome = Inr x \<and> calls p' = calls p @ [a]"
  using assms
  by (auto simp: guarded_def breakerCall_def breakerFor_def asyncRefresh_def Let_def split: prod.splits option.splits if_splits)
    (cases outcome; auto)+

lemma simple_effects [simp]:
  "calls (asyncRefresh p) = calls p" "refreshes (asyncRefresh p) = Suc (refreshes p)" "pxView (asyncRefresh p) = pxView p"
  "calls (updateLeaderCache a p) = calls p" "refreshes (updateLeaderCache a p) = refreshes p"
  "cvLeaderAddress (pxView (updateLeaderCache a p)) = a" "rrIndex (asyncRefresh p) = rrIndex p" "rrIndex (updateLeaderCache a p) = rrIndex p"
  by (simp_all add: asyncRefresh_def updateLeaderCache_def)

lemma allNodesOpen_effect:
  assumes "allNodesOpen lib t view p = (b, p')"
  shows "pxView p' = pxView p" "calls p' = calls p" "refreshes p' = refreshes p" "rrIndex p' = rrIndex p"
  using assms by (auto simp: allNodesOpen_def split: if_splits prod.splits)

text \<open>
  The trace of a write that starts its k-th attempt at \<open>a\<close>: the addresses called, each the redirect of the
  one before, and how it ends.
\<close>

definition write_trace :: "'b proxyEnv \<Rightarrow> kvCall \<Rightarrow> nat \<Rightarrow> addr \<Rightarrow> addr list \<Rightarrow> apiError + WriteReply \<Rightarrow> bool" where
  "write_trace pe req k a xs res \<longleftrightarrow>
     (xs \<noteq> [] \<longrightarrow> hd xs = a) \<and>
     (\<forall>i. Suc i < length xs \<longrightarrow> (\<exists>r. peWrite pe (k + i) (xs ! i) req = Inr r \<and> \<not> wrSuccess r \<and> wrRedirectLeader r = xs ! Suc i)) \<and>
     (\<forall>r. res = Inr r \<longrightarrow> wrSuccess r \<and> xs \<noteq> [] \<and> peWrite pe (k + length xs - 1) (last xs) req = Inr r)"

lemma write_trace_redirect:
  assumes "write_trace pe req (Suc k) b xs res" "peWrite pe k a req = Inr r" "\<not> wrSuccess r" "wrRedirectLeader r = b"
  shows "write_trace pe req k a (a # xs) res"
  unfolding write_trace_def
proof (intro conjI allI impI)
  fix i assume i: "Suc i < length (a # xs)"
  show "\<exists>r. peWrite pe (k + i) ((a # xs) ! i) req = Inr r \<and> \<not> wrSuccess r \<and> wrRedirectLeader r = (a # xs) ! Suc i"
  proof (cases i)
    case 0
    then show ?thesis using assms i by (cases xs) (auto simp: write_trace_def)
  next
    case (Suc j)
    then show ?thesis using assms(1) i by (auto simp: write_trace_def)
  qed
qed (use assms(1) in \<open>auto simp: write_trace_def\<close>)

lemma writeLoop_trace:
  assumes "left \<le> maxHops" "writeLoop pe op key val left a p = (res, p')"
  shows "\<exists>xs. calls p' = calls p @ xs \<and> length xs \<le> left \<and> write_trace pe (writeRequest op key val) (Suc maxHops - left) a xs res \<and>
    (isl res \<longrightarrow> aeStatus (projl res) = 503 \<and> 0 < aeRetryAfter (projl res) \<and> refreshes p < refreshes p')"
  using assms
proof (induction left arbitrary: a p)
  case 0
  then show ?case by (auto simp: write_trace_def errUnavailable_def defaultRefreshInterval_def second_def)
next
  case (Suc left)
  obtain r p1 where c: "callWrite pe (maxHops - left) a op key val p = (r, p1)" by force
  note g = guarded_effect [OF c [unfolded callWrite_def]]
  have k: "Suc maxHops - Suc left = maxHops - left" "Suc maxHops - left = Suc (maxHops - left)" using Suc.prems(1) by simp_all
  show ?case
  proof (cases r)
    case (Inl e)
    then show ?thesis using Suc.prems(2) c g(3,4)
      by (auto simp: write_trace_def errUnavailable_def circuitbreakerRetryAfter_def second_def)
  next
    case (Inr reply)
    from g(5) [OF Inr] have o: "peWrite pe (maxHops - left) a (writeRequest op key val) = Inr reply" "calls p1 = calls p @ [a]" by auto
    consider "wrSuccess reply" | "\<not> wrSuccess reply" "wrRedirectLeader reply = ''''" | "\<not> wrSuccess reply" "wrRedirectLeader reply \<noteq> ''''" by blast
    then show ?thesis
    proof cases
      case 1
      then show ?thesis using Suc.prems c Inr o by (auto simp: write_trace_def intro!: exI [of _ "[a]"])
    next
      case 2
      then show ?thesis using Suc.prems c Inr o g(3)
        by (auto simp: write_trace_def errUnavailable_def defaultRefreshInterval_def second_def intro!: exI [of _ "[a]"])
    next
      case 3
      let ?b = "wrRedirectLeader reply"
      have "writeLoop pe op key val left ?b (updateLeaderCache ?b p1) = (res, p')" using Suc.prems(2) c Inr 3 by (simp add: Let_def)
      from Suc.IH [OF _ this] Suc.prems(1) obtain xs where
        xs: "calls p' = calls p1 @ xs" "length xs \<le> left" "write_trace pe (writeRequest op key val) (Suc maxHops - left) ?b xs res"
        "isl res \<longrightarrow> aeStatus (projl res) = 503 \<and> 0 < aeRetryAfter (projl res) \<and> refreshes p1 < refreshes p'" by auto
      from write_trace_redirect [OF xs(3) [unfolded k(2)] o(1) 3(1) refl]
      show ?thesis unfolding k(1) using xs o(2) g(3) by (intro exI [of _ "a # xs"]) auto
    qed
  qed
qed

text \<open>
  What ends a read whose calls were \<open>ts\<close>, each with its number and address: the first authoritative reply, which is
  that of the last call, is served, be it a value or that the key is missing; without one the read is a 503 with a retry hint and a
  refresh.
\<close>

definition authoritative :: "'b proxyEnv \<Rightarrow> string \<Rightarrow> nat \<times> addr \<Rightarrow> GetReply \<Rightarrow> bool" where
  "authoritative pe key t r \<longleftrightarrow> peGet pe (fst t) (snd t) \<lparr>grKey = key\<rparr> = Inr r \<and> grOk r"

definition read_ends :: "'b proxyEnv \<Rightarrow> string \<Rightarrow> (nat \<times> addr) list \<Rightarrow> bool \<Rightarrow> apiError + GetReply \<Rightarrow> bool" where
  "read_ends pe key ts refreshed res \<longleftrightarrow>
     (\<forall>t \<in> set (butlast ts). \<forall>r. \<not> authoritative pe key t r) \<and>
     (if ts \<noteq> [] \<and> (\<exists>r. authoritative pe key (last ts) r)
      then \<exists>r. authoritative pe key (last ts) r \<and> res = (if grFound r then Inr r else Inl (errNotFound ''key not found''))
      else refreshed \<and> (\<exists>msg after. res = Inl (errUnavailable msg after) \<and> 0 < after))"

text \<open>A chain of redirects that starts at \<open>a\<close>.\<close>

definition redirected :: "'b proxyEnv \<Rightarrow> string \<Rightarrow> addr \<Rightarrow> (nat \<times> addr) list \<Rightarrow> bool" where
  "redirected pe key a ts \<longleftrightarrow>
     (ts \<noteq> [] \<longrightarrow> snd (hd ts) = a) \<and>
     (\<forall>i. Suc i < length ts \<longrightarrow>
        (\<exists>r. peGet pe (fst (ts ! i)) (snd (ts ! i)) \<lparr>grKey = key\<rparr> = Inr r \<and> \<not> grOk r \<and> grRedirectLeader r = snd (ts ! Suc i)))"

lemma retry_pos [simp]: "0 < circuitbreakerRetryAfter" "0 < defaultRefreshInterval"
  by (simp_all add: circuitbreakerRetryAfter_def defaultRefreshInterval_def second_def)

lemma read_ends_simps:
  "authoritative pe key t r \<Longrightarrow> read_ends pe key [t] b (answered r)"
  "0 < after \<Longrightarrow> read_ends pe key [] True (Inl (errUnavailable msg after))"
  "0 < after \<Longrightarrow> \<forall>r. \<not> authoritative pe key t r \<Longrightarrow> read_ends pe key [t] True (Inl (errUnavailable msg after))"
  "read_ends pe key [] b res \<Longrightarrow> \<forall>r. \<not> authoritative pe key t r \<Longrightarrow> read_ends pe key [t] b res"
  by (auto simp: read_ends_def answered_def)

lemma read_ends_cons: "read_ends pe key ts b res \<Longrightarrow> \<forall>r. \<not> authoritative pe key t r \<Longrightarrow> read_ends pe key (t # ts) b res"
  by (auto simp: read_ends_def)

lemma read_ends_mono: "read_ends pe key ts b res \<Longrightarrow> b \<longrightarrow> b' \<Longrightarrow> read_ends pe key ts b' res"
  by (auto simp: read_ends_def split: if_splits)

lemma redirected_cons:
  assumes "redirected pe key b ts" "peGet pe k a \<lparr>grKey = key\<rparr> = Inr r" "\<not> grOk r" "grRedirectLeader r = b"
  shows "redirected pe key a ((k, a) # ts)"
  unfolding redirected_def
proof (intro conjI allI impI)
  fix i assume i: "Suc i < length ((k, a) # ts)"
  show "\<exists>r. peGet pe (fst (((k, a) # ts) ! i)) (snd (((k, a) # ts) ! i)) \<lparr>grKey = key\<rparr> = Inr r \<and> \<not> grOk r \<and>
      grRedirectLeader r = snd (((k, a) # ts) ! Suc i)"
    using assms i by (cases i; cases ts) (auto simp: redirected_def)
qed simp

lemma one_call: "redirected pe key a [(k, a)]" "redirected pe key a []"
  by (simp_all add: redirected_def)

text \<open>A call to a node either is skipped by the breaker or yields the node's answer.\<close>

lemma callGet_outcomes:
  assumes "callGet pe k a key p = (r, p')"
  obtains (skipped) e where "r = Inl e" "calls p' = calls p"
  | (failed) e where "r = Inl e" "calls p' = calls p @ [a]" "isl (peGet pe k a \<lparr>grKey = key\<rparr>)"
  | (replied) reply where "r = Inr reply" "calls p' = calls p @ [a]" "peGet pe k a \<lparr>grKey = key\<rparr> = Inr reply"
  using assms
  by (auto simp: callGet_def guarded_def breakerCall_def breakerFor_def asyncRefresh_def Let_def
      split: prod.splits option.splits if_splits) (cases "peGet pe k a \<lparr>grKey = key\<rparr>"; auto)+

lemma leaderPath_trace:
  assumes "left \<le> maxHops" "leaderPathLoop pe key left a p = (res, p')"
  shows "\<exists>xs. calls p' = calls p @ xs \<and> length xs \<le> left \<and>
    redirected pe key a (enumerate (Suc maxHops - left) xs) \<and> read_ends pe key (enumerate (Suc maxHops - left) xs) (refreshes p < refreshes p') res"
  using assms
proof (induction left arbitrary: a p)
  case 0
  then show ?case by (auto simp: one_call intro!: read_ends_simps(2))
next
  case (Suc left)
  let ?k = "maxHops - left"
  obtain r p1 where c: "callGet pe ?k a key p = (r, p1)" by force
  note g = guarded_effect(3) [OF c [unfolded callGet_def]]
  have k: "Suc maxHops - Suc left = ?k" "Suc maxHops - left = Suc ?k" using Suc.prems(1) by simp_all
  from c have "\<exists>xs. calls p' = calls p @ xs \<and> length xs \<le> Suc left \<and>
      redirected pe key a (enumerate ?k xs) \<and> read_ends pe key (enumerate ?k xs) (refreshes p < refreshes p') res"
  proof (cases rule: callGet_outcomes)
    case (skipped e)
    then show ?thesis using Suc.prems(2) c g by (intro exI [of _ "[]"]) (auto simp: one_call intro!: read_ends_simps(2))
  next
    case (failed e)
    then show ?thesis using Suc.prems(2) c g by (intro exI [of _ "[a]"]) (auto simp: one_call authoritative_def intro!: read_ends_simps(3))
  next
    case (replied reply)
    consider "grOk reply" | "\<not> grOk reply" "grRedirectLeader reply = ''''" | "\<not> grOk reply" "grRedirectLeader reply \<noteq> ''''" by blast
    then show ?thesis
    proof cases
      case 1
      then show ?thesis using Suc.prems c replied
        by (intro exI [of _ "[a]"]) (auto simp: one_call authoritative_def intro!: read_ends_simps(1))
    next
      case 2
      then show ?thesis using Suc.prems c replied g
        by (intro exI [of _ "[a]"]) (auto simp: one_call authoritative_def intro!: read_ends_simps(3))
    next
      case 3
      let ?b = "grRedirectLeader reply"
      have "leaderPathLoop pe key left ?b (updateLeaderCache ?b p1) = (res, p')" using Suc.prems(2) c replied 3 by (simp add: Let_def)
      from Suc.IH [OF _ this] Suc.prems(1) obtain xs where xs: "calls p' = calls p1 @ xs" "length xs \<le> left"
        "redirected pe key ?b (enumerate (Suc ?k) xs)" "read_ends pe key (enumerate (Suc ?k) xs) (refreshes p1 < refreshes p') res"
        by (auto simp: k(2))
      have "read_ends pe key (enumerate (Suc ?k) xs) (refreshes p < refreshes p') res" by (rule read_ends_mono [OF xs(4)]) (use g in simp)
      from read_ends_cons [OF this, of "(?k, a)"] have "read_ends pe key (enumerate ?k (a # xs)) (refreshes p < refreshes p') res"
        using replied(3) 3(1) by (simp add: authoritative_def)
      moreover have "redirected pe key a (enumerate ?k (a # xs))" using redirected_cons [OF xs(3) replied(3) 3(1) refl] by simp
      ultimately show ?thesis using xs(1,2) replied(2) by (intro exI [of _ "a # xs"]) auto
    qed
  qed
  then show ?case by (simp only: k(1))
qed

lemma singleHop_trace:
  assumes "singleHopLeaderGet pe key p = (res, p')"
  shows "\<exists>xs. calls p' = calls p @ map snd xs \<and> (xs = [] \<or> xs = [(2, cvLeaderAddress (pxView p))]) \<and>
    read_ends pe key xs (refreshes p < refreshes p') res \<and> pxView p' = pxView p \<and> rrIndex p' = rrIndex p"
proof (cases "cvLeaderAddress (pxView p) = ''''")
  case True
  then show ?thesis using assms by (auto simp: singleHopLeaderGet_def Let_def intro!: read_ends_simps(2))
next
  case False
  obtain r p1 where c: "callGet pe 2 (cvLeaderAddress (pxView p)) key p = (r, p1)" by force
  note g = guarded_effect(1-3) [OF c [unfolded callGet_def]]
  note run = assms [unfolded singleHopLeaderGet_def Let_def, simplified False if_False c]
  from c show ?thesis
  proof (cases rule: callGet_outcomes)
    case (skipped e)
    then show ?thesis using run g by (intro exI [of _ "[]"]) (auto intro!: read_ends_simps(2))
  next
    case (failed e)
    then show ?thesis using run g by (intro exI [of _ "[(2, cvLeaderAddress (pxView p))]"]) (auto simp: authoritative_def intro!: read_ends_simps(3))
  next
    case (replied reply)
    then show ?thesis using run g
      by (intro exI [of _ "[(2, cvLeaderAddress (pxView p))]"])
        (auto simp: authoritative_def split: if_splits intro!: read_ends_simps(1,3))
  qed
qed

text \<open>Every error of a write asks the client to come back after two seconds.\<close>

lemma writeLoop_error: "writeLoop pe op key val left a p = (Inl e, p') \<Longrightarrow> \<exists>msg. e = errUnavailable msg (2 * second)"
  by (induction left arbitrary: a p)
    (auto simp: Let_def defaultRefreshInterval_def circuitbreakerRetryAfter_def split: prod.splits sum.splits if_splits)

lemma proxyWrite_error: "proxyWrite pe op key val p = (Inl e, p') \<Longrightarrow> \<exists>msg. e = errUnavailable msg (2 * second)"
  using writeLoop_error
  by (fastforce simp: proxyWrite_def Let_def defaultRefreshInterval_def circuitbreakerRetryAfter_def split: prod.splits bool.splits if_splits)

lemma showNat_digits_27: "showNat 2 = ''2''" "showNat 7 = ''7''"
  by code_simp+

lemma writeError_unavailable:
  "writeError (errUnavailable msg (2 * second)) = \<lparr>rsStatus = 503,
     rsHeaders = [(''Retry-After'', ''2''), (''Content-Type'', ''application/json'')], rsBody = ErrorBody ''unavailable'' msg\<rparr>"
  by (simp add: writeError_def errUnavailable_def writeJSON_def second_def Let_def showNat_digits_27)

section \<open>Properties\<close>

text \<open>
  C33: Writes follow redirects within their budget. A write calls at most \<open>maxHops\<close> nodes, the cached leader first
  and then always the node the one before redirected to. Success is reported only with a successful reply of
  the last node called; every failure is a 503 with a retry hint, and starts a refresh unless all
  breakers are open.
\<close>

theorem proxy_write_hops:
  assumes "proxyWrite pe op key val p = (res, p')"
  shows "\<exists>xs. calls p' = calls p @ xs \<and> length xs \<le> 3 \<and>
    write_trace pe (writeRequest op key val) 1 (cvLeaderAddress (pxView p)) xs res \<and>
    (isl res \<longrightarrow> aeStatus (projl res) = 503 \<and> 0 < aeRetryAfter (projl res) \<and>
       (fst (allNodesOpen (peLib pe) (peStart pe) (pxView p) p) \<or> refreshes p < refreshes p'))"
proof -
  obtain b p1 where o: "allNodesOpen (peLib pe) (peStart pe) (pxView p) p = (b, p1)" by force
  note e = allNodesOpen_effect [OF o]
  consider "b" | "\<not> b" "cvLeaderAddress (pxView p) = ''''" | "\<not> b" "cvLeaderAddress (pxView p) \<noteq> ''''" by blast
  then show ?thesis
  proof cases
    case 3
    then have "writeLoop pe op key val maxHops (cvLeaderAddress (pxView p)) p1 = (res, p')"
      using assms by (simp add: proxyWrite_def o Let_def)
    from writeLoop_trace [OF order.refl this] show ?thesis using e by (auto simp: maxHops_def o)
  qed (use assms e in \<open>auto simp: proxyWrite_def o Let_def write_trace_def errUnavailable_def circuitbreakerRetryAfter_def
      defaultRefreshInterval_def second_def\<close>)
qed

definition demoEnv :: "(breakerSettings \<times> cbState \<times> nat \<times> int) proxyEnv" where
  "demoEnv = \<lparr>peLib = demoLib, peStart = 0, peClock = (\<lambda>k. (int k, int k)),
     peWrite = (\<lambda>k a req. if a = ''b:2'' then Inr \<lparr>wrSuccess = True, wrRedirectLeader = '''', wrCommitIndex = 7\<rparr>
        else Inr \<lparr>wrSuccess = False, wrRedirectLeader = ''b:2'', wrCommitIndex = 0\<rparr>),
     peGet = (\<lambda>k a req. if a = ''b:2'' then Inr \<lparr>grFound = True, grValue = ''v'', grRedirectLeader = '''', grOk = True\<rparr> else Inl ''refused''),
     peErrText = (\<lambda>_. '''')\<rparr>"

definition demoProxy :: "(breakerSettings \<times> cbState \<times> nat \<times> int) Proxy" where
  "demoProxy = NewProxy\<lparr>pxView := \<lparr>cvLeaderAddress = ''a:1'', cvFollowers = [], cvAllNodes = []\<rparr>\<rparr>"

lemma demo_write: "proxyWrite demoEnv OpPut ''k'' ''v'' demoProxy =
    (Inr \<lparr>wrSuccess = True, wrRedirectLeader = '''', wrCommitIndex = 7\<rparr>, snd (proxyWrite demoEnv OpPut ''k'' ''v'' demoProxy))"
  "calls (snd (proxyWrite demoEnv OpPut ''k'' ''v'' demoProxy)) = [''a:1'', ''b:2'']"
  by (simp_all add: proxyWrite_def demoProxy_def NewProxy_def allNodesOpen_def maxHops_def numeral_3_eq_3 callWrite_def guarded_def
      demoEnv_def demoLib_def breakerCall_def breakerFor_def NewBreakerRegistry_def settingsFor_def updateLeaderCache_def Let_def prod_eq_iff)

theorem proxy_write_hops_witness:
  "\<exists>xs. calls (snd (proxyWrite demoEnv OpPut ''k'' ''v'' demoProxy)) = xs \<and> length xs \<le> 3 \<and> xs = [''a:1'', ''b:2''] \<and>
    write_trace demoEnv (CallPut \<lparr>prKey = ''k'', prValue = ''v''\<rparr>) 1 ''a:1'' xs (Inr \<lparr>wrSuccess = True, wrRedirectLeader = '''', wrCommitIndex = 7\<rparr>)"
  using proxy_write_hops [OF demo_write(1)] demo_write(2)
  by (simp add: demoProxy_def NewProxy_def writeRequest_def)

text \<open>
  The node a read falls back to when the follower at \<open>turn\<close> did not answer it: the leader the follower's reply names, or else the
  cached one.
\<close>

definition fallbackLeader :: "'b proxyEnv \<Rightarrow> string \<Rightarrow> addr \<Rightarrow> bool \<Rightarrow> addr \<Rightarrow> addr" where
  "fallbackLeader pe key cached called turn =
     (case peGet pe 1 turn \<lparr>grKey = key\<rparr> of
        Inr r \<Rightarrow> if called \<and> \<not> grOk r \<and> grRedirectLeader r \<noteq> '''' then grRedirectLeader r else cached
      | Inl _ \<Rightarrow> cached)"

lemma follower_read:
  assumes "cvFollowers (pxView p) \<noteq> []" "allNodesOpen (peLib pe) (peStart pe) (pxView p) p = (False, p1)" "proxyGet pe key p = (res, p')"
  defines "turn \<equiv> niAddress (cvFollowers (pxView p) ! (rrIndex p mod length (cvFollowers (pxView p))))"
  shows "rrIndex p' = Suc (rrIndex p) \<and> (\<exists>ts us. calls p' = calls p @ map snd (ts @ us) \<and> (ts = [] \<or> ts = [(1, turn)]) \<and>
    (us = [] \<or> us = [(2, fallbackLeader pe key (cvLeaderAddress (pxView p)) (ts \<noteq> []) turn)]) \<and>
    read_ends pe key (ts @ us) (refreshes p < refreshes p') res)"
proof -
  note e = allNodesOpen_effect [OF assms(2)]
  let ?p2 = "p1\<lparr>rrIndex := Suc (rrIndex p)\<rparr>"
  obtain r p3 where c: "callGet pe 1 turn key ?p2 = (r, p3)" by force
  note g = guarded_effect(1-3) [OF c [unfolded callGet_def]]
  have run: "proxyGet pe key p = (case r of Inl _ \<Rightarrow> singleHopLeaderGet pe key p3
      | Inr reply \<Rightarrow> if \<not> grOk reply then singleHopLeaderGet pe key
            (if grRedirectLeader reply \<noteq> '''' then updateLeaderCache (grRedirectLeader reply) p3 else p3)
          else (answered reply, p3))"
    using assms(1) c by (simp add: proxyGet_def assms(2) pickFollowerRoundRobin_def e turn_def split: sum.split)
  have fall: ?thesis if hop: "singleHopLeaderGet pe key q = (res, p')" and q: "calls q = calls p3" "refreshes q = refreshes p3" "rrIndex q = rrIndex p3"
    and ts: "calls p3 = calls p @ map snd ts" "ts = [] \<or> ts = [(1, turn)]" "\<forall>t \<in> set ts. \<forall>x. \<not> authoritative pe key t x"
      "cvLeaderAddress (pxView q) = fallbackLeader pe key (cvLeaderAddress (pxView p)) (ts \<noteq> []) turn" for q ts
  proof -
    from singleHop_trace [OF hop] obtain us where us: "calls p' = calls q @ map snd us" "us = [] \<or> us = [(2, cvLeaderAddress (pxView q))]"
      "read_ends pe key us (refreshes q < refreshes p') res" "rrIndex p' = rrIndex q" by blast
    have "read_ends pe key us (refreshes p < refreshes p') res" by (rule read_ends_mono [OF us(3)]) (use g(3) e q in simp)
    from read_ends_cons [OF this] have "read_ends pe key (ts @ us) (refreshes p < refreshes p') res"
      using \<open>read_ends pe key us (refreshes p < refreshes p') res\<close> ts(2,3) by auto
    then show ?thesis using us ts q g(2) by (intro conjI exI [of _ ts] exI [of _ us]) auto
  qed
  from c show ?thesis
  proof (cases rule: callGet_outcomes)
    case (skipped x)
    then show ?thesis using run assms(3) g e by (intro fall [of p3 "[]"]) (auto simp: fallbackLeader_def split: sum.split)
  next
    case (failed x)
    then have "cvLeaderAddress (pxView p3) = fallbackLeader pe key (cvLeaderAddress (pxView p)) True turn"
      using g e failed(3) by (auto simp: fallbackLeader_def split: sum.split)
    then show ?thesis using failed run assms(3) e by (intro fall [of p3 "[(1, turn)]"]) (auto simp: authoritative_def)
  next
    case (replied reply)
    show ?thesis
    proof (cases "grOk reply")
      case True
      then have au: "authoritative pe key (1, turn) reply" using replied(3) by (simp add: authoritative_def)
      show ?thesis using True run assms(3) replied g e read_ends_simps(1) [OF au]
        by (intro conjI exI [of _ "[(1, turn)]"] exI [of _ "[]"]) auto
    next
      case False
      let ?q = "if grRedirectLeader reply \<noteq> '''' then updateLeaderCache (grRedirectLeader reply) p3 else p3"
      have "cvLeaderAddress (pxView ?q) = fallbackLeader pe key (cvLeaderAddress (pxView p)) True turn"
        using False replied(3) g e by (simp add: fallbackLeader_def)
      then show ?thesis using False run assms(3) replied e
        by (intro fall [of ?q "[(1, turn)]"]) (auto simp: authoritative_def)
    qed
  qed
qed

text \<open>
  C34: Reads fall back once and are answered by a node. With known followers a read calls the follower whose turn it is and at most
  one more node, the leader; without, the cached leader and then the nodes it is redirected to, at most \<open>maxHops\<close>. The
  result is that of the first reply marked authoritative, which is the last call: its value, or 404 when it did not find the key. When no
  called node gave one the result is a 503 with a retry hint, and a refresh is started.
\<close>

theorem proxy_get_fallback:
  assumes "proxyGet pe key p = (res, p')" "\<not> fst (allNodesOpen (peLib pe) (peStart pe) (pxView p) p)"
  shows "if cvFollowers (pxView p) = []
    then \<exists>xs. calls p' = calls p @ xs \<and> length xs \<le> 3 \<and> redirected pe key (cvLeaderAddress (pxView p)) (enumerate 1 xs) \<and>
      read_ends pe key (enumerate 1 xs) (refreshes p < refreshes p') res
    else rrIndex p' = Suc (rrIndex p) \<and>
      (\<exists>turn ts us. turn = niAddress (cvFollowers (pxView p) ! (rrIndex p mod length (cvFollowers (pxView p)))) \<and>
        calls p' = calls p @ map snd (ts @ us) \<and> (ts = [] \<or> ts = [(1, turn)]) \<and>
        (us = [] \<or> us = [(2, fallbackLeader pe key (cvLeaderAddress (pxView p)) (ts \<noteq> []) turn)]) \<and>
        read_ends pe key (ts @ us) (refreshes p < refreshes p') res)"
proof -
  obtain p1 where o: "allNodesOpen (peLib pe) (peStart pe) (pxView p) p = (False, p1)"
    using assms(2) by (cases "allNodesOpen (peLib pe) (peStart pe) (pxView p) p") auto
  note e = allNodesOpen_effect [OF o]
  show ?thesis
  proof (cases "cvFollowers (pxView p) = []")
    case True
    then have g: "leaderPathGet pe (cvLeaderAddress (pxView p)) key p1 = (res, p')" using assms(1) by (simp add: proxyGet_def o)
    show ?thesis
    proof (cases "cvLeaderAddress (pxView p) = ''''")
      case False
      with g have "leaderPathLoop pe key maxHops (cvLeaderAddress (pxView p)) p1 = (res, p')" by (simp add: leaderPathGet_def)
      from leaderPath_trace [OF order.refl this] show ?thesis using True e by (auto simp: maxHops_def)
    qed (use g True e in \<open>auto simp: leaderPathGet_def one_call intro!: exI [of _ "[]"] read_ends_simps(2)\<close>)
  next
    case False
    with follower_read [OF False o assms(1)] show ?thesis by auto
  qed
qed

definition followerEnv :: "(breakerSettings \<times> cbState \<times> nat \<times> int) proxyEnv" where
  "followerEnv = demoEnv\<lparr>peGet := \<lambda>k a req. if a = ''b:2'' then Inr \<lparr>grFound = False, grValue = '''', grRedirectLeader = '''', grOk = True\<rparr>
     else Inr \<lparr>grFound = False, grValue = '''', grRedirectLeader = ''b:2'', grOk = False\<rparr>\<rparr>"

definition followerProxy :: "(breakerSettings \<times> cbState \<times> nat \<times> int) Proxy" where
  "followerProxy = NewProxy\<lparr>pxView := \<lparr>cvLeaderAddress = ''a:1'',
     cvFollowers = [\<lparr>niNodeId = ''c'', niAddress = ''c:3'', niRole = Role_FOLLOWER, niTerm = 1\<rparr>], cvAllNodes = []\<rparr>\<rparr>"

theorem proxy_get_fallback_witness:
  "\<exists>ts us p'. proxyGet followerEnv ''k'' followerProxy = (Inl (errNotFound ''key not found''), p') \<and>
     calls p' = [''c:3'', ''b:2''] \<and> calls p' = map snd (ts @ us) \<and> us = [(2, ''b:2'')] \<and>
     read_ends followerEnv ''k'' (ts @ us) (0 < refreshes p') (Inl (errNotFound ''key not found''))"
proof -
  have r: "fst (proxyGet followerEnv ''k'' followerProxy) = Inl (errNotFound ''key not found'')"
    "calls (snd (proxyGet followerEnv ''k'' followerProxy)) = [''c:3'', ''b:2'']"
    by (simp_all add: proxyGet_def followerProxy_def followerEnv_def NewProxy_def allNodesOpen_def pickFollowerRoundRobin_def callGet_def guarded_def
        singleHopLeaderGet_def demoEnv_def demoLib_def breakerCall_def breakerFor_def NewBreakerRegistry_def settingsFor_def
        consecutiveFailuresToTrip_def updateLeaderCache_def answered_def Let_def)
  obtain p' where p: "proxyGet followerEnv ''k'' followerProxy = (Inl (errNotFound ''key not found''), p')" "calls p' = [''c:3'', ''b:2'']"
    using r by (cases "proxyGet followerEnv ''k'' followerProxy") auto
  have s: "cvFollowers (pxView followerProxy) \<noteq> []" "calls followerProxy = []" "refreshes followerProxy = 0"
    "\<not> fst (allNodesOpen (peLib followerEnv) (peStart followerEnv) (pxView followerProxy) followerProxy)"
    by (simp_all add: followerProxy_def NewProxy_def allNodesOpen_def)
  obtain ts us turn where t: "calls p' = map snd (ts @ us)" "ts = [] \<or> ts = [(1, turn)]"
    "us = [] \<or> us = [(2, fallbackLeader followerEnv ''k'' (cvLeaderAddress (pxView followerProxy)) (ts \<noteq> []) turn)]"
    "read_ends followerEnv ''k'' (ts @ us) (0 < refreshes p') (Inl (errNotFound ''key not found''))"
    using proxy_get_fallback [OF p(1) s(4)] s(1-3) by auto
  then have "us = [(2, ''b:2'')]" using p(2) by auto
  then show ?thesis using p t by blast
qed

fun picks :: "NodeInfo list \<Rightarrow> nat \<Rightarrow> 'b Proxy \<Rightarrow> addr list" where
  "picks fs 0 p = []"
| "picks fs (Suc n) p = (case pickFollowerRoundRobin fs p of (a, p1) \<Rightarrow> a # picks fs n p1)"

lemma picks_nth: "picks fs n p = map (\<lambda>i. niAddress (fs ! ((rrIndex p + i) mod length fs))) [0 ..< n]"
proof (induction n arbitrary: p)
  case (Suc n)
  show ?case unfolding picks.simps pickFollowerRoundRobin_def prod.case Suc.IH
    by (simp add: map_upt_Suc del: upt_Suc)
qed simp

text \<open>
  The round robin is fair: in as many consecutive reads as there are followers, each follower is chosen exactly once.
\<close>

theorem round_robin_fair: "mset (picks fs (length fs) p) = mset (map niAddress fs)"
proof -
  have "picks fs (length fs) p = map niAddress (rotate (rrIndex p) fs)"
    by (rule nth_equalityI) (simp_all add: picks_nth nth_rotate)
  moreover have "mset (rotate n xs) = mset xs" for n and xs :: "NodeInfo list"
    by (metis append_take_drop_id mset_append rotate_drop_take union_commute)
  ultimately show ?thesis by (metis mset_map)
qed

text \<open>
  The responses of the REST handlers. A body without a value is refused with 400 before any node is called. A
  write answers 201, 200 or 204, by its kind, with the commit index of the reply exactly when the routing succeeded, and
  otherwise 503 with a retry hint of two seconds.
\<close>

theorem http_write_responses:
  assumes "handlePush pe key body p = (push, p1)" "handleUpdate pe key body p = (upd, p2)" "handleDelete pe key p = (del, p3)"
  shows "(\<not> isl (decodeValueBody body) \<or> push = upd \<and> rsStatus push = 400 \<and> p1 = p \<and> p2 = p) \<and>
    (isl (decodeValueBody body) \<or>
       (case proxyWrite pe OpPut key (projr (decodeValueBody body)) p of
          (Inr r, q) \<Rightarrow> p1 = q \<and> rsStatus push = 201 \<and> map_of (rsHeaders push) ''X-Commit-Index'' = Some (showNat (wrCommitIndex r))
        | (Inl e, q) \<Rightarrow> p1 = q \<and> rsStatus push = 503 \<and> map_of (rsHeaders push) ''Retry-After'' = Some ''2'')) \<and>
    (isl (decodeValueBody body) \<or>
       (case proxyWrite pe OpUpdate key (projr (decodeValueBody body)) p of
          (Inr r, q) \<Rightarrow> p2 = q \<and> rsStatus upd = 200 \<and> map_of (rsHeaders upd) ''X-Commit-Index'' = Some (showNat (wrCommitIndex r))
        | (Inl e, q) \<Rightarrow> p2 = q \<and> rsStatus upd = 503 \<and> map_of (rsHeaders upd) ''Retry-After'' = Some ''2'')) \<and>
    (case proxyWrite pe OpDelete key '''' p of
       (Inr r, q) \<Rightarrow> p3 = q \<and> rsStatus del = 204 \<and> map_of (rsHeaders del) ''X-Commit-Index'' = Some (showNat (wrCommitIndex r))
     | (Inl e, q) \<Rightarrow> p3 = q \<and> rsStatus del = 503 \<and> map_of (rsHeaders del) ''Retry-After'' = Some ''2'')"
proof -
  have e: "rsStatus (writeError e) = 503 \<and> map_of (rsHeaders (writeError e)) ''Retry-After'' = Some ''2''"
    if "proxyWrite pe op key v p = (Inl e, q)" for op v e q
    using proxyWrite_error [OF that] by (auto simp: writeError_unavailable)
  show ?thesis
  proof (cases "decodeValueBody body")
    case (Inl b)
    then have "rsStatus (writeError b) = 400"
      by (auto simp: decodeValueBody_def errBadRequest_def writeError_def writeJSON_def Let_def split: jsonInput.splits option.splits)
    with Inl show ?thesis using assms e
      by (auto simp: handlePush_def handleUpdate_def handleDelete_def writeCommitted_def writeJSON_def split: prod.splits sum.splits)
  next
    case (Inr v)
    then show ?thesis using assms e
      by (auto simp: handlePush_def handleUpdate_def handleDelete_def writeCommitted_def writeJSON_def split: prod.splits sum.splits)
  qed
qed

theorem http_write_responses_witness:
  "rsStatus (fst (handlePush demoEnv ''k'' (Parsed (Some ''v'')) demoProxy)) = 201 \<and>
   map_of (rsHeaders (fst (handlePush demoEnv ''k'' (Parsed (Some ''v'')) demoProxy))) ''X-Commit-Index'' = Some ''7''"
proof -
  have d: "decodeValueBody (Parsed (Some ''v'')) = Inr ''v''" by (simp add: decodeValueBody_def)
  obtain q where q: "proxyWrite demoEnv OpPut ''k'' ''v'' demoProxy = (Inr \<lparr>wrSuccess = True, wrRedirectLeader = '''', wrCommitIndex = 7\<rparr>, q)"
    using demo_write(1) by blast
  from http_write_responses [where pe = demoEnv and key = "''k''" and body = "Parsed (Some ''v'')" and p = demoProxy,
      OF surjective_pairing surjective_pairing surjective_pairing]
  show ?thesis by (simp add: d q showNat_digits_27)
qed

end
