(* ===== verification/Rest.thy ===== *)
theory Rest
  imports Go_Json Proxy
begin

text \<open>
  The REST surface as a client sees it: \<open>NewHTTPHandler\<close> of \<open>internal/proxy/http.go\<close> with the routing of \<open>http.ServeMux\<close>, the decoding of a
  request body into the struct of the handlers, and the text of the responses. A request is its method (any but \<open>CONNECT\<close>), its escaped path
  (\<open>URL.EscapedPath\<close>) and its body. The pages of the library for unknown paths and methods are named, not spelled out.
\<close>

section \<open>Path segments\<close>

definition unreserved :: "char \<Rightarrow> bool" where
  "unreserved c \<longleftrightarrow> isDigit c \<or> 65 \<le> code c \<and> code c \<le> 90 \<or> 97 \<le> code c \<and> code c \<le> 122 \<or> c \<in> set ''-_.~$&+:=@''"

text \<open>\<open>url.PathEscape\<close>, which clients use for the key, and its inverse.\<close>

definition escapeChar :: "char \<Rightarrow> string" where
  "escapeChar c = (if unreserved c then [c] else [CHR ''%'', hexChar upperHex (code c div 16), hexChar upperHex (code c mod 16)])"

definition PathEscape :: "string \<Rightarrow> string" where
  "PathEscape s = concat (map escapeChar s)"

fun unescape :: "string \<Rightarrow> string option" where
  "unescape [] = Some []"
| "unescape (c # r) =
     (if c = CHR ''%'' then
        (case r of
           x # y # r' \<Rightarrow>
             (case (hexVal x, hexVal y) of
                (Some a, Some b) \<Rightarrow> map_option ((#) (char_of (16 * a + b))) (unescape r')
              | _ \<Rightarrow> None)
         | _ \<Rightarrow> None)
      else map_option ((#) c) (unescape r))"

definition pathUnescape :: "string \<Rightarrow> string" where
  "pathUnescape s = (case unescape s of Some u \<Rightarrow> u | None \<Rightarrow> s)"

text \<open>\<open>path.Clean\<close> on a rooted path, and \<open>cleanPath\<close>, which keeps a trailing slash.\<close>

fun cleanSegs :: "string list \<Rightarrow> string list \<Rightarrow> string list" where
  "cleanSegs acc [] = rev acc"
| "cleanSegs acc (s # ss) =
     (if s = [] \<or> s = ''.'' then cleanSegs acc ss
      else if s = ''..'' then cleanSegs (tl acc) ss
      else cleanSegs (s # acc) ss)"

definition joinSegs :: "string list \<Rightarrow> string" where
  "joinSegs ss = (if ss = [] then ''/'' else concat (map (\<lambda>s. CHR ''/'' # s) ss))"

definition cleanPath :: "string \<Rightarrow> string" where
  "cleanPath p =
     (let p = (if p = [] \<or> hd p \<noteq> CHR ''/'' then CHR ''/'' # p else p);
          np = joinSegs (cleanSegs [] (splitOn (CHR ''/'') (tl p)))
      in if last p = CHR ''/'' \<and> np \<noteq> ''/'' then np @ ''/'' else np)"

section \<open>The router\<close>

datatype pseg = Lit string | Wild

datatype handler = ToHealthz | ToPush | ToUpdate | ToGet | ToDelete

definition NewHTTPHandler :: "(string \<times> pseg list \<times> handler) list" where
  "NewHTTPHandler =
     [(''GET'', [Lit ''healthz''], ToHealthz),
      (''POST'', [Lit ''v1'', Lit ''kv'', Wild], ToPush),
      (''PUT'', [Lit ''v1'', Lit ''kv'', Wild], ToUpdate),
      (''GET'', [Lit ''v1'', Lit ''kv'', Wild], ToGet),
      (''DELETE'', [Lit ''v1'', Lit ''kv'', Wild], ToDelete)]"

text \<open>
  The segments a cleaned path is matched by. A trailing slash is the segment \<open>/\<close>, which no wildcard matches.
\<close>

definition pathSegs :: "string \<Rightarrow> string list" where
  "pathSegs p =
     (let ss = splitOn (CHR ''/'') (tl p)
      in map pathUnescape (butlast ss) @ [if last ss = [] then ''/'' else pathUnescape (last ss)])"

fun matchSegs :: "pseg list \<Rightarrow> string list \<Rightarrow> string list option" where
  "matchSegs [] [] = Some []"
| "matchSegs (Lit l # ps) (s # ss) = (if l = s then matchSegs ps ss else None)"
| "matchSegs (Wild # ps) (s # ss) = (if s \<noteq> ''/'' then map_option ((#) s) (matchSegs ps ss) else None)"
| "matchSegs _ _ = None"

definition methodMatches :: "string \<Rightarrow> string \<Rightarrow> bool" where
  "methodMatches pat m \<longleftrightarrow> pat = m \<or> pat = ''GET'' \<and> m = ''HEAD''"

datatype routed = To handler "string list" | MovedPermanently string | MethodNotAllowed "string list" | NotFound

definition allowed :: "(string \<times> pseg list \<times> handler) list \<Rightarrow> string list \<Rightarrow> string list" where
  "allowed mux segs =
     sort (remdups (concat (map (\<lambda>(m, ps, _). if matchSegs ps segs = None then [] else if m = ''GET'' then [''GET'', ''HEAD''] else [m]) mux)))"

definition findHandler :: "(string \<times> pseg list \<times> handler) list \<Rightarrow> string \<Rightarrow> string \<Rightarrow> routed" where
  "findHandler mux meth escaped =
     (let path = cleanPath escaped; segs = pathSegs path
      in if path \<noteq> escaped then MovedPermanently path
         else (case filter (\<lambda>(m, ps, _). methodMatches m meth \<and> matchSegs ps segs \<noteq> None) mux of
                 (_, ps, h) # _ \<Rightarrow> To h (the (matchSegs ps segs))
               | [] \<Rightarrow> if allowed mux segs = [] then NotFound else MethodNotAllowed (allowed mux segs)))"

section \<open>Bodies\<close>

text \<open>
  Members are assigned in order, so the last one counts; the name is compared without regard to case. A value that is neither a
  string nor \<open>null\<close> makes the whole call fail.
\<close>

fun assignValue :: "(string \<times> json) list \<Rightarrow> string option \<Rightarrow> jsonInput" where
  "assignValue [] v = Parsed v"
| "assignValue ((k, j) # ms) v =
     (if asciiLower k = ''value'' then
        (case j of JStr s \<Rightarrow> assignValue ms (Some s) | JNull \<Rightarrow> assignValue ms None | _ \<Rightarrow> Malformed)
      else assignValue ms v)"

definition decodeBody :: "string \<Rightarrow> jsonInput" where
  "decodeBody text =
     (case jsonDecode text of
        Some (JObj ms) \<Rightarrow> assignValue ms None
      | Some JNull \<Rightarrow> Parsed None
      | _ \<Rightarrow> Malformed)"

text \<open>Maps are written with their keys in order, and the encoder ends the text with a line feed.\<close>

definition renderBody :: "jsonBody \<Rightarrow> string" where
  "renderBody b =
     (case b of
        NoBody \<Rightarrow> []
      | CommittedBody k i \<Rightarrow> ''{'' @ jsonMember ''commitIndex'' (showNat i) @ '','' @ jsonMember ''key'' (encStr k) @ ''}'' @ newline
      | ValueBody k v \<Rightarrow> ''{'' @ jsonMember ''key'' (encStr k) @ '','' @ jsonMember ''value'' (encStr v) @ ''}'' @ newline
      | ErrorBody c m \<Rightarrow> ''{'' @ jsonMember ''error'' (''{'' @ jsonMember ''code'' (encStr c) @ '','' @ jsonMember ''message'' (encStr m) @ ''}'') @ ''}'' @ newline
      | HealthBody \<Rightarrow> ''{'' @ jsonMember ''status'' (encStr ''ok'') @ ''}'' @ newline)"

section \<open>A request\<close>

record rawResponse =
  rwStatus :: nat
  rwHeaders :: "(string \<times> string) list"
  rwText :: string

datatype served = Served rawResponse | Library routed

definition respond :: "string \<Rightarrow> httpResponse \<Rightarrow> served" where
  "respond meth r = Served \<lparr>rwStatus = rsStatus r, rwHeaders = rsHeaders r, rwText = (if meth = ''HEAD'' then [] else renderBody (rsBody r))\<rparr>"

definition ServeHTTP :: "'b proxyEnv \<Rightarrow> string \<Rightarrow> string \<Rightarrow> string \<Rightarrow> 'b Proxy \<Rightarrow> served \<times> 'b Proxy" where
  "ServeHTTP pe meth escaped body p =
     (case findHandler NewHTTPHandler meth escaped of
        To h vs \<Rightarrow>
          (let key = (case vs of k # _ \<Rightarrow> k | [] \<Rightarrow> []);
               (r, p') = (case h of
                  ToHealthz \<Rightarrow> (handleHealthz, p)
                | ToPush \<Rightarrow> handlePush pe key (decodeBody body) p
                | ToUpdate \<Rightarrow> handleUpdate pe key (decodeBody body) p
                | ToGet \<Rightarrow> handleGet pe key p
                | ToDelete \<Rightarrow> handleDelete pe key p)
           in (respond meth r, p'))
      | other \<Rightarrow> (Library other, p))"

section \<open>Escaping is undone by the router\<close>

lemma hexVal_upper: "d < 16 \<Longrightarrow> hexVal (hexChar upperHex d) = Some d"
proof -
  have "\<forall>d \<in> set [0..<16]. hexVal (hexChar upperHex d) = Some d" by code_simp
  then show "d < 16 \<Longrightarrow> ?thesis" by simp
qed

lemma hexChar_no_slash: "d < 16 \<Longrightarrow> hexChar upperHex d \<noteq> CHR ''/''"
proof -
  have "\<forall>d \<in> set [0..<16]. hexChar upperHex d \<noteq> CHR ''/''" by code_simp
  then show "d < 16 \<Longrightarrow> ?thesis" by simp
qed

lemma not_unreserved: "\<not> unreserved (CHR ''%'')" "\<not> unreserved (CHR ''/'')"
  by (simp_all add: unreserved_def isDigit_def code_def)

lemma unescape_PathEscape: "unescape (PathEscape s) = Some s"
proof (induction s)
  case (Cons c s)
  have "code c div 16 < 16" "code c mod 16 < 16" "char_of (16 * (code c div 16) + code c mod 16) = c"
    using code_less [of c] by simp_all
  with Cons show ?case using not_unreserved by (auto simp: PathEscape_def escapeChar_def hexVal_upper)
qed (simp add: PathEscape_def)

lemma PathEscape_no_slash: "CHR ''/'' \<notin> set (PathEscape s)"
proof -
  have "CHR ''/'' \<notin> set (escapeChar c)" for c
  proof -
    have "hexChar upperHex (code c div 16) \<noteq> CHR ''/''" "hexChar upperHex (code c mod 16) \<noteq> CHR ''/''"
      using code_less [of c] by (simp_all add: hexChar_no_slash)
    then show ?thesis using not_unreserved(2) by (auto simp: escapeChar_def)
  qed
  then show ?thesis by (auto simp: PathEscape_def)
qed

text \<open>A key has a path of its own unless it is empty, a dot segment, or a single slash.\<close>

definition addressable :: "string \<Rightarrow> bool" where
  "addressable k \<longleftrightarrow> k \<notin> {[], ''.'', ''..'', ''/''}"

definition keyPath :: "string \<Rightarrow> string" where
  "keyPath k = ''/v1/kv/'' @ PathEscape k"

lemma keyPath_segs: "splitOn (CHR ''/'') (tl (keyPath k)) = [''v1'', ''kv'', PathEscape k]"
  using splitOn_append [of "CHR ''/''" "''v1''" "''kv/'' @ PathEscape k"] splitOn_append [of "CHR ''/''" "''kv''" "PathEscape k"]
    splitOn_no_sep [OF PathEscape_no_slash [of k]]
  by (simp add: keyPath_def)

lemma keyPath_routed:
  assumes "addressable k"
  shows "cleanPath (keyPath k) = keyPath k" "pathSegs (keyPath k) = [''v1'', ''kv'', k]"
proof -
  let ?e = "PathEscape k"
  have ne: "?e \<noteq> x" if "unescape x = Some u" "k \<noteq> u" for x u using unescape_PathEscape [of k] that by auto
  have e: "?e \<noteq> []" "?e \<noteq> ''.''" "?e \<noteq> ''..''"
    using assms ne [of "[]" "[]"] ne [of "''.''" "''.''"] ne [of "''..''" "''..''"] by (auto simp: addressable_def)
  have "last (keyPath k) \<noteq> CHR ''/''"
    using e(1) PathEscape_no_slash [of k] last_in_set [of ?e] by (cases "last ?e = CHR ''/''") (simp_all add: keyPath_def)
  moreover have "hd (keyPath k) = CHR ''/''" "keyPath k \<noteq> []" by (simp_all add: keyPath_def)
  ultimately show "cleanPath (keyPath k) = keyPath k"
    using e by (simp add: cleanPath_def keyPath_segs joinSegs_def Let_def) (simp add: keyPath_def)
  show "pathSegs (keyPath k) = [''v1'', ''kv'', k]"
    using e by (simp add: pathSegs_def keyPath_segs pathUnescape_def unescape_PathEscape)
qed

lemma keyPath_handler:
  assumes "addressable k"
  shows "findHandler NewHTTPHandler ''POST'' (keyPath k) = To ToPush [k]" "findHandler NewHTTPHandler ''PUT'' (keyPath k) = To ToUpdate [k]"
    "findHandler NewHTTPHandler ''GET'' (keyPath k) = To ToGet [k]" "findHandler NewHTTPHandler ''HEAD'' (keyPath k) = To ToGet [k]"
    "findHandler NewHTTPHandler ''DELETE'' (keyPath k) = To ToDelete [k]"
  using assms keyPath_routed [OF assms] by (simp_all add: findHandler_def NewHTTPHandler_def methodMatches_def addressable_def)

text \<open>The others have none: the router redirects away from them or finds nothing.\<close>

lemma unaddressable:
  "findHandler NewHTTPHandler m (keyPath '''') = NotFound"
  "findHandler NewHTTPHandler m (keyPath ''.'') = MovedPermanently ''/v1/kv''"
  "findHandler NewHTTPHandler m (keyPath ''..'') = MovedPermanently ''/v1''"
  "findHandler NewHTTPHandler m (keyPath ''/'') = NotFound"
proof -
  have c: "cleanPath (keyPath '''') = keyPath ''''" "cleanPath (keyPath ''.'') = ''/v1/kv''" "cleanPath (keyPath ''..'') = ''/v1''"
    "cleanPath (keyPath ''/'') = keyPath ''/''" by code_simp+
  have k: "keyPath ''.'' \<noteq> ''/v1/kv''" "keyPath ''..'' \<noteq> ''/v1''" by code_simp+
  have g: "pathSegs (keyPath '''') = [''v1'', ''kv'', ''/'']" "pathSegs (keyPath ''/'') = [''v1'', ''kv'', ''/'']" by code_simp+
  show "findHandler NewHTTPHandler m (keyPath '''') = NotFound" "findHandler NewHTTPHandler m (keyPath ''/'') = NotFound"
    unfolding findHandler_def Let_def c g by (simp_all add: NewHTTPHandler_def allowed_def)
  show "findHandler NewHTTPHandler m (keyPath ''.'') = MovedPermanently ''/v1/kv''"
    "findHandler NewHTTPHandler m (keyPath ''..'') = MovedPermanently ''/v1''"
    unfolding findHandler_def Let_def c using k by simp_all
qed

section \<open>Bodies are read as they were written\<close>

lemma own_names:
  "toValidUTF8 ''value'' = ''value''" "toValidUTF8 ''key'' = ''key''" "toValidUTF8 ''commitIndex'' = ''commitIndex''" "toValidUTF8 ''error'' = ''error''"
  "toValidUTF8 ''code'' = ''code''" "toValidUTF8 ''message'' = ''message''" "asciiLower ''value'' = ''value''"
  by code_simp+

lemma request_body: "decodeBody (''{'' @ jsonMember ''value'' (encStr v) @ ''}'' @ t) = Parsed (Some (toValidUTF8 v))"
  by (simp add: decodeBody_def jsonMember_def decode_simps own_names)

lemma response_body:
  "jsonDecode (renderBody (ValueBody k v)) = Some (JObj [(''key'', JStr (toValidUTF8 k)), (''value'', JStr (toValidUTF8 v))])"
  "jsonDecode (renderBody (CommittedBody k i)) = Some (JObj [(''commitIndex'', JNum (showNat i)), (''key'', JStr (toValidUTF8 k))])"
  "jsonDecode (renderBody (ErrorBody c m)) = Some (JObj [(''error'', JObj [(''code'', JStr (toValidUTF8 c)), (''message'', JStr (toValidUTF8 m))])])"
  by (simp_all add: renderBody_def jsonMember_def decode_simps own_names)

section \<open>From the client's request to the proxy and back\<close>

definition valueBody :: "string \<Rightarrow> string" where
  "valueBody v = ''{'' @ jsonMember ''value'' (encStr v) @ ''}''"

lemma served_key:
  assumes "addressable k"
  shows "ServeHTTP pe ''POST'' (keyPath k) body p = map_prod (respond ''POST'') id (handlePush pe k (decodeBody body) p)"
    "ServeHTTP pe ''PUT'' (keyPath k) body p = map_prod (respond ''PUT'') id (handleUpdate pe k (decodeBody body) p)"
    "ServeHTTP pe ''GET'' (keyPath k) body p = map_prod (respond ''GET'') id (handleGet pe k p)"
    "ServeHTTP pe ''DELETE'' (keyPath k) body p = map_prod (respond ''DELETE'') id (handleDelete pe k p)"
  by (simp_all add: ServeHTTP_def keyPath_handler [OF assms] split: prod.split)

text \<open>
  C29: What a client sends is what the proxy works on, and what the proxy answers is what the client reads. For every key that has a
  path and every value, whatever bytes they hold and whatever follows the body, a request with the escaped key and
  the encoded value runs the handler of its method with exactly that key and that value; a successful read is a
  text that decodes to the key and to the value the proxy returned. Bytes that are not UTF-8 are replaced.
\<close>

theorem rest_roundtrip:
  assumes "addressable k"
  shows "ServeHTTP pe ''POST'' (keyPath k) (valueBody v @ t) p = map_prod (respond ''POST'') id (handlePush pe k (Parsed (Some (toValidUTF8 v))) p) \<and>
    ServeHTTP pe ''PUT'' (keyPath k) (valueBody v @ t) p = map_prod (respond ''PUT'') id (handleUpdate pe k (Parsed (Some (toValidUTF8 v))) p) \<and>
    ServeHTTP pe ''DELETE'' (keyPath k) t p = map_prod (respond ''DELETE'') id (handleDelete pe k p) \<and>
    (case proxyGet pe k p of
       (Inr reply, q) \<Rightarrow>
         \<exists>r. ServeHTTP pe ''GET'' (keyPath k) t p = (Served r, q) \<and> rwStatus r = 200 \<and>
           jsonDecode (rwText r) = Some (JObj [(''key'', JStr (toValidUTF8 k)), (''value'', JStr (toValidUTF8 (grValue reply)))])
     | (Inl e, q) \<Rightarrow>
         \<exists>r. ServeHTTP pe ''GET'' (keyPath k) t p = (Served r, q) \<and> rwStatus r = aeStatus e \<and>
           jsonDecode (rwText r) = Some (JObj [(''error'', JObj [(''code'', JStr (toValidUTF8 (aeCode e))), (''message'', JStr (toValidUTF8 (aeMessage e)))])]))"
proof -
  have b: "decodeBody (valueBody v @ t) = Parsed (Some (toValidUTF8 v))" using request_body by (simp add: valueBody_def)
  show ?thesis
    unfolding served_key [OF assms] b
    by (auto simp: handleGet_def respond_def writeJSON_def writeError_def response_body Let_def split: prod.split sum.split)
qed

theorem rest_roundtrip_witness:
  "addressable ''a/b'' \<and> keyPath ''a/b'' = ''/v1/kv/a%2Fb'' \<and> toValidUTF8 ''<v>'' = ''<v>'' \<and>
   ServeHTTP demoEnv ''POST'' ''/v1/kv/a%2Fb'' (valueBody ''<v>'') demoProxy =
     map_prod (respond ''POST'') id (handlePush demoEnv ''a/b'' (Parsed (Some ''<v>'')) demoProxy)"
proof -
  have e: "addressable ''a/b''" "keyPath ''a/b'' = ''/v1/kv/a%2Fb''" "toValidUTF8 ''<v>'' = ''<v>''" by code_simp+
  with rest_roundtrip [OF e(1), of demoEnv "''<v>''" "[]" demoProxy] show ?thesis by simp
qed

text \<open>
  Errors have one shape. Whatever is sent, a response of a handler with an error status is the envelope with a code and a message.
\<close>

definition enveloped :: "httpResponse \<Rightarrow> bool" where
  "enveloped x \<longleftrightarrow> 400 \<le> rsStatus x \<longrightarrow> (\<exists>c m. rsBody x = ErrorBody c m)"

lemma handlers_enveloped:
  "enveloped (fst (handlePush pe k b p))" "enveloped (fst (handleUpdate pe k b p))" "enveloped (fst (handleGet pe k p))"
  "enveloped (fst (handleDelete pe k p))" "enveloped handleHealthz"
  by (auto simp: enveloped_def handlePush_def handleUpdate_def handleGet_def handleDelete_def handleHealthz_def writeCommitted_def writeJSON_def writeError_def Let_def
      split: sum.splits prod.splits)

theorem error_envelope:
  assumes "ServeHTTP pe meth escaped body p = (Served r, q)" "meth \<noteq> ''HEAD''" "400 \<le> rwStatus r"
  shows "\<exists>c m. jsonDecode (rwText r) = Some (JObj [(''error'', JObj [(''code'', JStr c), (''message'', JStr m)])])"
proof -
  have "\<exists>x. enveloped x \<and> respond meth x = Served r"
  proof (cases "findHandler NewHTTPHandler meth escaped")
    case (To h vs)
    define k where "k = (case vs of k # _ \<Rightarrow> k | [] \<Rightarrow> [])"
    from assms(1) To show ?thesis
      using handlers_enveloped(1,2) [of pe k "decodeBody body" p] handlers_enveloped(3,4) [of pe k p] handlers_enveloped(5)
      by (cases h) (auto simp: ServeHTTP_def k_def [symmetric] Let_def split: prod.splits)
  qed (use assms(1) in \<open>simp_all add: ServeHTTP_def\<close>)
  then obtain x c m where "respond meth x = Served r" "rsBody x = ErrorBody c m"
    using assms(3) by (auto simp: enveloped_def respond_def)
  then show ?thesis using assms(2) response_body(3) by (auto simp: respond_def)
qed

end
