(* ===== verification/Loadgen.thy ===== *)
theory Loadgen
  imports Complex_Main Rest
begin

text \<open>
  The load generator \<open>cmd/loadgen/main.go\<close>: its workers, which read back keys of their own, the table of
  measurements it writes, and the percentiles it reports, with the rounding of 64-bit floating point written out.
\<close>

section \<open>Floating point\<close>

text \<open>
  A finite \<open>float64\<close> is the rational it stands for. Every operation rounds its exact result to 53 bits, ties to even; the
  values here stay far from the ends of the exponent's range.
\<close>

definition halfEven :: "rat \<Rightarrow> int" where
  "halfEven z =
     (let f = \<lfloor>z\<rfloor>; d = z - of_int f
      in if d < 1 / 2 then f else if 1 / 2 < d then f + 1 else if even f then f else f + 1)"

fun bits :: "int \<Rightarrow> nat" where
  "bits n = (if n \<le> 0 then 0 else Suc (bits (n div 2)))"

declare bits.simps [simp del]

definition binade :: "rat \<Rightarrow> int" where
  "binade x = (if 1 \<le> x then int (bits \<lfloor>x\<rfloor>) - 1 else - int (bits (\<lceil>1 / x\<rceil> - 1)))"

definition ulp :: "rat \<Rightarrow> rat" where
  "ulp x = 2 powi (binade x - 52)"

definition fl :: "rat \<Rightarrow> rat" where
  "fl x = (if x = 0 then 0 else if x < 0 then - (of_int (halfEven (- x / ulp (- x))) * ulp (- x)) else of_int (halfEven (x / ulp x)) * ulp x)"

lemma halfEven_le: "z \<le> of_int k \<Longrightarrow> halfEven z \<le> k"
  unfolding halfEven_def Let_def by (auto simp: floor_le_iff)

lemma halfEven_near: "\<bar>of_int (halfEven z) - z\<bar> \<le> 1 / 2"
proof -
  define d where "d = z - of_int \<lfloor>z\<rfloor>"
  have "0 \<le> d" "d < 1" "of_int \<lfloor>z\<rfloor> - z = - d" "of_int \<lfloor>z\<rfloor> + 1 - z = 1 - d" using floor_correct [of z] by (auto simp: d_def)
  then show ?thesis by (auto simp: halfEven_def Let_def d_def [symmetric])
qed

lemma bits_bounds: "0 < n \<Longrightarrow> 2 ^ (bits n - 1) \<le> n \<and> n < 2 ^ bits n \<and> 0 < bits n"
proof (induction n rule: bits.induct)
  case (1 n)
  show ?case
  proof (cases "n = 1")
    case True
    then show ?thesis by (simp add: bits.simps)
  next
    case False
    with 1 have i: "2 ^ (bits (n div 2) - 1) \<le> n div 2" "n div 2 < 2 ^ bits (n div 2)" "0 < bits (n div 2)" by auto
    have "2 * 2 ^ (bits (n div 2) - 1) = (2 :: int) ^ bits (n div 2)" using i(3) by (metis Suc_diff_1 power_Suc)
    moreover have "2 * (n div 2) \<le> n" "n < 2 * (n div 2) + 2" by auto
    ultimately have "2 ^ bits (n div 2) \<le> n" "n < 2 * 2 ^ bits (n div 2)" using i by linarith+
    with "1.prems" show ?thesis by (simp add: bits.simps [of n])
  qed
qed

lemma binade_bounds:
  assumes "0 < x"
  shows "2 powi binade x \<le> x" "x < 2 powi (binade x + 1)"
proof -
  have "2 powi binade x \<le> x \<and> x < 2 powi (binade x + 1)"
  proof (cases "1 \<le> x")
    case True
    then have n: "0 < \<lfloor>x\<rfloor>" by simp
    note b = bits_bounds [OF n]
    have "binade x = int (bits \<lfloor>x\<rfloor> - 1)" "binade x + 1 = int (bits \<lfloor>x\<rfloor>)" using True b by (simp_all add: binade_def of_nat_diff)
    moreover have "(2 :: rat) ^ (bits \<lfloor>x\<rfloor> - 1) \<le> x" using b by (metis le_floor_iff of_int_numeral of_int_power)
    moreover have "x < (2 :: rat) ^ bits \<lfloor>x\<rfloor>" using b by (metis floor_less_iff of_int_numeral of_int_power)
    ultimately show ?thesis by (simp only: power_int_of_nat)
  next
    case False
    define y where "y = 1 / x"
    have y: "1 < y" using False assms by (simp add: y_def)
    then have "1 < \<lceil>y\<rceil>" by simp
    then have n: "0 < \<lceil>y\<rceil> - 1" by simp
    note b = bits_bounds [OF n]
    let ?k = "bits (\<lceil>y\<rceil> - 1)"
    have k: "binade x = - int ?k" "binade x + 1 = - int (?k - 1)" using False b by (simp_all add: binade_def y_def of_nat_diff)
    have "\<lceil>y\<rceil> \<le> 2 ^ ?k" using b by simp
    then have u: "y \<le> 2 ^ ?k" by (metis ceiling_le_iff of_int_numeral of_int_power)
    have "2 ^ (?k - 1) < \<lceil>y\<rceil>" using b by simp
    then have l: "2 ^ (?k - 1) < y" by (metis less_ceiling_iff of_int_numeral of_int_power)
    have "inverse (2 ^ ?k) \<le> inverse y" "inverse y < inverse (2 ^ (?k - 1))"
      using u l y by (auto intro: le_imp_inverse_le less_imp_inverse_less)
    moreover have "x = inverse y" by (simp add: y_def)
    ultimately show ?thesis unfolding k(2) unfolding k(1) by (simp only: power_int_minus power_int_of_nat)
  qed
  then show "2 powi binade x \<le> x" "x < 2 powi (binade x + 1)" by simp_all
qed

lemma ulp_small: "0 < x \<Longrightarrow> ulp x \<le> x / 2 ^ 52"
  using binade_bounds(1) [of x] by (simp add: ulp_def power_int_diff divide_right_mono)

lemma ulp_pos: "0 < ulp x"
  by (simp add: ulp_def)

text \<open>The relative error of a rounding, and that it does not pass an integer.\<close>

lemma fl_near:
  assumes "0 \<le> x"
  shows "\<bar>fl x - x\<bar> \<le> x / 2 ^ 53"
proof (cases "x = 0")
  case False
  with assms have x: "0 < x" by simp
  have "\<bar>of_int (halfEven (x / ulp x)) - x / ulp x\<bar> * ulp x \<le> 1 / 2 * ulp x"
    using halfEven_near [of "x / ulp x"] ulp_pos [of x] by (intro mult_right_mono) auto
  moreover have "fl x - x = (of_int (halfEven (x / ulp x)) - x / ulp x) * ulp x"
    using x ulp_pos [of x] by (simp add: fl_def field_simps)
  ultimately have "\<bar>fl x - x\<bar> \<le> ulp x / 2" using ulp_pos [of x] by (simp add: abs_mult)
  also have "\<dots> \<le> x / 2 ^ 53" using ulp_small [OF x] by simp
  finally show ?thesis .
qed (simp add: fl_def)

lemma ulp_fraction:
  assumes "0 < x" "x < 2 ^ 53"
  obtains j where "ulp x = 1 / 2 ^ j"
proof -
  have "(2 :: rat) powi binade x < 2 powi 53" using binade_bounds(1) [OF assms(1)] assms(2) by simp
  then have "binade x < 53" by (meson not_less one_le_numeral power_int_increasing)
  then have "binade x - 52 = - int (nat (52 - binade x))" by simp
  then have "ulp x = inverse (2 ^ nat (52 - binade x))" unfolding ulp_def by (simp only: power_int_minus power_int_of_nat)
  then show thesis using that by (simp add: inverse_eq_divide)
qed

lemma fl_le_int:
  assumes "0 \<le> x" "x \<le> of_int k" "k < 2 ^ 53"
  shows "fl x \<le> of_int k"
proof (cases "x = 0")
  case True
  then show ?thesis using assms by (simp add: fl_def)
next
  case False
  with assms have x: "0 < x" by simp
  have "of_int k < (of_int (2 ^ 53) :: rat)" using assms(3) by (simp only: of_int_less_iff)
  with assms(2) have "x < 2 ^ 53" by simp
  with x obtain j where u: "ulp x = 1 / 2 ^ j" by (rule ulp_fraction)
  have "x / ulp x \<le> of_int (k * 2 ^ j)" using assms(2) by (simp add: u)
  then have "halfEven (x / ulp x) \<le> k * 2 ^ j" by (rule halfEven_le)
  then have "of_int (halfEven (x / ulp x)) \<le> (of_int (k * 2 ^ j) :: rat)" by (rule of_int_le_iff [THEN iffD2])
  then show ?thesis using x by (simp add: fl_def u field_simps)
qed

lemma halfEven_int: "halfEven (of_int k) = k"
  by (simp add: halfEven_def)

lemma fl_nat: "n < 2 ^ 53 \<Longrightarrow> fl (of_nat n) = of_nat n"
proof (cases "n = 0")
  case False
  assume n: "n < 2 ^ 53"
  let ?x = "of_nat n :: rat"
  have x: "0 < ?x" using False by simp
  have "?x < of_nat (2 ^ 53)" using n by (simp only: of_nat_less_iff)
  then have "?x < 2 ^ 53" by simp
  with x obtain j where u: "ulp ?x = 1 / 2 ^ j" by (rule ulp_fraction)
  then have "?x / ulp ?x = of_int (int n * 2 ^ j)" by simp
  then have "halfEven (?x / ulp ?x) = int n * 2 ^ j" by (simp only: halfEven_int)
  then show ?thesis using x by (simp add: fl_def u)
qed (simp add: fl_def)

section \<open>The measurements\<close>

record result =
  timestamp :: int
  operation :: string
  status :: nat
  latencyMs :: rat

definition drainAndStatus :: "nat option \<Rightarrow> nat" where
  "drainAndStatus resp = (case resp of None \<Rightarrow> 0 | Some c \<Rightarrow> c)"

text \<open>\<open>Duration.Microseconds\<close> divides with truncation; a measured duration is not negative.\<close>

definition msFloat :: "nat \<Rightarrow> rat" where
  "msFloat d = fl (fl (of_nat (d div 1000)) / 1000)"

text \<open>
  One call as it turns out: when it starts, how long it takes in nanoseconds and the status of its response, if one arrives.
\<close>

record call =
  callStart :: int
  callNanos :: nat
  callResp :: "nat option"

type_synonym request = "string \<times> string \<times> string"

definition doGet :: "string \<Rightarrow> call \<Rightarrow> request \<times> result" where
  "doGet key c =
     ((''GET'', ''/v1/kv/'' @ PathEscape key, []),
      \<lparr>timestamp = callStart c, operation = ''read'', status = drainAndStatus (callResp c), latencyMs = msFloat (callNanos c)\<rparr>)"

definition doPost :: "string \<Rightarrow> call \<Rightarrow> request \<times> result" where
  "doPost key c =
     ((''POST'', ''/v1/kv/'' @ PathEscape key, ''{'' @ jsonMember ''value'' (encStr ''loadgen-value'') @ ''}''),
      \<lparr>timestamp = callStart c, operation = ''write'', status = drainAndStatus (callResp c), latencyMs = msFloat (callNanos c)\<rparr>)"

section \<open>Workers\<close>

definition maxKeysPerWorker :: nat where
  "maxKeysPerWorker = 100"

text \<open>A job with what its worker finds: two random draws, the clock when a key is made, and the call.\<close>

record job =
  draw100 :: nat
  drawKey :: nat
  clock :: nat
  jobCall :: call

definition success :: "result \<Rightarrow> bool" where
  "success r \<longleftrightarrow> 200 \<le> status r \<and> status r < 300"

definition freshKey :: "nat \<Rightarrow> nat \<Rightarrow> string" where
  "freshKey w t = ''key-'' @ showNat w @ ''-'' @ showNat t"

definition workerStep :: "nat \<Rightarrow> nat \<Rightarrow> job \<Rightarrow> string list \<Rightarrow> (request \<times> result) \<times> string list" where
  "workerStep w readPct j ownKeys =
     (if 0 < length ownKeys \<and> draw100 j < readPct
      then (doGet (ownKeys ! (drawKey j mod length ownKeys)) (jobCall j), ownKeys)
      else let key = freshKey w (clock j); (rq, r) = doPost key (jobCall j);
               own1 = ownKeys @ [key]
           in ((rq, r), if success r then (if maxKeysPerWorker < length own1 then tl own1 else own1) else ownKeys))"

fun runWorker :: "nat \<Rightarrow> nat \<Rightarrow> job list \<Rightarrow> string list \<Rightarrow> (request \<times> result) list" where
  "runWorker w readPct [] ownKeys = []"
| "runWorker w readPct (j # jobs) ownKeys =
     (case workerStep w readPct j ownKeys of (out, ownKeys') \<Rightarrow> out # runWorker w readPct jobs ownKeys')"

text \<open>
  The workers together: each job is taken by some worker, and the results arrive in the order of the schedule.
\<close>

fun runSchedule :: "nat \<Rightarrow> (nat \<times> job) list \<Rightarrow> (nat \<Rightarrow> string list) \<Rightarrow> (nat \<times> request \<times> result) list" where
  "runSchedule readPct [] own = []"
| "runSchedule readPct ((w, j) # sched) own =
     (case workerStep w readPct j (own w) of (out, own') \<Rightarrow> (w, out) # runSchedule readPct sched (own(w := own')))"

datatype usageError = BadReadPct | BadRequests | BadConcurrency

definition checkFlags :: "int \<Rightarrow> int \<Rightarrow> int \<Rightarrow> usageError option" where
  "checkFlags readPct requests concurrency =
     (if readPct < 0 \<or> 100 < readPct then Some BadReadPct
      else if requests \<le> 0 then Some BadRequests
      else if concurrency \<le> 0 then Some BadConcurrency
      else None)"

section \<open>Reports\<close>

text \<open>\<open>%.2f\<close> and \<open>FormatFloat\<close> with a fixed number of decimals, on values that are not negative.\<close>

definition padded :: "nat \<Rightarrow> nat \<Rightarrow> string" where
  "padded k n = replicate (k - length (showNat n)) (CHR ''0'') @ showNat n"

definition formatFixed :: "nat \<Rightarrow> rat \<Rightarrow> string" where
  "formatFixed k x = (let n = nat (halfEven (x * 10 ^ k)) in showNat (n div 10 ^ k) @ ''.'' @ padded k (n mod 10 ^ k))"

definition csvLine :: "string list \<Rightarrow> string" where
  "csvLine fs = joinWith (CHR '','') fs @ newline"

definition csvRow :: "(int \<Rightarrow> string) \<Rightarrow> result \<Rightarrow> string list" where
  "csvRow rfc3339 r = [rfc3339 (timestamp r), operation r, showNat (status r), formatFixed 3 (latencyMs r)]"

definition writeCSV :: "string option \<Rightarrow> string option \<Rightarrow> string option \<Rightarrow> (int \<Rightarrow> string) \<Rightarrow> string \<Rightarrow> result list \<Rightarrow> string + string \<times> string" where
  "writeCSV mkdirErr createErr writeErr rfc3339 stamp results =
     (case mkdirErr of
        Some e \<Rightarrow> Inl (''create experiments/scalability: '' @ e)
      | None \<Rightarrow>
          (case (createErr, writeErr) of
             (Some e, _) \<Rightarrow> Inl e
           | (None, Some e) \<Rightarrow> Inl e
           | (None, None) \<Rightarrow>
               Inr (''experiments/scalability/results-'' @ stamp @ ''.csv'',
                    csvLine [''timestamp'', ''operation'', ''status_code'', ''latency_ms''] @ concat (map (csvLine \<circ> csvRow rfc3339) results))))"

definition percentile :: "rat list \<Rightarrow> rat \<Rightarrow> rat" where
  "percentile xs p =
     (if xs = [] then 0
      else let idx = \<lceil>fl (fl (p / 100) * fl (of_nat (length xs)))\<rceil> - 1;
               idx = (if idx < 0 then 0 else idx);
               idx = (if int (length xs) \<le> idx then int (length xs) - 1 else idx)
           in xs ! nat idx)"

definition printLatencyStats :: "string \<Rightarrow> result list \<Rightarrow> string" where
  "printLatencyStats label rs =
     (if rs = [] then label @ '': no requests'' @ newline
      else let lat = sort (map latencyMs rs)
           in label @ '' (n='' @ showNat (length rs) @ ''): p50='' @ formatFixed 2 (percentile lat 50) @ ''ms  p95='' @ formatFixed 2 (percentile lat 95)
              @ ''ms  p99='' @ formatFixed 2 (percentile lat 99) @ ''ms'' @ newline)"

definition printSummary :: "result list \<Rightarrow> string" where
  "printSummary results =
     ''Total requests: '' @ showNat (length results) @ newline
     @ (if results = [] then []
        else ''Success rate (2xx): ''
             @ formatFixed 2 (fl (fl (100 * fl (of_nat (length (filter success results)))) / fl (of_nat (length results)))) @ ''%'' @ newline)
     @ newline
     @ printLatencyStats ''Read '' (filter (\<lambda>r. operation r = ''read'') results)
     @ printLatencyStats ''Write'' (filter (\<lambda>r. operation r \<noteq> ''read'') results)"

section \<open>The run\<close>

datatype loadError = Usage usageError | CsvFailed string

text \<open>The measurements in the order the results arrive, then the table, then the report; a table that cannot be written ends the run.\<close>

definition loadgenMain :: "int \<Rightarrow> int \<Rightarrow> int \<Rightarrow> (nat \<times> job) list \<Rightarrow> string option \<Rightarrow> string option \<Rightarrow> string option \<Rightarrow> (int \<Rightarrow> string) \<Rightarrow> string \<Rightarrow>
    loadError + string \<times> string" where
  "loadgenMain readPct requests concurrency sched mkdirErr createErr writeErr rfc3339 stamp =
     (case checkFlags readPct requests concurrency of
        Some e \<Rightarrow> Inl (Usage e)
      | None \<Rightarrow>
          (let results = map (\<lambda>(w, rq, r). r) (runSchedule (nat readPct) sched (\<lambda>_. []))
           in case writeCSV mkdirErr createErr writeErr rfc3339 stamp results of
                Inl e \<Rightarrow> Inl (CsvFailed e)
              | Inr (path, text) \<Rightarrow> Inr (text, printSummary results @ newline @ ''Raw results written to '' @ path @ newline)))"

section \<open>Nearest rank in spite of rounding\<close>

text \<open>The three constants as the division rounds them: one half is exact, the others come out a little too small.\<close>

lemma percents:
  "p = 50 \<or> p = 95 \<or> p = 99 \<Longrightarrow> fl (p / 100) \<le> p / 100"
proof -
  have "fl (50 / 100) \<le> 50 / 100" "fl (95 / 100) \<le> 95 / 100" "fl (99 / 100) \<le> 99 / 100" by code_simp+
  then show "p = 50 \<or> p = 95 \<or> p = 99 \<Longrightarrow> ?thesis" by auto
qed

lemma fl_55: "\<lceil>fl (fl (55 / 100) * fl (of_nat 100))\<rceil> = 56"
  by code_simp

lemma fl_share: "0 \<le> y \<Longrightarrow> y \<le> 1 \<Longrightarrow> y - 1 / 2 ^ 53 \<le> fl y \<and> 0 \<le> fl y"
proof -
  assume y: "0 \<le> y" "y \<le> 1"
  have "y / 2 ^ 53 \<le> 1 / 2 ^ 53" "y / 2 ^ 53 \<le> y" using y by simp_all
  moreover have "y - fl y \<le> y / 2 ^ 53" using abs_le_D2 [OF fl_near [OF y(1)]] by simp
  ultimately show ?thesis by linarith
qed

lemma rank_exact:
  assumes k: "k = 50 \<or> k = 95 \<or> k = (99 :: nat)" and n: "n \<le> 2 ^ 40"
  shows "\<lceil>fl (fl (of_nat k / 100) * fl (of_nat n))\<rceil> = \<lceil>of_nat (k * n) / (100 :: rat)\<rceil>"
proof -
  define q where "q = fl (of_nat k / 100)"
  define r where "r = of_nat (k * n) / (100 :: rat)"
  let ?n = "of_nat n :: rat"
  have fn: "fl ?n = ?n" using n by (intro fl_nat) simp
  have n40: "?n \<le> 2 ^ 40" using n of_nat_le_iff [of n "2 ^ 40", where 'a = rat] by simp
  have k1: "of_nat k / 100 \<le> (1 :: rat)" "0 \<le> (of_nat k :: rat) / 100" using k by auto
  then have q: "of_nat k / 100 - 1 / 2 ^ 53 \<le> q" "0 \<le> q" unfolding q_def using fl_share by blast+
  have qk: "q \<le> of_nat k / 100" unfolding q_def using k percents [of "of_nat k"] by auto
  have rq: "r = of_nat k / 100 * ?n" by (simp add: r_def)
  have up: "q * ?n \<le> r" unfolding rq by (rule mult_right_mono [OF qk]) simp
  have rn: "r \<le> ?n" unfolding rq using mult_right_mono [OF k1(1), of ?n] by (simp only: mult_1 of_nat_0_le_iff)
  have lo: "r - ?n / 2 ^ 53 \<le> q * ?n" using mult_right_mono [OF q(1), of ?n] unfolding rq by (simp add: left_diff_distrib)
  have pos: "0 \<le> q * ?n" using q(2) by simp
  have "\<lceil>r\<rceil> < 2 ^ 53"
  proof -
    have "\<lceil>r\<rceil> \<le> int n" using rn by (simp add: ceiling_le_iff)
    also have "\<dots> < 2 ^ 53" using n by simp
    finally show ?thesis .
  qed
  moreover have "q * ?n \<le> of_int \<lceil>r\<rceil>" using up by (meson le_of_int_ceiling order_trans)
  ultimately have "fl (q * ?n) \<le> of_int \<lceil>r\<rceil>" using fl_le_int [OF pos] by blast
  moreover have "of_int (\<lceil>r\<rceil> - 1) < fl (q * ?n)"
  proof -
    have "q * ?n - fl (q * ?n) \<le> q * ?n / 2 ^ 53" using abs_le_D2 [OF fl_near [OF pos]] by (simp only: minus_diff_eq)
    moreover have "q * ?n / 2 ^ 53 \<le> ?n / 2 ^ 53" using up rn by (simp add: divide_right_mono)
    moreover have "?n / 2 ^ 53 \<le> 1 / 2 ^ 13" using n40 by simp
    ultimately have f: "r - 2 / 2 ^ 13 \<le> fl (q * ?n)" using lo by linarith
    have "of_int (\<lceil>r\<rceil> - 1) < r" by linarith
    moreover have "r * 100 = of_int (int (k * n))" by (simp add: r_def)
    moreover have "of_int (100 * (\<lceil>r\<rceil> - 1)) = of_int (\<lceil>r\<rceil> - 1) * (100 :: rat)" by simp
    ultimately have "of_int (100 * (\<lceil>r\<rceil> - 1)) < (of_int (int (k * n)) :: rat)" by (metis mult_strict_right_mono zero_less_numeral)
    then have "100 * (\<lceil>r\<rceil> - 1) < int (k * n)" by (simp only: of_int_less_iff)
    then have "100 * (\<lceil>r\<rceil> - 1) + 1 \<le> int (k * n)" by simp
    then have "of_int (100 * (\<lceil>r\<rceil> - 1) + 1) \<le> (of_int (int (k * n)) :: rat)" by (rule of_int_le_iff [THEN iffD2])
    then have "of_int (\<lceil>r\<rceil> - 1) + 1 / 100 \<le> r" by (simp add: r_def field_simps)
    with f show ?thesis by simp
  qed
  ultimately have "\<lceil>fl (q * ?n)\<rceil> = \<lceil>r\<rceil>" by (intro ceiling_unique) simp_all
  then show ?thesis by (simp add: q_def r_def fn)
qed

lemma sorted_counts:
  fixes xs :: "rat list"
  assumes "sorted xs" "i < length xs"
  shows "Suc i \<le> length (filter (\<lambda>x. x \<le> xs ! i) xs)" "w < xs ! i \<Longrightarrow> length (filter (\<lambda>x. x \<le> w) xs) \<le> i"
proof -
  have t: "x \<le> xs ! i" if "x \<in> set (take (Suc i) xs)" for x
    using that assms by (auto simp: in_set_conv_nth less_Suc_eq_le sorted_iff_nth_mono)
  have d: "xs ! i \<le> x" if "x \<in> set (drop i xs)" for x
    using that assms by (auto simp: in_set_conv_nth sorted_iff_nth_mono)
  have "length (filter (\<lambda>x. x \<le> xs ! i) (take (Suc i) xs)) = Suc i" using t assms(2) by (simp add: filter_id_conv [THEN iffD2])
  moreover have "length (filter (\<lambda>x. x \<le> xs ! i) (take (Suc i) xs)) \<le> length (filter (\<lambda>x. x \<le> xs ! i) (take (Suc i) xs @ drop (Suc i) xs))"
    by (simp only: filter_append length_append le_add1)
  ultimately show "Suc i \<le> length (filter (\<lambda>x. x \<le> xs ! i) xs)" by simp
  show "length (filter (\<lambda>x. x \<le> w) xs) \<le> i" if w: "w < xs ! i"
  proof -
    have "filter (\<lambda>x. x \<le> w) (drop i xs) = []" using d w by (fastforce simp: filter_empty_conv)
    then have "filter (\<lambda>x. x \<le> w) (take i xs @ drop i xs) = filter (\<lambda>x. x \<le> w) (take i xs)" by (simp only: filter_append append_Nil2)
    then have "filter (\<lambda>x. x \<le> w) xs = filter (\<lambda>x. x \<le> w) (take i xs)" by simp
    then show ?thesis using length_filter_le [of "\<lambda>x. x \<le> w" "take i xs"] by simp
  qed
qed

text \<open>
  C37: The reported percentiles are nearest-rank percentiles, in spite of the floating-point arithmetic. For the 50th, 95th and 99th
  percentile of up to \<open>2 ^ 40\<close> measurements the value is one of them, at least that share of them is not above it,
  and no smaller value has this property.
\<close>

theorem percentile_nearest_rank:
  assumes "sorted xs" "xs \<noteq> []" "length xs \<le> 2 ^ 40" "k = 50 \<or> k = 95 \<or> k = (99 :: nat)" "v = percentile xs (of_nat k)"
  shows "v \<in> set xs \<and> k * length xs \<le> 100 * length (filter (\<lambda>x. x \<le> v) xs) \<and>
    (\<forall>w. w < v \<longrightarrow> 100 * length (filter (\<lambda>x. x \<le> w) xs) < k * length xs)"
proof -
  define n where "n = length xs"
  define r where "r = of_nat (k * n) / (100 :: rat)"
  have n: "0 < n" using assms(2) by (simp add: n_def)
  have r0: "0 < r" "r \<le> of_nat n" using n assms(4) by (auto simp: r_def)
  then have c: "0 < \<lceil>r\<rceil>" "\<lceil>r\<rceil> \<le> int n" by (simp_all add: ceiling_le_iff)
  define i where "i = nat (\<lceil>r\<rceil> - 1)"
  have "0 \<le> \<lceil>r\<rceil> - 1" "\<lceil>r\<rceil> - 1 < int n" using c by linarith+
  then have i: "i < n" "int i = \<lceil>r\<rceil> - 1" unfolding i_def by (simp_all only: nat_less_iff int_nat_eq if_True)
  have e: "\<lceil>fl (fl (of_nat k / 100) * fl (of_nat n))\<rceil> = \<lceil>r\<rceil>" unfolding r_def using assms(3) by (intro rank_exact [OF assms(4)]) (simp add: n_def)
  have "\<not> \<lceil>r\<rceil> - 1 < 0" "\<not> int n \<le> \<lceil>r\<rceil> - 1" using c by linarith+
  then have v: "v = xs ! i" by (simp only: assms(2,5) percentile_def Let_def n_def [symmetric] e i_def if_False)
  have cr: "r \<le> of_nat (Suc i)" "of_nat i < r"
  proof -
    have "r \<le> of_int \<lceil>r\<rceil>" "of_int (\<lceil>r\<rceil> - 1) < r" by (rule le_of_int_ceiling) linarith
    then show "r \<le> of_nat (Suc i)" "of_nat i < r" using i(2) by (metis add.commute diff_add_cancel of_int_of_nat_eq of_nat_Suc)+
  qed
  then have "of_nat (k * n) \<le> (of_nat (100 * Suc i) :: rat)" "(of_nat (100 * i) :: rat) < of_nat (k * n)" by (simp_all add: r_def)
  then have b: "k * n \<le> 100 * Suc i" "100 * i < k * n" by (simp_all only: of_nat_le_iff of_nat_less_iff)
  note s = sorted_counts [OF assms(1), of i, folded n_def, OF i(1), folded v]
  have "v \<in> set xs" using i(1) by (simp add: v n_def)
  moreover have "k * n \<le> 100 * length (filter (\<lambda>x. x \<le> v) xs)" by (rule order.trans [OF b(1) mult_le_mono2 [OF s(1)]])
  moreover have "100 * length (filter (\<lambda>x. x \<le> w) xs) < k * n" if "w < v" for w using b(2) s(2) [OF that] by linarith
  ultimately show ?thesis by (simp add: n_def)
qed

theorem percentile_nearest_rank_witness:
  "percentile [1, 2, 4] 50 \<in> set [1, 2, 4] \<and> 50 * 3 \<le> 100 * length (filter (\<lambda>x. x \<le> percentile [1, 2, 4] 50) [1, 2, 4])"
  using percentile_nearest_rank [of "[1, 2, 4]" 50, OF _ _ _ _ refl] by simp

text \<open>For other percentages the product can round up past an integer: of one hundred values, the 55th percentile is the 56th.\<close>

lemma percentile_55: "length xs = 100 \<Longrightarrow> percentile xs 55 = xs ! 55"
  using fl_55 by (auto simp: percentile_def Let_def)

section \<open>The table is exact\<close>

lemma halfEven_close: "\<bar>z - of_int k\<bar> < 1 / 2 \<Longrightarrow> halfEven z = k"
proof -
  assume z: "\<bar>z - of_int k\<bar> < 1 / 2"
  have "\<bar>of_int (halfEven z) - z\<bar> \<le> 1 / 2" by (rule halfEven_near)
  with z have "\<bar>(of_int (halfEven z) :: rat) - of_int k\<bar> < 1" by linarith
  then have "of_int \<bar>halfEven z - k\<bar> < (of_int 1 :: rat)" by simp
  then show ?thesis unfolding of_int_less_iff by simp
qed

text \<open>
  A latency that went through two floating-point roundings is written with three decimals, and those are exactly the measured
  microseconds, for every call shorter than two years.
\<close>

theorem csv_latency_exact:
  assumes "d < 2 ^ 59"
  shows "formatFixed 3 (msFloat d) = showNat (d div 1000000) @ ''.'' @ padded 3 (d div 1000 mod 1000)"
proof -
  define u where "u = d div 1000"
  have u: "u < 2 ^ 50" using assms by (simp add: u_def)
  have ur: "of_nat u < (2 ^ 50 :: rat)" using u of_nat_less_iff [of u "2 ^ 50", where 'a = rat] by simp
  define y where "y = of_nat u / (1000 :: rat)"
  have m: "msFloat d = fl y" using u by (simp add: msFloat_def u_def [symmetric] fl_nat y_def)
  have "\<bar>fl y - y\<bar> \<le> y / 2 ^ 53" by (rule fl_near) (simp add: y_def)
  moreover have "y / 2 ^ 53 * 1000 < 1 / 2" using ur by (simp add: y_def)
  ultimately have "\<bar>fl y - y\<bar> * 1000 < 1 / 2" using mult_right_mono [of "\<bar>fl y - y\<bar>" "y / 2 ^ 53" 1000] by (meson le_less_trans zero_le_numeral)
  moreover have "fl y * 10 ^ 3 - of_int (int u) = (fl y - y) * 1000" by (simp add: y_def left_diff_distrib)
  ultimately have "\<bar>fl y * 10 ^ 3 - of_int (int u)\<bar> < 1 / 2" by (simp only: abs_mult abs_numeral)
  then have "halfEven (fl y * 10 ^ 3) = int u" by (rule halfEven_close)
  then have "formatFixed 3 (msFloat d) = showNat (u div 1000) @ ''.'' @ padded 3 (u mod 1000)" unfolding m formatFixed_def Let_def by simp
  moreover have "u div 1000 = d div 1000000" by (simp add: u_def div_mult2_eq [symmetric])
  ultimately show ?thesis by (simp add: u_def)
qed

section \<open>Workers read what they wrote\<close>

lemma schedule_length: "length (runSchedule pct sched own) = length sched"
  by (induction sched arbitrary: own) (auto split: prod.split)

text \<open>Whatever the interleaving, each worker does what it would do alone on the jobs it gets.\<close>

lemma schedule_worker:
  "map snd (filter (\<lambda>x. fst x = w) (runSchedule pct sched own)) = runWorker w pct (map snd (filter (\<lambda>x. fst x = w) sched)) (own w)"
  by (induction sched arbitrary: own) (auto split: prod.split)

definition posted :: "nat \<Rightarrow> string \<Rightarrow> (nat \<times> request \<times> result) list \<Rightarrow> bool" where
  "posted w path outs \<longleftrightarrow> (\<exists>body r. (w, (''POST'', path, body), r) \<in> set outs \<and> success r)"

lemma workerStep_own:
  assumes "workerStep w pct j own = ((rq, r), own')"
  shows "k \<in> set own' \<Longrightarrow> k \<in> set own \<or> (\<exists>body. rq = (''POST'', keyPath k, body)) \<and> success r"
    "fst rq = ''GET'' \<Longrightarrow> \<exists>k \<in> set own. fst (snd rq) = keyPath k"
    "length own \<le> maxKeysPerWorker \<Longrightarrow> length own' \<le> maxKeysPerWorker"
proof -
  show "k \<in> set own \<or> (\<exists>body. rq = (''POST'', keyPath k, body)) \<and> success r" if "k \<in> set own'"
    using that assms by (auto simp: workerStep_def doGet_def doPost_def keyPath_def Let_def split: if_splits dest!: list.set_sel(2) [rotated])
  show "\<exists>k \<in> set own. fst (snd rq) = keyPath k" if "fst rq = ''GET''"
    using that assms by (auto simp: workerStep_def doGet_def doPost_def keyPath_def Let_def split: if_splits)
  show "length own' \<le> maxKeysPerWorker" if "length own \<le> maxKeysPerWorker"
    using that assms by (auto simp: workerStep_def Let_def doPost_def split: if_splits)
qed

lemma schedule_reads_own:
  "\<forall>v. \<forall>k \<in> set (own v). posted v (keyPath k) hist \<Longrightarrow>
   runSchedule pct sched own = as @ (w, (''GET'', path, b), r) # bs \<Longrightarrow> posted w path (hist @ as)"
proof (induction sched arbitrary: own hist as)
  case (Cons x sched)
  obtain v j where x: "x = (v, j)" by (cases x)
  obtain rq r' own' where st: "workerStep v pct j (own v) = ((rq, r'), own')" by (metis surj_pair)
  have keep: "\<forall>v'. \<forall>k \<in> set ((own(v := own')) v'). posted v' (keyPath k) (hist @ [(v, rq, r')])"
  proof (intro allI ballI)
    fix v' k assume k: "k \<in> set ((own(v := own')) v')"
    show "posted v' (keyPath k) (hist @ [(v, rq, r')])"
    proof (cases "k \<in> set (own v')")
      case True
      with Cons.prems(1) have "posted v' (keyPath k) hist" by blast
      then show ?thesis by (auto simp: posted_def)
    next
      case False
      with k have "v' = v" by (auto split: if_splits)
      with False k workerStep_own(1) [OF st, of k] show ?thesis by (auto simp: posted_def)
    qed
  qed
  show ?case
  proof (cases as)
    case Nil
    with Cons.prems(2) st x have "v = w" "rq = (''GET'', path, b)" by auto
    with workerStep_own(2) [OF st] Cons.prems(1) Nil show ?thesis by auto
  next
    case Cons': (Cons a as')
    have n: "a = (v, rq, r')" "runSchedule pct sched (own(v := own')) = as' @ (w, (''GET'', path, b), r) # bs"
      using Cons.prems(2) st x Cons' by auto
    have "posted w path ((hist @ [(v, rq, r')]) @ as')" by (rule Cons.IH [OF keep n(2)])
    then show ?thesis using n(1) Cons' by simp
  qed
qed simp

text \<open>
  No read of the load generator asks for a key that its worker has not written before, with a response of success.
\<close>

theorem workers_read_own_writes:
  assumes "runSchedule pct sched (\<lambda>_. []) = as @ (w, (''GET'', path, b), r) # bs"
  shows "posted w path as"
  using schedule_reads_own [of "\<lambda>_. []" "[]", OF _ assms] by simp

text \<open>Its writes arrive at the proxy as they were meant: with the worker's key and the fixed value.\<close>

lemma freshKey_addressable: "addressable (freshKey w t)"
  by (simp add: addressable_def freshKey_def)

theorem write_arrives:
  assumes "doPost (freshKey w t) c = ((meth, path, body), r)"
  shows "ServeHTTP pe meth path body p = map_prod (respond ''POST'') id (handlePush pe (freshKey w t) (Parsed (Some ''loadgen-value'')) p)"
proof -
  have v: "toValidUTF8 ''loadgen-value'' = ''loadgen-value''" by code_simp
  have "meth = ''POST''" "path = keyPath (freshKey w t)" "decodeBody body = Parsed (Some ''loadgen-value'')"
    using assms request_body [of "''loadgen-value''" "[]"] v by (auto simp: doPost_def keyPath_def)
  then show ?thesis by (simp add: served_key [OF freshKey_addressable])
qed

end
