(* ===== verification/Raft_ReadIndex.thy ===== *)
theory Raft_ReadIndex
  imports Raft_Replication
begin

text \<open>
  The Read-Index handshake (\<open>internal/raft/readindex.go\<close>) and \<open>waitForApplied\<close> of
  \<open>replication.go\<close>. The calls release the node's lock while they wait, so each is split at the
  points where it does: what happens under the lock is a function of the node at that moment, what it
  waits for is a list of events in the order the \<open>select\<close> receives them. A call that is still
  waiting when the events end has the result \<open>None\<close>.
\<close>

section \<open>Leader side\<close>

text \<open>An acknowledgement on the \<open>results\<close> channel, or the end of the context.\<close>

datatype ackEvent = Result bool | CtxDone

text \<open>The first critical section of \<open>RequestReadIndex\<close>: an immediate reply, or the term and the index captured.\<close>

definition readIndexBegin :: "node \<Rightarrow> ReadIndexReply + (uint64 \<times> uint64)" where
  "readIndexBegin n =
     (if role n \<noteq> Leader then Inl \<lparr>riOk = False, riReadIndex = 0, riRedirectLeader = currentLeader n\<rparr>
      else Inr (currentTerm n, commitIndex n))"

text \<open>The critical section of \<open>confirmLeadershipQuorum\<close>: the requests of one round, and the number of peers.\<close>

definition confirmBegin :: "uint64 \<Rightarrow> node \<Rightarrow> raftError + (outgoingAppendEntries list \<times> nat)" where
  "confirmBegin t n =
     (if role n \<noteq> Leader \<or> currentTerm n \<noteq> t then Inl ErrNotLeader
      else Inr (snd (buildAppendEntriesRequestsLocked n), length (peers n)))"

text \<open>Its loop: the first argument counts the iterations left.\<close>

fun confirmLoop :: "nat \<Rightarrow> nat \<Rightarrow> nat \<Rightarrow> ackEvent list \<Rightarrow> raftError option option" where
  "confirmLoop 0 quorum acked evs = Some (Some ErrNoQuorum)"
| "confirmLoop (Suc i) quorum acked [] = None"
| "confirmLoop (Suc i) quorum acked (CtxDone # evs) = Some (Some ErrCtx)"
| "confirmLoop (Suc i) quorum acked (Result ok # evs) =
     (if ok then (if quorum \<le> acked + 1 then Some None else confirmLoop i quorum (acked + 1) evs)
      else confirmLoop i quorum acked evs)"

definition confirmLeadershipQuorum :: "uint64 \<Rightarrow> node \<Rightarrow> ackEvent list \<Rightarrow> raftError option option" where
  "confirmLeadershipQuorum t n evs =
     (case confirmBegin t n of
        Inl e \<Rightarrow> Some (Some e)
      | Inr (_, numPeers) \<Rightarrow>
          if numPeers = 0 then Some None else confirmLoop numPeers (quorumSize (numPeers + 1)) 1 evs)"

text \<open>
  \<open>RequestReadIndex\<close>: the node when the call arrives, when the confirmation starts and when it has
  ended, and the acknowledgements in between.
\<close>

definition RequestReadIndex :: "node \<Rightarrow> node \<Rightarrow> ackEvent list \<Rightarrow> node \<Rightarrow> (raftError + ReadIndexReply) option" where
  "RequestReadIndex n0 n1 evs n2 =
     (case readIndexBegin n0 of
        Inl reply \<Rightarrow> Some (Inr reply)
      | Inr (t, readIndex) \<Rightarrow>
          (case confirmLeadershipQuorum t n1 evs of
             None \<Rightarrow> None
           | Some (Some err) \<Rightarrow>
               if \<not> (role n2 = Leader \<and> currentTerm n2 = t)
               then Some (Inr \<lparr>riOk = False, riReadIndex = 0, riRedirectLeader = currentLeader n2\<rparr>)
               else Some (Inl err)
           | Some None \<Rightarrow> Some (Inr \<lparr>riOk = True, riReadIndex = readIndex, riRedirectLeader = ''''\<rparr>)))"

section \<open>Follower side\<close>

text \<open>
  One turn of \<open>waitForApplied\<close>: under the lock either the target is reached, or the current
  \<open>applyWake\<close> channel is taken, which is the number of times it has been replaced. The call is
  woken once it has been replaced again.
\<close>

definition waitTurn :: "uint64 \<Rightarrow> node \<Rightarrow> nat option" where
  "waitTurn target n = (if target \<le> lastApplied n then None else Some (wakeups n))"

definition woken :: "nat \<Rightarrow> node \<Rightarrow> bool" where
  "woken ch n \<longleftrightarrow> ch < wakeups n"

datatype waitEvent = Looked node | WaitDone

text \<open>\<open>Looked n\<close>: the call holds the lock and sees \<open>n\<close>, at its start and after each wake-up.\<close>

fun waitForApplied :: "uint64 \<Rightarrow> waitEvent list \<Rightarrow> raftError option option" where
  "waitForApplied target [] = None"
| "waitForApplied target (WaitDone # evs) = Some (Some ErrCtx)"
| "waitForApplied target (Looked n # evs) =
     (case waitTurn target n of None \<Rightarrow> Some None | Some _ \<Rightarrow> waitForApplied target evs)"

text \<open>\<open>FollowerLinearizableRead\<close> up to the call of the leader: done, failed, or whom to ask.\<close>

datatype readStart = ReadLocal | ReadFail raftError | AskLeader addr

definition followerReadBegin :: "node \<Rightarrow> readStart" where
  "followerReadBegin n =
     (if role n = Leader then ReadLocal
      else if currentLeader n = '''' then ReadFail ErrReadIndexUnavailable
      else AskLeader (currentLeader n))"

text \<open>From the reply on; \<open>None\<close> is a failed call. Either an error, or the index to wait for.\<close>

definition followerReadReply :: "ReadIndexReply option \<Rightarrow> node \<Rightarrow> (raftError + uint64) \<times> node" where
  "followerReadReply reply n =
     (case reply of
        None \<Rightarrow> (Inl ErrReadIndexUnavailable, n)
      | Some r \<Rightarrow>
          if \<not> riOk r then
            (Inl ErrReadIndexUnavailable,
             if riRedirectLeader r \<noteq> '''' then n\<lparr>currentLeader := riRedirectLeader r\<rparr> else n)
          else (Inr (riReadIndex r), n))"

definition followerReadWait :: "uint64 \<Rightarrow> waitEvent list \<Rightarrow> raftError option option" where
  "followerReadWait target evs =
     (case waitForApplied target evs of
        None \<Rightarrow> None
      | Some None \<Rightarrow> Some None
      | Some (Some _) \<Rightarrow> Some (Some ErrReadIndexUnavailable))"

text \<open>The whole call: the node at its start, the leader's reply, the node when it arrives, and the wait.\<close>

definition FollowerLinearizableRead ::
  "node \<Rightarrow> ReadIndexReply option \<Rightarrow> node \<Rightarrow> waitEvent list \<Rightarrow> raftError option option \<times> node" where
  "FollowerLinearizableRead n0 reply n1 evs =
     (case followerReadBegin n0 of
        ReadLocal \<Rightarrow> (Some None, n1)
      | ReadFail e \<Rightarrow> (Some (Some e), n1)
      | AskLeader _ \<Rightarrow>
          (case followerReadReply reply n1 of
             (Inl e, n2) \<Rightarrow> (Some (Some e), n2)
           | (Inr target, n2) \<Rightarrow> (followerReadWait target evs, n2)))"

section \<open>What the handshake grants\<close>

definition acks :: "ackEvent list \<Rightarrow> nat" where
  "acks evs = length (filter (\<lambda>e. e = Result True) evs)"

lemma acks_simps [simp]: "acks [] = 0" "acks (Result True # evs) = Suc (acks evs)"
  "acks (Result False # evs) = acks evs" "acks (CtxDone # evs) = acks evs"
  by (simp_all add: acks_def)

lemma confirmLoop_quorum:
  "confirmLoop i q acked evs = Some None \<Longrightarrow> q \<le> acked + acks (take i evs)"
proof (induction i q acked evs rule: confirmLoop.induct)
  case (4 i q acked ok evs)
  then show ?case by (cases ok) (auto split: if_splits)
qed simp_all

text \<open>With a result from every peer the loop ends, and it ends well exactly when enough of them are acknowledgements.\<close>

lemma confirmLoop_complete:
  assumes "acked < q"
  shows "confirmLoop (length oks) q acked (map Result oks)
    = Some (if q \<le> acked + acks (map Result oks) then None else Some ErrNoQuorum)"
  using assms
proof (induction oks arbitrary: acked)
  case (Cons ok oks)
  show ?case
  proof (cases "ok \<and> q \<le> acked + 1")
    case False
    then have "confirmLoop (length (ok # oks)) q acked (map Result (ok # oks))
      = confirmLoop (length oks) q (if ok then acked + 1 else acked) (map Result oks)" by simp
    then show ?thesis using Cons.IH [of "if ok then acked + 1 else acked"] Cons.prems False
      by (cases ok) simp_all
  qed simp
qed simp

lemma readIndex_granted:
  assumes "RequestReadIndex n0 n1 evs n2 = Some (Inr r)" "riOk r"
  shows "role n0 = Leader" "riReadIndex r = commitIndex n0" "role n1 = Leader" "currentTerm n1 = currentTerm n0"
    "quorumSize (length (peers n1) + 1) \<le> 1 + acks (take (length (peers n1)) evs)"
proof -
  have l: "role n0 = Leader" and c: "confirmLeadershipQuorum (currentTerm n0) n1 evs = Some None"
    and r: "riReadIndex r = commitIndex n0"
    using assms by (auto simp: RequestReadIndex_def readIndexBegin_def split: if_splits option.splits)
  then show "role n0 = Leader" "riReadIndex r = commitIndex n0" by simp_all
  have b: "role n1 = Leader \<and> currentTerm n1 = currentTerm n0"
    using c by (auto simp: confirmLeadershipQuorum_def confirmBegin_def split: if_splits)
  then show "role n1 = Leader" "currentTerm n1 = currentTerm n0" by simp_all
  show "quorumSize (length (peers n1) + 1) \<le> 1 + acks (take (length (peers n1)) evs)"
  proof (cases "peers n1 = []")
    case True
    then show ?thesis by (simp add: quorumSize_def)
  next
    case False
    then have "confirmLoop (length (peers n1)) (quorumSize (length (peers n1) + 1)) 1 evs = Some None"
      using c b by (simp add: confirmLeadershipQuorum_def confirmBegin_def)
    from confirmLoop_quorum [OF this] show ?thesis .
  qed
qed

lemma waitForApplied_ok:
  "waitForApplied target evs = Some None \<Longrightarrow> \<exists>n. Looked n \<in> set evs \<and> target \<le> lastApplied n"
  by (induction target evs rule: waitForApplied.induct) (auto simp: waitTurn_def split: if_splits option.splits)

end
