(* ===== verification/Raft_Compaction.thy ===== *)
theory Raft_Compaction
  imports Raft_ReadIndex
begin

text \<open>
  Log compaction and snapshot catch-up of a consensus node (\<open>internal/raft/compaction.go\<close>,
  \<open>snapshottransfer.go\<close>, \<open>snapshotcatchup.go\<close>), and the start of the process from its data
  directory (\<open>cmd/consensus-node/main.go\<close>).

  Writing a snapshot file encodes a Go map, whose iteration order is arbitrary: the operations that
  write one take the order as an argument. The snapshot catalog is another process: what it answers is
  an argument.
\<close>

section \<open>Compaction\<close>

text \<open>A failing \<open>Remove\<close> is ignored: the outdated file stays.\<close>

definition replaceSnapshotFileLocked :: "env \<Rightarrow> string \<Rightarrow> node \<Rightarrow> node" where
  "replaceSnapshotFileLocked ev newPath n =
     (let old = currentSnapshotPath n
      in n\<lparr>currentSnapshotPath := newPath,
           dir := (if old \<noteq> '''' \<and> old \<noteq> newPath then removeFile (ioRemove ev) old (dir n) else dir n)\<rparr>)"

definition anchorOf :: "File \<Rightarrow> LogEntry" where
  "anchorOf f = \<lparr>Term = LastIncludedTerm f, Index = LastIncludedIndex f, Command = []\<rparr>"

definition compactLocked :: "env \<Rightarrow> (string \<times> string) list \<Rightarrow> File \<Rightarrow> node \<Rightarrow> raftError option \<times> node" where
  "compactLocked ev xs file n =
     (let targetIndex = LastIncludedIndex file
      in case entryAtLocked n targetIndex of
           None \<Rightarrow> (Some (ErrNotInLog targetIndex), n)
         | Some _ \<Rightarrow>
             (case WriteFile (ioSnapshot ev) xs file (dir n) of
                (Inl e, d) \<Rightarrow> (Some (ErrPersist e), n\<lparr>dir := d\<rparr>)
              | (Inr newPath, d) \<Rightarrow>
                  (let n1 = replaceSnapshotFileLocked ev newPath (n\<lparr>dir := d\<rparr>);
                       pos = targetIndex - logOffset n1;
                       kept = anchorOf file # drop pos (log n1)
                   in case RewriteLog (ioRewrite ev) kept (dir n1) of
                        (Some e, d') \<Rightarrow> (Some (ErrPersist e), n1\<lparr>dir := d'\<rparr>)
                      | (None, d') \<Rightarrow> (None, n1\<lparr>dir := d', log := kept, logOffset := targetIndex - 1\<rparr>))))"

section \<open>The service for the backup process\<close>

definition GetLogStatus :: "node \<Rightarrow> LogStatusReply" where
  "GetLogStatus n =
     (let total = length (log n)
      in \<lparr>lsTotalEntries = total, lsOccupancyPercent = u64 (total * 100) div logCapacity n,
          lsFirstIndex = (if 0 < total then logOffset n + 1 else 0), lsLastIndex = lastLogIndexLocked n\<rparr>)"

text \<open>
  The loop of \<open>StreamLogRange\<close>. Its counter is a 64-bit one, so with the largest bound the condition never
  fails: the loop is a partial function, \<open>None\<close> being the call that never returns.
\<close>

partial_function (option) streamLoop :: "node \<Rightarrow> uint64 \<Rightarrow> uint64 \<Rightarrow> LogEntry list \<Rightarrow> LogEntry list option" where
  "streamLoop n to idx entries =
     (if idx \<le> to
      then streamLoop n to (u64 (idx + 1))
             (case entryAtLocked n idx of None \<Rightarrow> entries | Some e \<Rightarrow> entries @ [e])
      else Some entries)"

declare streamLoop.simps [code]

text \<open>The sends: the k-th one fails when \<open>sendFails = Some k\<close>.\<close>

definition StreamLogRange :: "LogRangeRequest \<Rightarrow> nat option \<Rightarrow> node \<Rightarrow> (raftError option \<times> PbLogEntry list) option" where
  "StreamLogRange req sendFails n =
     map_option (\<lambda>es. case sendFails of
         None \<Rightarrow> (None, map pbOfEntry es)
       | Some k \<Rightarrow> if k < length es then (Some ErrTransport, map pbOfEntry (take k es)) else (None, map pbOfEntry es))
       (streamLoop n (lrToIndex req) (lrFromIndex req) [])"

definition ConfirmCompaction :: "env \<Rightarrow> (string \<times> string) list \<Rightarrow> CompactionAck \<Rightarrow> node \<Rightarrow> raftError option \<times> node" where
  "ConfirmCompaction ev xs req n =
     (let target = caTruncatedUpToIndex req
      in if target \<le> logOffset n + 1 then (None, n)
         else if lastApplied n < target then (Some (ErrNotApplied target), n)
         else (case Decode (caStateMachineSnapshot req) of
                 None \<Rightarrow> (Some ErrDecodeSnapshot, n)
               | Some file \<Rightarrow>
                   if LastIncludedIndex file \<noteq> target
                   then (Some (ErrSnapshotMismatch (LastIncludedIndex file) target), n)
                   else compactLocked ev xs file n))"

section \<open>Catch-up\<close>

text \<open>
  \<open>catchUpFromSnapshot\<close> holds the node's lock only at its end. Its parts are separate functions, so
  that other handlers can run between them: the two writes to the data directory, the restore of
  the state machine, and the update of the node. \<open>None\<close> means the call returned early.
\<close>

definition catchUpWrite :: "env \<Rightarrow> (string \<times> string) list \<Rightarrow> File \<Rightarrow> node \<Rightarrow> string option \<times> node" where
  "catchUpWrite ev xs file n =
     (if LastIncludedIndex file = 0 then (None, n)
      else (case WriteFile (ioSnapshot ev) xs file (dir n) of
              (Inl e, d) \<Rightarrow> (None, n\<lparr>dir := d\<rparr>)
            | (Inr newPath, d) \<Rightarrow> (Some newPath, n\<lparr>dir := d\<rparr>)))"

definition catchUpRewrite :: "env \<Rightarrow> File \<Rightarrow> node \<Rightarrow> bool \<times> node" where
  "catchUpRewrite ev file n =
     (case RewriteLog (ioRewrite ev) [anchorOf file] (dir n) of
        (Some e, d) \<Rightarrow> (False, n\<lparr>dir := d\<rparr>)
      | (None, d) \<Rightarrow> (True, n\<lparr>dir := d\<rparr>))"

definition catchUpRestore :: "File \<Rightarrow> node \<Rightarrow> node" where
  "catchUpRestore file n = n\<lparr>smOps := smOps n @ [RestoreState (State file)]\<rparr>"

definition catchUpAdopt :: "env \<Rightarrow> string \<Rightarrow> File \<Rightarrow> node \<Rightarrow> node" where
  "catchUpAdopt ev newPath file n =
     (let n1 = replaceSnapshotFileLocked ev newPath n; i = LastIncludedIndex file
      in n1\<lparr>log := [anchorOf file], logOffset := i - 1,
            commitIndex := (if commitIndex n1 < i then i else commitIndex n1),
            lastApplied := (if lastApplied n1 < i then i else lastApplied n1)\<rparr>)"

text \<open>The whole call when nothing else runs in between; \<open>fetched\<close> is the catalog's answer.\<close>

definition catchUpFromSnapshot :: "env \<Rightarrow> (string \<times> string) list \<Rightarrow> File option \<Rightarrow> node \<Rightarrow> node" where
  "catchUpFromSnapshot ev xs fetched n =
     (case fetched of
        None \<Rightarrow> n
      | Some file \<Rightarrow>
          (case catchUpWrite ev xs file n of
             (None, n1) \<Rightarrow> n1
           | (Some newPath, n1) \<Rightarrow>
               (case catchUpRewrite ev file n1 of
                  (False, n2) \<Rightarrow> n2
                | (True, n2) \<Rightarrow> catchUpAdopt ev newPath file (catchUpRestore file n2))))"

datatype pollAction = PollNothing | PollCatchUp uint64 | PollCompact uint64

definition pollDecide :: "SnapshotInfo option \<Rightarrow> node \<Rightarrow> pollAction" where
  "pollDecide info n =
     (case info of
        None \<Rightarrow> PollNothing
      | Some i \<Rightarrow>
          if \<not> siAvailable i then PollNothing
          else (let target = siLastIncludedIndex i
                in if lastApplied n < target then PollCatchUp target
                   else if logOffset n + 1 < target then PollCompact target
                   else PollNothing))"

definition pollCompact :: "env \<Rightarrow> (string \<times> string) list \<Rightarrow> uint64 \<Rightarrow> File option \<Rightarrow> node \<Rightarrow> node" where
  "pollCompact ev xs target fetched n =
     (case fetched of
        None \<Rightarrow> n
      | Some file \<Rightarrow>
          if LastIncludedIndex file \<noteq> target then n
          else if logOffset n + 1 < target \<and> target \<le> lastApplied n then snd (compactLocked ev xs file n)
          else n)"

definition snapshotPollOnce :: "env \<Rightarrow> (string \<times> string) list \<Rightarrow> SnapshotInfo option \<Rightarrow> File option \<Rightarrow> node \<Rightarrow> node" where
  "snapshotPollOnce ev xs info fetched n =
     (case pollDecide info n of
        PollNothing \<Rightarrow> n
      | PollCatchUp _ \<Rightarrow> catchUpFromSnapshot ev xs fetched n
      | PollCompact target \<Rightarrow> pollCompact ev xs target fetched n)"

section \<open>Starting the process\<close>

text \<open>
  The part of \<open>main\<close> that rebuilds a node: the newest local snapshot restores the state machine, then
  the node is constructed.
\<close>

definition bootNode :: "env \<Rightarrow> Config \<Rightarrow> datadir \<Rightarrow> raftError + node" where
  "bootNode ev cfg d =
     (case Latest d of
        Inl e \<Rightarrow> Inl (ErrPersist e)
      | Inr None \<Rightarrow> NewNode ev (cfg\<lparr>cfgLocalSnapshot := None\<rparr>) d
      | Inr (Some (file, _)) \<Rightarrow>
          map_sum id (\<lambda>n. n\<lparr>smOps := [RestoreState (State file)]\<rparr>)
            (NewNode ev (cfg\<lparr>cfgLocalSnapshot := Some file\<rparr>) d))"

section \<open>What compaction keeps\<close>

lemma replace_fields [simp, frame_simps]:
  "log (replaceSnapshotFileLocked ev p n) = log n" "logOffset (replaceSnapshotFileLocked ev p n) = logOffset n"
  "commitIndex (replaceSnapshotFileLocked ev p n) = commitIndex n" "lastApplied (replaceSnapshotFileLocked ev p n) = lastApplied n"
  "wakeups (replaceSnapshotFileLocked ev p n) = wakeups n" "smOps (replaceSnapshotFileLocked ev p n) = smOps n"
  "currentTerm (replaceSnapshotFileLocked ev p n) = currentTerm n" "votedFor (replaceSnapshotFileLocked ev p n) = votedFor n"
  "role (replaceSnapshotFileLocked ev p n) = role n"
  by (simp_all add: replaceSnapshotFileLocked_def Let_def)

text \<open>The node's log is what its disk stores, numbered from its offset.\<close>

definition node_wf :: "node \<Rightarrow> bool" where
  "node_wf n \<longleftrightarrow> positional (logOffset n) (log n) \<and> stored (dir n) (log n)"

lemma positional_above: "positional off lg \<Longrightarrow> filter (\<lambda>e. t < Index e) lg = drop (t - off) lg"
proof (induction lg arbitrary: off)
  case (Cons e lg)
  have e: "Index e = off + 1" using Cons.prems by (auto simp: positional_def dest: spec [of _ 0])
  have "positional (Suc off) lg"
    unfolding positional_def
  proof (intro allI impI)
    fix i assume "i < length lg"
    then show "Index (lg ! i) = Suc off + i + 1" using Cons.prems by (auto simp: positional_def dest: spec [of _ "Suc i"])
  qed
  from Cons.IH [OF this] have tl: "filter (\<lambda>e. t < Index e) lg = drop (t - Suc off) lg" .
  show ?case
  proof (cases "t \<le> off")
    case False
    then show ?thesis using e tl by (simp add: Suc_diff_Suc [symmetric])
  qed (use e tl in simp)
qed simp

lemma positional_anchor:
  assumes "positional off lg" "off < t" "Index a = t"
  shows "positional (t - 1) (a # drop (t - off) lg)"
  unfolding positional_def
proof (intro allI impI)
  fix i assume "i < length (a # drop (t - off) lg)"
  then show "Index ((a # drop (t - off) lg) ! i) = t - 1 + i + 1"
    using assms by (cases i) (auto simp: positional_def)
qed

text \<open>The effect of a compaction whose writes succeed.\<close>

lemma compact_ok:
  assumes "ioSnapshot ev = NoFault" "ioRewrite ev = NoFault" "logOffset n < LastIncludedIndex f"
    "LastIncludedIndex f \<le> lastLogIndexLocked n"
  shows "fst (compactLocked ev xs f n) = None"
    "log (snd (compactLocked ev xs f n)) = anchorOf f # drop (LastIncludedIndex f - logOffset n) (log n)"
    "logOffset (snd (compactLocked ev xs f n)) = LastIncludedIndex f - 1"
    "commitIndex (snd (compactLocked ev xs f n)) = commitIndex n" "lastApplied (snd (compactLocked ev xs f n)) = lastApplied n"
    "logFile (dir (snd (compactLocked ev xs f n))) = Some (records (anchorOf f # drop (LastIncludedIndex f - logOffset n) (log n)))"
proof -
  obtain e where "entryAtLocked n (LastIncludedIndex f) = Some e"
    using assms(3,4) entryAt_None [of n "LastIncludedIndex f"] by (cases "entryAtLocked n (LastIncludedIndex f)") auto
  then show "fst (compactLocked ev xs f n) = None"
    "log (snd (compactLocked ev xs f n)) = anchorOf f # drop (LastIncludedIndex f - logOffset n) (log n)"
    "logOffset (snd (compactLocked ev xs f n)) = LastIncludedIndex f - 1"
    "commitIndex (snd (compactLocked ev xs f n)) = commitIndex n" "lastApplied (snd (compactLocked ev xs f n)) = lastApplied n"
    "logFile (dir (snd (compactLocked ev xs f n))) = Some (records (anchorOf f # drop (LastIncludedIndex f - logOffset n) (log n)))"
    using assms by (simp_all add: compactLocked_def Let_def WriteFile_def RewriteLog_def)
qed

lemma compact_wf:
  assumes "ioSnapshot ev = NoFault" "ioRewrite ev = NoFault" "logOffset n < LastIncludedIndex f"
    "LastIncludedIndex f \<le> lastLogIndexLocked n" "node_wf n" "entry_ok (anchorOf f)"
  shows "node_wf (snd (compactLocked ev xs f n))" "lastLogIndexLocked (snd (compactLocked ev xs f n)) = lastLogIndexLocked n"
    "LastIncludedIndex f < i \<Longrightarrow> entryAtLocked (snd (compactLocked ev xs f n)) i = entryAtLocked n i"
proof -
  note c = compact_ok [OF assms(1-4), of xs]
  have "\<forall>e \<in> set (anchorOf f # drop (LastIncludedIndex f - logOffset n) (log n)). entry_ok e"
    using assms(5,6) by (auto simp: node_wf_def stored_def dest: in_set_dropD)
  then have "stored (dir (snd (compactLocked ev xs f n))) (anchorOf f # drop (LastIncludedIndex f - logOffset n) (log n))"
    using c(6) by (simp add: stored_def logBytes_def)
  moreover have "positional (LastIncludedIndex f - 1) (anchorOf f # drop (LastIncludedIndex f - logOffset n) (log n))"
    using assms(3,5) by (intro positional_anchor) (simp_all add: node_wf_def anchorOf_def)
  ultimately show "node_wf (snd (compactLocked ev xs f n))" by (simp add: node_wf_def c(2,3))
  show "lastLogIndexLocked (snd (compactLocked ev xs f n)) = lastLogIndexLocked n"
    using assms(3,4) by (simp add: lastLogIndexLocked_def c(2,3))
  show "entryAtLocked (snd (compactLocked ev xs f n)) i = entryAtLocked n i" if "LastIncludedIndex f < i"
    using assms(3,4) that by (auto simp: entryAtLocked_def lastLogIndexLocked_def c(2,3) nth_Cons')
qed

section \<open>Crash and restart\<close>

text \<open>
  The directory before a compaction: the snapshot file in use, and nothing in the directory that
  scans like a snapshot of a number at or above \<open>i\<close>.
\<close>

definition snapshots_below :: "uint64 \<Rightarrow> node \<Rightarrow> bool" where
  "snapshots_below i n \<longleftrightarrow> (\<forall>x \<in> fst ` set (files (dir n)). \<forall>j. scanSnapshotName x = Some j \<longrightarrow> j < i) \<and>
     currentSnapshotPath n \<noteq> FileName i"

lemma compact_disk:
  assumes "file_ok xs f" "ioSnapshot ev = NoFault" "node_wf n" "snapshots_below (LastIncludedIndex f) n"
    "logOffset n < LastIncludedIndex f" "LastIncludedIndex f \<le> lastLogIndexLocked n" "entry_ok (anchorOf f)"
  defines "d \<equiv> dir (snd (compactLocked ev xs f n))"
  shows "Latest d = Inr (Some (f, FileName (LastIncludedIndex f)))"
    "stored d (log n) \<or> stored d (anchorOf f # drop (LastIncludedIndex f - logOffset n) (log n))"
    "stateJson d = stateJson (dir n)"
proof -
  let ?i = "LastIncludedIndex f" and ?kept = "anchorOf f # drop (LastIncludedIndex f - logOffset n) (log n)"
  let ?p = "currentSnapshotPath n"
  let ?w = "snd (WriteFile NoFault xs f (dir n))"
  let ?r = "if ?p \<noteq> '''' \<and> ?p \<noteq> FileName ?i then removeFile (ioRemove ev) ?p ?w else ?w"
  obtain e where at: "entryAtLocked n ?i = Some e"
    using assms(5,6) entryAt_None [of n ?i] by (cases "entryAtLocked n ?i") auto
  have d: "d = snd (RewriteLog (ioRewrite ev) ?kept ?r)"
    unfolding d_def using at assms(2)
    by (auto simp: compactLocked_def Let_def WriteFile_def replaceSnapshotFileLocked_def split: prod.split option.split)
  have ok: "\<forall>e \<in> set ?kept. entry_ok e" using assms(3,7) by (auto simp: node_wf_def stored_def dest: in_set_dropD)
  have lb: "logBytes ?r = logBytes (dir n)" "stateJson ?r = stateJson (dir n)"
    by (simp_all add: removeFile_def WriteFile_def Let_def logBytes_def)
  show "stored d (log n) \<or> stored d ?kept"
    using lb assms(3) ok by (auto simp: d RewriteLog_def node_wf_def stored_def)
  show "stateJson d = stateJson (dir n)" using lb by (simp add: d RewriteLog_def)
  have fs: "files d = files ?r" by (simp add: d frame_simps)
  show "Latest d = Inr (Some (f, FileName ?i))"
  proof (rule Latest_newest [OF assms(1)])
    show "map_of (files d) (FileName ?i) = Some (Encode xs f)"
      by (simp add: fs removeFile_def WriteFile_def Let_def)
    fix x j assume "x \<in> fst ` set (files d)" "scanSnapshotName x = Some j" "x \<noteq> FileName ?i"
    then show "j < ?i" using assms(4)
      by (auto simp: fs removeFile_def WriteFile_def Let_def keys_gm_del snapshots_below_def split: if_splits)
  qed
qed

lemma baseline_snapshot:
  assumes "0 < LastIncludedIndex f" "positional off lg"
  shows "baseline (Some f) lg = (anchorOf f # drop (LastIncludedIndex f - off) lg, LastIncludedIndex f - 1,
    LastIncludedIndex f, FileName (LastIncludedIndex f))"
  using assms by (simp add: baseline_def Let_def anchorOf_def positional_above)

lemma baseline_anchored:
  assumes "0 < LastIncludedIndex f" "positional off lg"
  shows "baseline (Some f) (anchorOf f # drop (LastIncludedIndex f - off) lg) = baseline (Some f) lg"
proof -
  have "filter (\<lambda>e. LastIncludedIndex f < Index e) (drop (LastIncludedIndex f - off) lg) = drop (LastIncludedIndex f - off) lg"
    unfolding positional_above [OF assms(2), symmetric] by simp
  then show ?thesis using assms by (simp add: baseline_def Let_def anchorOf_def positional_above)
qed

lemma boot_snapshot:
  assumes "healthy ev" "Latest d = Inr (Some (f, path))" "LoadState NoFault d = Inr (t, v)"
    "stored d lg" "0 < LastIncludedIndex f" "baseline (Some f) lg = (lg', off, i, p)"
  shows "\<exists>n. bootNode ev cfg d = Inr n \<and> log n = lg' \<and> logOffset n = off \<and> commitIndex n = i \<and> lastApplied n = i \<and>
    currentTerm n = t \<and> votedFor n = v \<and> smOps n = [RestoreState (State f)] \<and> role n = Follower"
  using assms by (simp add: bootNode_def NewNode_def healthyD ReadAll_stored)

section \<open>Properties\<close>

text \<open>Concrete data: a node that has applied three entries, and a snapshot of its first two.\<close>

definition demoLog :: "LogEntry list" where
  "demoLog = [demoEntry 1, demoEntry 2, demoEntry 3]"

definition demoDir :: datadir where
  "demoDir = \<lparr>logFile = Some (records demoLog), stateJson = SavedState 1 ''a'', files = []\<rparr>"

definition demoCfg :: Config where
  "demoCfg = \<lparr>cfgID = ''a'', cfgAddress = ''a:1'', cfgPeers = [''b:2'', ''c:3''],
     cfgTiming = \<lparr>ElectionTimeoutMin = 150, ElectionTimeoutMax = 300, HeartbeatInterval = 50\<rparr>,
     cfgLogCapacity = 10, cfgLocalSnapshot = None\<rparr>"

definition demoReplica :: node where
  "demoReplica = (projr (NewNode calm demoCfg demoDir))\<lparr>commitIndex := 3, lastApplied := 3\<rparr>"

definition demoFile :: File where
  "demoFile = \<lparr>State = [''k'' \<mapsto> ''v''], LastIncludedIndex = 2, LastIncludedTerm = 1\<rparr>"

lemma stored_demoDir: "stored demoDir demoLog"
  by (simp add: stored_def demoDir_def demoLog_def logBytes_def)

lemma demoReplica_eq: "demoReplica = \<lparr>nid = ''a'', address = ''a:1'', peers = [''b:2'', ''c:3''], timing = cfgTiming demoCfg,
    logCapacity = 10, dir = demoDir, currentTerm = 1, votedFor = ''a'', log = demoLog, logOffset = 0, currentSnapshotPath = '''',
    role = Follower, commitIndex = 3, lastApplied = 3, nextIndex = [], matchIndex = [], currentLeader = '''',
    lastHeartbeat = 0, electionTimeout = 150, lastAppendEntriesAt = None, wakeups = 0, waiters = [], chans = (\<lambda>_. []),
    nextChan = 0, smOps = []\<rparr>"
proof -
  have "ReadAllLogEntries NoFault demoDir = (Inr demoLog, demoDir)"
    using ReadAll_stored [OF stored_demoDir, of NoFault] by (simp add: demoDir_def)
  moreover have "baseline None demoLog = (demoLog, 0, 0, '''')"
    by (simp add: baseline_def fallbackBaseline_def demoLog_def demoEntry_def sub64_le)
  moreover have "LoadState NoFault demoDir = Inr (1, ''a'')" by (simp add: LoadState_def demoDir_def)
  ultimately show ?thesis
    by (simp add: demoReplica_def NewNode_def calm_def demoCfg_def resetElectionDeadlineLocked_def)
qed

lemma demoReplica_wf: "node_wf demoReplica"
  using stored_demoDir
  by (auto simp: node_wf_def demoReplica_eq positional_def demoLog_def demoEntry_def less_Suc_eq numeral_3_eq_3)

lemma file_ok_demoFile: "file_ok [(''k'', ''v'')] demoFile"
  by (simp add: file_ok_def iteration_def demoFile_def Encode_def fileTypeDef_def fileValue_def gobUint_def gobString_def
      gobField_def asciiBytes_def encUintField_def Let_def)

lemma anchor_demoFile: "anchorOf demoFile = \<lparr>Term = 1, Index = 2, Command = []\<rparr>" "entry_ok (anchorOf demoFile)"
  by (simp_all add: anchorOf_def demoFile_def entry_ok_def gobEncode_def gobValue_def typeDef_def gobUint_def gobString_def
      gobField_def asciiBytes_def encUintField_def encBytesField_def Let_def)

lemma compact_restart:
  assumes "file_ok xs f" "ioSnapshot ev = NoFault" "node_wf n" "snapshots_below (LastIncludedIndex f) n"
    "logOffset n < LastIncludedIndex f" "LastIncludedIndex f \<le> lastLogIndexLocked n" "entry_ok (anchorOf f)"
    "LoadState NoFault (dir n) = Inr (t, v)" "healthy ev'"
  shows "\<exists>n'. bootNode ev' cfg (dir (snd (compactLocked ev xs f n))) = Inr n' \<and>
    log n' = anchorOf f # drop (LastIncludedIndex f - logOffset n) (log n) \<and> logOffset n' = LastIncludedIndex f - 1 \<and>
    commitIndex n' = LastIncludedIndex f \<and> lastApplied n' = LastIncludedIndex f \<and> currentTerm n' = t \<and> votedFor n' = v \<and>
    smOps n' = [RestoreState (State f)] \<and> role n' = Follower"
proof -
  let ?d = "dir (snd (compactLocked ev xs f n))"
  note c = compact_disk [OF assms(1-7)]
  have pos: "positional (logOffset n) (log n)" and i: "0 < LastIncludedIndex f" using assms(3,5) by (auto simp: node_wf_def)
  have "LoadState NoFault ?d = Inr (t, v)" using assms(8) c(3) by (simp add: LoadState_def)
  then show ?thesis
    using boot_snapshot [OF assms(9) c(1), of t v "log n"] c(2) i baseline_snapshot [OF i pos] baseline_anchored [OF i pos]
      boot_snapshot [OF assms(9) c(1), of t v "anchorOf f # drop (LastIncludedIndex f - logOffset n) (log n)"]
    by metis
qed

text \<open>
  C14: Compaction survives a crash. Once the snapshot file is written, whatever happens to the rewrite of
  \<open>log.dat\<close>, a restart finds the snapshot and rebuilds the compacted log: the anchor and every entry
  behind it, with the applied index at the anchor, the state machine restored from the
  snapshot, and the term and the vote unchanged.
\<close>

theorem compaction_crash_restart:
  assumes "file_ok xs f" "ioSnapshot ev = NoFault" "node_wf n" "snapshots_below (LastIncludedIndex f) n"
    "logOffset n < LastIncludedIndex f" "LastIncludedIndex f \<le> lastLogIndexLocked n" "entry_ok (anchorOf f)"
    "LoadState NoFault (dir n) = Inr (t, v)" "healthy ev'"
  shows "\<exists>n'. bootNode ev' cfg (dir (snd (compactLocked ev xs f n))) = Inr n' \<and>
    log n' = anchorOf f # drop (LastIncludedIndex f - logOffset n) (log n) \<and> logOffset n' = LastIncludedIndex f - 1 \<and>
    commitIndex n' = LastIncludedIndex f \<and> lastApplied n' = LastIncludedIndex f \<and> currentTerm n' = t \<and> votedFor n' = v \<and>
    smOps n' = [RestoreState (State f)] \<and> role n' = Follower"
  by (rule compact_restart [OF assms])

theorem compaction_crash_restart_witness:
  "\<exists>n'. bootNode calm demoCfg (dir (snd (compactLocked (calm\<lparr>ioRewrite := FailSync\<rparr>) [(''k'', ''v'')] demoFile demoReplica))) = Inr n' \<and>
    log n' = [anchorOf demoFile, demoEntry 3] \<and> logOffset n' = 1 \<and> lastApplied n' = 2 \<and>
    smOps n' = [RestoreState [''k'' \<mapsto> ''v'']]"
proof -
  have b: "snapshots_below 2 demoReplica" by (simp add: snapshots_below_def demoReplica_eq demoDir_def FileName_def)
  have "LastIncludedIndex demoFile = 2" "logOffset demoReplica = 0" "log demoReplica = demoLog" "dir demoReplica = demoDir"
    "State demoFile = [''k'' \<mapsto> ''v'']"
    by (simp_all add: demoFile_def demoReplica_eq)
  then show ?thesis
    using compaction_crash_restart [of "[(''k'', ''v'')]" demoFile "calm\<lparr>ioRewrite := FailSync\<rparr>" demoReplica 1 "''a''" calm demoCfg]
      b file_ok_demoFile demoReplica_wf anchor_demoFile(2)
    by (auto simp: calm_def lastLogIndexLocked_def demoLog_def demoDir_def LoadState_def healthy_def)
qed

text \<open>
  Compaction keeps the log. After a compaction that succeeds, the node's log is well formed and on
  disk, ends at the same index, every entry behind the anchor is where it was, and the commit and
  applied indices have not moved.
\<close>

theorem compaction_keeps_log:
  assumes "ioSnapshot ev = NoFault" "ioRewrite ev = NoFault" "logOffset n < LastIncludedIndex f"
    "LastIncludedIndex f \<le> lastLogIndexLocked n" "node_wf n" "entry_ok (anchorOf f)"
    "compactLocked ev xs f n = (err, n')"
  shows "err = None \<and> node_wf n' \<and> lastLogIndexLocked n' = lastLogIndexLocked n \<and>
    entryAtLocked n' (LastIncludedIndex f) = Some (anchorOf f) \<and>
    (LastIncludedIndex f < i \<longrightarrow> entryAtLocked n' i = entryAtLocked n i) \<and>
    commitIndex n' = commitIndex n \<and> lastApplied n' = lastApplied n"
  using compact_ok [OF assms(1-4), of xs] compact_wf [OF assms(1-6), where xs = xs] assms(3,7)
  by (simp add: entryAtLocked_def)

theorem compaction_keeps_log_witness:
  "fst (compactLocked calm [(''k'', ''v'')] demoFile demoReplica) = None \<and>
   node_wf (snd (compactLocked calm [(''k'', ''v'')] demoFile demoReplica)) \<and>
   entryAtLocked (snd (compactLocked calm [(''k'', ''v'')] demoFile demoReplica)) 3 = Some (demoEntry 3)"
proof -
  have e: "entryAtLocked demoReplica 3 = Some (demoEntry 3)"
    and i: "logOffset demoReplica < LastIncludedIndex demoFile" "LastIncludedIndex demoFile \<le> lastLogIndexLocked demoReplica"
      "LastIncludedIndex demoFile < 3" "ioSnapshot calm = NoFault" "ioRewrite calm = NoFault"
    by (simp_all add: demoReplica_eq demoFile_def lastLogIndexLocked_def demoLog_def entryAtLocked_def calm_def)
  from compaction_keeps_log [OF i(4,5,1,2) demoReplica_wf anchor_demoFile(2) surjective_pairing,
      where i = 3 and xs = "[(''k'', ''v'')]"] e i(3)
  show ?thesis by simp
qed

section \<open>Streaming a range of the log\<close>

lemma streamLoop_ok:
  assumes "to < 2 ^ 64 - 1" "idx \<le> Suc to"
  shows "streamLoop n to idx acc = Some (acc @ map (\<lambda>i. the (entryAtLocked n i)) (filter (\<lambda>i. entryAtLocked n i \<noteq> None) [idx ..< Suc to]))"
  using assms
proof (induction "Suc to - idx" arbitrary: idx acc)
  case 0
  then show ?case by (subst streamLoop.simps) simp
next
  case (Suc k)
  then have le: "idx \<le> to" by simp
  have u: "u64 (Suc idx) = Suc idx" using le Suc.prems by (intro u64_id) simp
  have up: "[idx ..< Suc to] = idx # [Suc idx ..< Suc to]" using le by (simp add: upt_conv_Cons del: upt_Suc)
  have "k = Suc to - Suc idx" "Suc idx \<le> Suc to" using Suc.hyps(2) le by simp_all
  note step = Suc.hyps(1) [OF this(1) Suc.prems(1) this(2)]
  show ?case unfolding up by (subst streamLoop.simps) (simp add: u le step split: option.split del: upt_Suc)
qed

text \<open>The loop with the largest bound never returns: its counter wraps and stays below the bound.\<close>

lemma streamLoop_returned: "streamLoop n to idx acc = Some r \<Longrightarrow> idx < 2 ^ 64 \<longrightarrow> to \<noteq> 2 ^ 64 - 1"
proof (erule streamLoop.raw_induct [rotated])
  fix f :: "node \<Rightarrow> uint64 \<Rightarrow> uint64 \<Rightarrow> LogEntry list \<Rightarrow> LogEntry list option" and n to idx acc r
  assume IH: "\<And>n to idx acc r. f n to idx acc = Some r \<Longrightarrow> idx < 2 ^ 64 \<longrightarrow> to \<noteq> 2 ^ 64 - 1"
    and step: "(if idx \<le> to then f n to (u64 (idx + 1)) (case entryAtLocked n idx of None \<Rightarrow> acc | Some e \<Rightarrow> acc @ [e])
       else Some acc) = Some r"
  show "idx < 2 ^ 64 \<longrightarrow> to \<noteq> 2 ^ 64 - 1"
  proof (intro impI notI)
    assume a: "idx < 2 ^ 64" "to = 2 ^ 64 - 1"
    then have "idx \<le> to" by simp
    with step have "f n to (u64 (idx + 1)) (case entryAtLocked n idx of None \<Rightarrow> acc | Some e \<Rightarrow> acc @ [e]) = Some r" by simp
    from IH [OF this] show False using a(2) u64_less by blast
  qed
qed

lemma streamLoop_unbounded: "idx < 2 ^ 64 \<Longrightarrow> streamLoop n (2 ^ 64 - 1) idx acc = None"
  using streamLoop_returned [of n "2 ^ 64 - 1" idx acc] by (cases "streamLoop n (2 ^ 64 - 1) idx acc") auto

lemma filter_upt: "filter (\<lambda>i. l \<le> i \<and> i < h) [a ..< b] = [max a l ..< min b h]"
proof (induction b)
  case (Suc b)
  consider "b < a" | "a \<le> b" "h \<le> b" | "a \<le> b" "b < h" by linarith
  then show ?case using Suc by cases (auto simp: max_def min_def)
qed simp

lemma map_nth_range: "map (\<lambda>i. xs ! (i - Suc off)) [Suc (off + a) ..< Suc (off + b)] = drop a (take b xs)" if "b \<le> length xs"
  using that by (intro nth_equalityI) (auto simp del: upt_Suc)

lemma stream_entries:
  "map (\<lambda>i. the (entryAtLocked n i)) (filter (\<lambda>i. entryAtLocked n i \<noteq> None) [from ..< Suc to])
    = drop (from - logOffset n - 1) (take (to - logOffset n) (log n))"
proof -
  let ?o = "logOffset n" and ?l = "length (log n)"
  have "filter (\<lambda>i. entryAtLocked n i \<noteq> None) [from ..< Suc to] = filter (\<lambda>i. Suc ?o \<le> i \<and> i < Suc (?o + ?l)) [from ..< Suc to]"
    by (rule filter_cong) (auto simp: entryAtLocked_def)
  then have "filter (\<lambda>i. entryAtLocked n i \<noteq> None) [from ..< Suc to] = [max from (Suc ?o) ..< min (Suc to) (Suc (?o + ?l))]"
    by (simp only: filter_upt)
  then have "map (\<lambda>i. the (entryAtLocked n i)) (filter (\<lambda>i. entryAtLocked n i \<noteq> None) [from ..< Suc to])
      = map (\<lambda>i. log n ! (i - Suc ?o)) [max from (Suc ?o) ..< min (Suc to) (Suc (?o + ?l))]"
    by (auto simp: entryAtLocked_def simp del: upt_Suc)
  also have "\<dots> = drop (from - ?o - 1) (take (to - ?o) (log n))"
  proof (cases "?o \<le> to")
    case True
    have "max from (Suc ?o) = Suc (?o + (from - ?o - 1))" "min (Suc to) (Suc (?o + ?l)) = Suc (?o + min (to - ?o) ?l)"
      using True by auto
    then show ?thesis by (simp only: map_nth_range min.cobounded2) (simp add: min_def)
  qed auto
  finally show ?thesis .
qed

lemma stream_range:
  assumes "lrToIndex req < 2 ^ 64 - 1"
  shows "StreamLogRange req None n = Some (None,
    map pbOfEntry (drop (lrFromIndex req - logOffset n - 1) (take (lrToIndex req - logOffset n) (log n))))"
proof (cases "lrFromIndex req \<le> Suc (lrToIndex req)")
  case True
  then show ?thesis
    unfolding StreamLogRange_def streamLoop_ok [OF assms True] by (simp only: stream_entries) simp
next
  case False
  then show ?thesis unfolding StreamLogRange_def by (subst streamLoop.simps) simp
qed

text \<open>
  C27: What \<open>StreamLogRange\<close> sends. For every bound below the largest 64-bit value the call returns and
  sends exactly the part of the log between the two indices, whether committed or not.
\<close>

theorem stream_sends_range:
  assumes "lrToIndex req < 2 ^ 64 - 1"
  shows "StreamLogRange req None n = Some (None,
    map pbOfEntry (drop (lrFromIndex req - logOffset n - 1) (take (lrToIndex req - logOffset n) (log n))))"
  using assms by (rule stream_range)

theorem stream_sends_range_witness:
  "StreamLogRange \<lparr>lrFromIndex = 2, lrToIndex = 3\<rparr> None (demoReplica\<lparr>commitIndex := 0\<rparr>)
     = Some (None, [pbOfEntry (demoEntry 2), pbOfEntry (demoEntry 3)])"
  using stream_sends_range [of "\<lparr>lrFromIndex = 2, lrToIndex = 3\<rparr>" "demoReplica\<lparr>commitIndex := 0\<rparr>"]
  by (simp add: demoReplica_eq demoLog_def)

text \<open>
  A range request whose upper bound is the largest 64-bit value never returns: the loop counter wraps
  around before it can exceed the bound, with the node's lock held.
\<close>

theorem stream_never_returns:
  assumes "lrFromIndex req < 2 ^ 64" "lrToIndex req = 2 ^ 64 - 1"
  shows "StreamLogRange req sendFails n = None"
  using streamLoop_unbounded [OF assms(1), of n "[]"] assms(2) by (simp add: StreamLogRange_def)

theorem stream_never_returns_witness:
  "StreamLogRange \<lparr>lrFromIndex = 1, lrToIndex = 2 ^ 64 - 1\<rparr> None demoReplica = None"
  by (rule stream_never_returns) simp_all

section \<open>Confirmed compaction\<close>

lemma compact_log_cases:
  assumes "compactLocked ev xs f n = (err, n')"
  shows "err = None \<and> log n' = anchorOf f # drop (LastIncludedIndex f - logOffset n) (log n) \<and>
      logOffset n' = LastIncludedIndex f - 1 \<or>
    err \<noteq> None \<and> log n' = log n \<and> logOffset n' = logOffset n"
    and "lastApplied n' = lastApplied n" "commitIndex n' = commitIndex n"
  using assms by (auto simp: compactLocked_def Let_def split: option.splits prod.splits sum.splits)

text \<open>
  \<open>ConfirmCompaction\<close> never cuts what has not been applied: an error leaves the log as it was, the log
  changes only when the index is applied and matches the snapshot's, and then it is
  the anchor followed by the entries behind it. Sending the same confirmation again changes nothing.
\<close>

theorem confirm_compaction_guarded:
  assumes "ConfirmCompaction ev xs req n = (err, n')"
  shows "(err \<noteq> None \<longrightarrow> log n' = log n \<and> logOffset n' = logOffset n) \<and>
    (log n' \<noteq> log n \<longrightarrow> caTruncatedUpToIndex req \<le> lastApplied n \<and>
       (\<exists>f. Decode (caStateMachineSnapshot req) = Some f \<and> LastIncludedIndex f = caTruncatedUpToIndex req \<and>
          log n' = anchorOf f # drop (caTruncatedUpToIndex req - logOffset n) (log n))) \<and>
    lastApplied n' = lastApplied n \<and> commitIndex n' = commitIndex n \<and>
    (err = None \<longrightarrow> ConfirmCompaction ev' xs' req n' = (None, n'))"
proof -
  let ?t = "caTruncatedUpToIndex req"
  consider "?t \<le> logOffset n + 1" "n' = n" "err = None" | e where "n' = n" "err = Some e"
    | f where "logOffset n + 1 < ?t" "?t \<le> lastApplied n" "Decode (caStateMachineSnapshot req) = Some f"
        "LastIncludedIndex f = ?t" "compactLocked ev xs f n = (err, n')"
    using assms by (auto simp: ConfirmCompaction_def Let_def split: if_splits option.splits)
  then show ?thesis
  proof cases
    case 1
    then show ?thesis by (simp add: ConfirmCompaction_def)
  next
    case 2
    then show ?thesis by simp
  next
    case 3
    then show ?thesis using compact_log_cases [OF 3(5)] by (auto simp: ConfirmCompaction_def)
  qed
qed

theorem confirm_compaction_guarded_witness:
  "let req = \<lparr>caTruncatedUpToIndex = 2, caStateMachineSnapshot = Encode [(''k'', ''v'')] demoFile\<rparr>;
       n' = snd (ConfirmCompaction calm [(''k'', ''v'')] req demoReplica)
   in log n' = [anchorOf demoFile, demoEntry 3] \<and> ConfirmCompaction calm [] req n' = (None, n')"
proof -
  let ?req = "\<lparr>caTruncatedUpToIndex = 2, caStateMachineSnapshot = Encode [(''k'', ''v'')] demoFile\<rparr>"
  let ?r = "ConfirmCompaction calm [(''k'', ''v'')] ?req demoReplica"
  have f: "LastIncludedIndex demoFile = 2" "lastApplied demoReplica = 3" "logOffset demoReplica = 0" "log demoReplica = demoLog"
    by (simp_all add: demoFile_def demoReplica_eq)
  have r: "?r = compactLocked calm [(''k'', ''v'')] demoFile demoReplica"
    using f by (simp add: ConfirmCompaction_def Decode_Encode [OF file_ok_demoFile])
  have "fst ?r = None" "log (snd ?r) = [anchorOf demoFile, demoEntry 3]"
    unfolding r using compact_ok [of calm demoReplica demoFile "[(''k'', ''v'')]"] f
    by (simp_all add: calm_def lastLogIndexLocked_def demoLog_def)
  then show ?thesis using confirm_compaction_guarded [OF surjective_pairing [of ?r], of calm "[]"]
    by (simp add: Let_def)
qed

section \<open>Catch-up\<close>

lemma catchup_ok:
  assumes "healthy ev" "0 < LastIncludedIndex f" "n' = catchUpFromSnapshot ev xs (Some f) n"
  shows "log n' = [anchorOf f]" "logOffset n' = LastIncludedIndex f - 1"
    "commitIndex n' = max (commitIndex n) (LastIncludedIndex f)" "lastApplied n' = max (lastApplied n) (LastIncludedIndex f)"
    "wakeups n' = wakeups n" "smOps n' = smOps n @ [RestoreState (State f)]" "logFile (dir n') = Some (records [anchorOf f])"
    "currentTerm n' = currentTerm n" "votedFor n' = votedFor n"
  unfolding assms(3) using assms(1,2)
  by (simp_all add: catchUpFromSnapshot_def catchUpWrite_def WriteFile_def Let_def catchUpRewrite_def RewriteLog_def
      catchUpAdopt_def catchUpRestore_def healthyD replaceSnapshotFileLocked_def removeFile_def max_def)

lemma poll_catches_up:
  assumes "siAvailable info" "lastApplied n < siLastIncludedIndex info"
  shows "snapshotPollOnce ev xs (Some info) fetched n = catchUpFromSnapshot ev xs fetched n"
  using assms by (simp add: snapshotPollOnce_def pollDecide_def)

text \<open>
  C40: Catching up from a snapshot discards acknowledged entries. A follower that holds entries behind the
  snapshot's index, acknowledged to the leader but not yet known to be committed, loses them
  from memory and from disk, and then grants its vote to a candidate that never had them.
\<close>

theorem catchup_discards_acknowledged:
  assumes "healthy ev" "siAvailable info" "siLastIncludedIndex info = LastIncludedIndex f"
    "lastApplied n < LastIncludedIndex f" "LastIncludedIndex f < j" "entryAtLocked n j = Some e"
    "n' = snapshotPollOnce ev xs (Some info) (Some f) n"
    "currentTerm n < rvTerm req" "rvLastLogIndex req = LastIncludedIndex f" "rvLastLogTerm req = LastIncludedTerm f"
  shows "entryAtLocked n' j = None \<and> logFile (dir n') = Some (records [anchorOf f]) \<and>
    (\<exists>n''. RequestVote ev req n' = (Inr \<lparr>rvrTerm = rvTerm req, rvrVoteGranted = True\<rparr>, n''))"
proof -
  have n': "n' = catchUpFromSnapshot ev xs (Some f) n" using assms(7) poll_catches_up [of info n ev xs "Some f"] assms(2-4) by simp
  note c = catchup_ok [OF assms(1) _ n'] 
  have i: "0 < LastIncludedIndex f" using assms(4) by simp
  have "entryAtLocked n' j = None" using c(1,2) i assms(5) by (auto simp: entryAtLocked_def)
  moreover have "\<exists>n''. RequestVote ev req n' = (Inr \<lparr>rvrTerm = rvTerm req, rvrVoteGranted = True\<rparr>, n'')"
    using c(1,2,8) i assms(8-10) observe_healthy [OF assms(1), of n' "rvTerm req"]
    by (simp add: RequestVote_def grantVote_healthy [OF assms(1)] up_to_date_iff lastLogTermLocked_def lastLogIndexLocked_def
        anchorOf_def)
  ultimately show ?thesis using c(7) i by blast
qed

definition demoBehind :: node where
  "demoBehind = demoReplica\<lparr>commitIndex := 0, lastApplied := 0\<rparr>"

theorem catchup_discards_acknowledged_witness:
  "entryAtLocked demoBehind 3 = Some (demoEntry 3) \<and>
   entryAtLocked (snapshotPollOnce calm [(''k'', ''v'')] (Some \<lparr>siLastIncludedIndex = 2, siLastIncludedTerm = 1, siAvailable = True\<rparr>)
     (Some demoFile) demoBehind) 3 = None"
proof -
  have a: "entryAtLocked demoBehind 3 = Some (demoEntry 3)" and b: "lastApplied demoBehind = 0" "currentTerm demoBehind = 1"
    by (simp_all add: demoBehind_def demoReplica_eq demoLog_def entryAtLocked_def)
  then show ?thesis
    using catchup_discards_acknowledged [of calm "\<lparr>siLastIncludedIndex = 2, siLastIncludedTerm = 1, siAvailable = True\<rparr>"
        demoFile demoBehind 3 "demoEntry 3" _ "[(''k'', ''v'')]"
        "\<lparr>rvTerm = 2, rvCandidateId = ''b'', rvLastLogIndex = 2, rvLastLogTerm = 1\<rparr>"]
    by (simp add: demoFile_def)
qed

text \<open>
  Catching up advances \<open>lastApplied\<close> without waking the calls that wait for it: a linearizable
  read parked before the catch-up stays parked although its index has been reached.
\<close>

theorem catchup_without_wakeup:
  assumes "healthy ev" "lastApplied n < target" "target \<le> LastIncludedIndex f"
    "n' = catchUpFromSnapshot ev xs (Some f) n"
  shows "waitTurn target n = Some (wakeups n) \<and> waitTurn target n' = None \<and> \<not> woken (wakeups n) n'"
  using catchup_ok [OF assms(1) _ assms(4)] assms(2,3) by (auto simp: waitTurn_def woken_def)

theorem catchup_without_wakeup_witness:
  "waitTurn 1 demoBehind = Some 0 \<and> waitTurn 1 (catchUpFromSnapshot calm [(''k'', ''v'')] (Some demoFile) demoBehind) = None \<and>
   \<not> woken 0 (catchUpFromSnapshot calm [(''k'', ''v'')] (Some demoFile) demoBehind)"
proof -
  have "lastApplied demoBehind = 0" "wakeups demoBehind = 0" "LastIncludedIndex demoFile = 2"
    by (simp_all add: demoBehind_def demoReplica_eq demoFile_def)
  then show ?thesis using catchup_without_wakeup [OF healthy_calm _ _ refl, of demoBehind 1 demoFile "[(''k'', ''v'')]"] by simp
qed

section \<open>Temporary snapshot files\<close>

text \<open>
  A crash in the middle of writing a snapshot keeps the node from starting. The file left behind
  under the temporary name scans like a snapshot, is taken for the newest one, and does not
  decode, so the start fails although the log and any older snapshot are intact.
\<close>

theorem torn_snapshot_blocks_start:
  assumes "ioSnapshot ev = FailWrite k" "k < length fileTypeDef" "logOffset n < LastIncludedIndex f"
    "LastIncludedIndex f \<le> lastLogIndexLocked n" "LastIncludedIndex f < 2 ^ 64" "snapshots_below (LastIncludedIndex f) n"
  shows "bootNode ev' cfg (dir (snd (compactLocked ev xs f n))) = Inl (ErrPersist IOError)"
proof -
  let ?i = "LastIncludedIndex f" and ?d = "dir (snd (compactLocked ev xs f n))"
  let ?tmp = "FileName ?i @ ''.tmp''"
  obtain e where "entryAtLocked n ?i = Some e"
    using assms(3,4) entryAt_None [of n ?i] by (cases "entryAtLocked n ?i") auto
  then have d: "files ?d = gm_set ?tmp (take k (Encode xs f)) (files (dir n))"
    using assms(1) by (simp add: compactLocked_def Let_def WriteFile_def)
  have "Latest ?d = (case ReadFile ?tmp ?d of Inl e \<Rightarrow> Inl e | Inr g \<Rightarrow> Inr (Some (g, ?tmp)))"
  proof (rule Latest_unique)
    show "scanSnapshotName ?tmp = Some ?i" using assms(5) by (rule scan_FileName_append)
    fix x j assume "x \<in> fst ` set (files ?d)" "scanSnapshotName x = Some j" "x \<noteq> ?tmp"
    then show "j < ?i" using assms(6) by (auto simp: d snapshots_below_def)
  qed (simp add: d)
  moreover have "ReadFile ?tmp ?d = Inl IOError" by (simp add: ReadFile_def d Decode_torn [OF assms(2)])
  ultimately show ?thesis by (simp add: bootNode_def)
qed

theorem torn_snapshot_blocks_start_witness:
  "bootNode calm demoCfg (dir (snd (compactLocked (calm\<lparr>ioSnapshot := FailWrite 5\<rparr>) [] demoFile demoReplica))) = Inl (ErrPersist IOError)"
proof (rule torn_snapshot_blocks_start)
  show "(5 :: nat) < length fileTypeDef" by (simp add: fileTypeDef_def gobUint_def gobString_def gobField_def asciiBytes_def Let_def)
  show "snapshots_below (LastIncludedIndex demoFile) demoReplica"
    by (simp add: snapshots_below_def demoReplica_eq demoDir_def FileName_def)
qed (simp_all add: demoFile_def demoReplica_eq lastLogIndexLocked_def demoLog_def calm_def)

end
