(* ===== verification/Raft_Local.thy ===== *)
theory Raft_Local
  imports Raft_Compaction
begin

text \<open>
  What a node guarantees by itself, whatever its peers send and whichever of its writes to disk fail while it
  keeps running: its term and vote move only forward, the channels of waiting \<open>ProposeSync\<close> calls never
  block a sender that holds the node's lock, and a call is told its entry is committed only after
  that very entry has been applied.
\<close>

section \<open>The steps of one node\<close>

text \<open>The entries of a request are numbered from its previous index on; every leader's requests are.\<close>

definition req_ok :: "AppendEntriesRequest \<Rightarrow> bool" where
  "req_ok req \<longleftrightarrow> positional (aePrevLogIndex req) (map entryOfPb (aeEntries req))"

inductive lstep :: "node \<Rightarrow> node \<Rightarrow> bool" where
  vote: "lstep n (snd (RequestVote ev req n))"
| append: "req_ok req \<Longrightarrow> lstep n (snd (AppendEntries ev req n))"
| stand: "currentTerm n + 1 < 2 ^ 64 \<Longrightarrow> lstep n (snd (startElection ev n))"
| self: "lstep n (selfElect el n)"
| voteReply: "lstep n (snd (handleVoteReply ev reply el n))"
| sendReply: "lstep n (snd (handleSendReply ev t r rep n))"
| propose: "lstep n (snd (Propose ev cmd n))"
| proposeSync: "lstep n (snd (proposeBegin ev cmd n))"
| receive: "lstep n (snd (proposeReceive ch n))"
| cancel: "lstep n (proposeCancel i n)"
| readReply: "lstep n (snd (followerReadReply reply n))"
| confirm: "lstep n (snd (ConfirmCompaction ev xs req n))"
| compact: "lstep n (pollCompact ev xs target fetched n)"

section \<open>Term and vote\<close>

definition tv_le :: "node \<Rightarrow> node \<Rightarrow> bool" where
  "tv_le n n' \<longleftrightarrow> currentTerm n < currentTerm n' \<or>
     currentTerm n = currentTerm n' \<and> (votedFor n = '''' \<or> votedFor n' = votedFor n)"

lemma tv_refl [simp]: "tv_le n n"
  by (simp add: tv_le_def)

lemma tv_trans: "tv_le n n' \<Longrightarrow> tv_le n' n'' \<Longrightarrow> tv_le n n''"
  by (auto simp: tv_le_def)

lemma tv_same: "currentTerm n' = currentTerm n \<Longrightarrow> votedFor n' = votedFor n \<Longrightarrow> tv_le n n'"
  by (simp add: tv_le_def)

text \<open>The helpers that leave both alone.\<close>

lemma tv_frame [simp]:
  "currentTerm (snd (persistStateLocked flt n)) = currentTerm n" "votedFor (snd (persistStateLocked flt n)) = votedFor n"
  "currentTerm (applyCommittedLocked n) = currentTerm n" "votedFor (applyCommittedLocked n) = votedFor n"
  "currentTerm (snd (mergeEntriesLocked ev p es n)) = currentTerm n" "votedFor (snd (mergeEntriesLocked ev p es n)) = votedFor n"
  "currentTerm (snd (appendToLog ev es' n)) = currentTerm n" "votedFor (snd (appendToLog ev es' n)) = votedFor n"
proof -
  have loop: "currentTerm (applyLoop n) = currentTerm n \<and> votedFor (applyLoop n) = votedFor n" for n
  proof (induction n rule: applyLoop.induct)
    case (1 n)
    then show ?case by (subst (1 2) applyLoop.simps) (auto simp: applyOne_def Let_def split: option.split)
  qed
  then show "currentTerm (applyCommittedLocked n) = currentTerm n" "votedFor (applyCommittedLocked n) = votedFor n"
    by (simp_all add: applyCommittedLocked_def Let_def)
  show "currentTerm (snd (mergeEntriesLocked ev p es n)) = currentTerm n" "votedFor (snd (mergeEntriesLocked ev p es n)) = votedFor n"
    by (auto simp: mergeEntriesLocked_def truncateAt_def appendToLog_def split: prod.split option.split)
qed (auto simp: persistStateLocked_def appendToLog_def split: prod.split option.split)

lemma tv_observe: "tv_le n (snd (snd (observeTermLocked ev t n)))"
  by (auto simp: observeTermLocked_def tv_le_def persistStateLocked_def Let_def split: prod.split)

lemma tv_grant: "tv_le n (snd (grantVote ev req n))"
  by (auto simp: grantVote_def tv_le_def persistStateLocked_def SaveState_def Let_def)

lemma tv_vote: "tv_le n (snd (RequestVote ev req n))"
proof -
  obtain b err n1 where o: "observeTermLocked ev (rvTerm req) n = (b, err, n1)" by (metis prod_cases3)
  then have "tv_le n n1" using tv_observe [of n ev "rvTerm req"] by simp
  then show ?thesis using o tv_grant by (cases err) (auto simp: RequestVote_def intro: tv_trans)
qed

lemma tv_appendAt: "tv_le n (snd (appendAtTerm ev req n))"
proof -
  have accept: "currentTerm (snd (acceptAppend ev req n)) = currentTerm n \<and> votedFor (snd (acceptAppend ev req n)) = votedFor n" for n
  proof (cases "mergeEntriesLocked ev (aePrevLogIndex req) (aeEntries req) (n\<lparr>lastAppendEntriesAt := Some (now ev)\<rparr>)")
    case (Pair err n2)
    then show ?thesis
      using tv_frame(5,6) [of ev "aePrevLogIndex req" "aeEntries req" "n\<lparr>lastAppendEntriesAt := Some (now ev)\<rparr>"]
      by (cases err) (auto simp: acceptAppend_def Let_def)
  qed
  then show ?thesis
    by (intro tv_same) (simp_all add: appendAtTerm_def appendAsFollower_def Let_def split: option.split)
qed

lemma tv_append: "tv_le n (snd (AppendEntries ev req n))"
proof -
  obtain b err n1 where o: "observeTermLocked ev (aeTerm req) n = (b, err, n1)" by (metis prod_cases3)
  then have "tv_le n n1" using tv_observe [of n ev "aeTerm req"] by simp
  then show ?thesis using o tv_appendAt by (cases err) (auto simp: AppendEntries_def intro: tv_trans)
qed

lemma tv_stand: "currentTerm n + 1 < 2 ^ 64 \<Longrightarrow> tv_le n (snd (startElection ev n))"
  by (auto simp: startElection_def tv_le_def persistStateLocked_def SaveState_def Let_def)

lemma tv_becomeLeader [simp]: "tv_le n (becomeLeaderLocked n)"
  by (simp add: becomeLeaderLocked_def tv_le_def Let_def)

lemma tv_advance: "currentTerm (advanceFrom N n) = currentTerm n \<and> votedFor (advanceFrom N n) = votedFor n"
  by (induction N) (auto split: option.split)

lemma tv_sendReply: "tv_le n (snd (handleSendReply ev t r rep n))"
proof (cases rep)
  case (Some reply)
  show ?thesis
  proof (cases "role n = Leader \<and> currentTerm n = t \<and> currentTerm n < aerTerm reply")
    case True
    then show ?thesis using Some tv_observe by (simp add: handleSendReply_def handleAppendEntriesReplyLocked_def)
  next
    case False
    then show ?thesis using Some tv_advance
      by (intro tv_same) (simp_all add: handleSendReply_def handleAppendEntriesReplyLocked_def maybeAdvanceCommitIndexLocked_def Let_def)
  qed
qed (simp add: handleSendReply_def)

lemma tv_appendLocal: "snd (snd (snd (appendLocalLocked ev cmd n))) = snd (appendToLog ev [\<lparr>Term = currentTerm n,
    Index = lastLogIndexLocked n + 1, Command = cmd\<rparr>] n)"
  by (simp add: appendLocalLocked_def Let_def split: prod.split option.split)

lemma tv_compact: "tv_le n (snd (compactLocked ev xs f n))"
  by (rule tv_same) (simp_all add: compactLocked_def Let_def split: option.split prod.split sum.split)

lemma tv_step: "lstep n n' \<Longrightarrow> tv_le n n'"
proof (induction rule: lstep.induct)
  case (propose n ev cmd)
  obtain i t err n1 where "appendLocalLocked ev cmd n = (i, t, err, n1)" by (metis prod_cases4)
  then show ?case using tv_appendLocal [of ev cmd n] by (cases err) (auto simp: Propose_def intro!: tv_same)
next
  case (proposeSync n ev cmd)
  obtain i t err n1 where "appendLocalLocked ev cmd n = (i, t, err, n1)" by (metis prod_cases4)
  then show ?case using tv_appendLocal [of ev cmd n] by (cases err) (auto simp: proposeBegin_def intro!: tv_same)
next
  case (confirm n ev xs req)
  then show ?case using tv_compact by (simp add: ConfirmCompaction_def Let_def split: option.split)
next
  case (compact n ev xs target fetched)
  then show ?case using tv_compact by (simp add: pollCompact_def split: option.split)
next
  case (stand n ev)
  then show ?case by (rule tv_stand)
qed (auto simp: tv_vote tv_append tv_sendReply selfElect_def handleVoteReply_def Let_def tv_observe proposeReceive_def
    proposeCancel_def followerReadReply_def intro!: tv_same split: list.split option.split)

section \<open>Waiting calls\<close>

text \<open>
  The channels of the waiting calls: each index has one, each channel one index, a registered channel is
  empty, a channel holds at most one notice, and only a leader has waiting calls. The buffer of a
  channel has room for one value, so a send never blocks.
\<close>

definition chans_ok :: "node \<Rightarrow> bool" where
  "chans_ok n \<longleftrightarrow> gm_wf (waiters n) \<and> distinct (map snd (waiters n)) \<and>
     (\<forall>i ch. (i, ch) \<in> set (waiters n) \<longrightarrow> ch < nextChan n \<and> chans n ch = [] \<and> i \<le> lastLogIndexLocked n) \<and>
     (\<forall>ch. length (chans n ch) \<le> 1 \<and> (nextChan n \<le> ch \<longrightarrow> chans n ch = [])) \<and>
     (role n \<noteq> Leader \<longrightarrow> waiters n = []) \<and> positional (logOffset n) (log n)"

text \<open>
  One call, from its registration on: it waits for the entry \<open>e\<close> at index \<open>i\<close> of the leader of
  term \<open>t\<close>, or it no longer waits and its channel holds \<open>Committed\<close> only if the entry has been applied.
\<close>

definition call_ok :: "uint64 \<Rightarrow> uint64 \<Rightarrow> nat \<Rightarrow> LogEntry \<Rightarrow> node \<Rightarrow> bool" where
  "call_ok i t ch e n \<longleftrightarrow> ch < nextChan n \<and>
     ((i, ch) \<in> set (waiters n) \<and> role n = Leader \<and> currentTerm n = t \<and> entryAtLocked n i = Some e \<and> lastApplied n < i \<or>
      ch \<notin> snd ` set (waiters n) \<and> (Committed \<in> set (chans n ch) \<longrightarrow> applyOp e \<in> set (smOps n)))"

lemma chansD:
  assumes "chans_ok n"
  shows "gm_wf (waiters n)" "distinct (map snd (waiters n))" "(i, ch) \<in> set (waiters n) \<Longrightarrow> ch < nextChan n"
    "(i, ch) \<in> set (waiters n) \<Longrightarrow> chans n ch = []" "(i, ch) \<in> set (waiters n) \<Longrightarrow> i \<le> lastLogIndexLocked n"
    "length (chans n ch) \<le> 1" "nextChan n \<le> ch \<Longrightarrow> chans n ch = []" "role n \<noteq> Leader \<Longrightarrow> waiters n = []"
    "positional (logOffset n) (log n)"
  using assms by (auto simp: chans_ok_def)

lemma chans_ok_frame:
  assumes "chans_ok n" "waiters n' = waiters n" "chans n' = chans n" "nextChan n' = nextChan n" "role n' = role n"
    "lastLogIndexLocked n' = lastLogIndexLocked n" "positional (logOffset n') (log n')"
  shows "chans_ok n'"
  using assms unfolding chans_ok_def by presburger

lemma chans_ok_upd [simp]:
  "chans_ok (n\<lparr>dir := d\<rparr>) = chans_ok n" "chans_ok (n\<lparr>votedFor := v\<rparr>) = chans_ok n"
  "chans_ok (n\<lparr>currentTerm := u\<rparr>) = chans_ok n" "chans_ok (n\<lparr>commitIndex := c\<rparr>) = chans_ok n"
  "chans_ok (n\<lparr>lastApplied := c\<rparr>) = chans_ok n" "chans_ok (n\<lparr>smOps := ops\<rparr>) = chans_ok n"
  "chans_ok (n\<lparr>nextIndex := m\<rparr>) = chans_ok n" "chans_ok (n\<lparr>matchIndex := m\<rparr>) = chans_ok n"
  "chans_ok (n\<lparr>currentLeader := a\<rparr>) = chans_ok n" "chans_ok (n\<lparr>lastAppendEntriesAt := x\<rparr>) = chans_ok n"
  "chans_ok (n\<lparr>wakeups := w\<rparr>) = chans_ok n" "chans_ok (n\<lparr>currentSnapshotPath := p\<rparr>) = chans_ok n"
  "chans_ok (resetElectionDeadlineLocked ev n) = chans_ok n"
  by (simp_all add: chans_ok_def lastLogIndexLocked_def)

lemma call_ok_upd [simp]:
  "call_ok i t ch e (n\<lparr>dir := d\<rparr>) = call_ok i t ch e n" "call_ok i t ch e (n\<lparr>votedFor := v\<rparr>) = call_ok i t ch e n"
  "call_ok i t ch e (n\<lparr>commitIndex := c\<rparr>) = call_ok i t ch e n"
  "call_ok i t ch e (n\<lparr>nextIndex := m\<rparr>) = call_ok i t ch e n" "call_ok i t ch e (n\<lparr>matchIndex := m\<rparr>) = call_ok i t ch e n"
  "call_ok i t ch e (n\<lparr>currentLeader := a\<rparr>) = call_ok i t ch e n" "call_ok i t ch e (n\<lparr>lastAppendEntriesAt := x\<rparr>) = call_ok i t ch e n"
  "call_ok i t ch e (n\<lparr>wakeups := w\<rparr>) = call_ok i t ch e n" "call_ok i t ch e (n\<lparr>currentSnapshotPath := p\<rparr>) = call_ok i t ch e n"
  "call_ok i t ch e (resetElectionDeadlineLocked ev n) = call_ok i t ch e n"
  by (simp_all add: call_ok_def entryAtLocked_def)

lemma sendAll_chan:
  "distinct (map snd ws) \<Longrightarrow> sendAll v ws cs ch = (if ch \<in> snd ` set ws then cs ch @ [v] else cs ch)"
proof (induction ws arbitrary: cs)
  case (Cons w ws)
  obtain i c where w: "w = (i, c)" by (cases w)
  have "sendAll v (w # ws) cs = sendAll v ws (cs(c := cs c @ [v]))" by (simp add: sendAll_def w)
  then show ?case using Cons w by (auto simp: rev_image_eqI)
qed (simp add: sendAll_def)

lemma abort_chans_ok: "chans_ok n \<Longrightarrow> chans_ok (abortPendingWaitersLocked n)"
  by (auto simp: chans_ok_def abortPendingWaitersLocked_def sendAll_chan lastLogIndexLocked_def split: if_splits)
    (meson leD)

lemma setRole_chans_ok: "chans_ok n \<Longrightarrow> r \<noteq> Leader \<Longrightarrow> chans_ok (setRoleLocked r n)"
proof -
  assume a: "chans_ok n" "r \<noteq> Leader"
  let ?n = "if role n = Leader then abortPendingWaitersLocked n else n"
  have "chans_ok ?n" "waiters ?n = []" using a abort_chans_ok by (auto simp: chans_ok_def abortPendingWaitersLocked_def)
  then have "chans_ok (?n\<lparr>role := r\<rparr>)" by (simp add: chans_ok_def lastLogIndexLocked_def)
  then show ?thesis using a(2) by (simp add: setRoleLocked_def Let_def)
qed

lemma setRole_call_ok: "chans_ok n \<Longrightarrow> call_ok i t ch e n \<Longrightarrow> r \<noteq> Leader \<Longrightarrow> call_ok i t ch e ((setRoleLocked r n)\<lparr>currentTerm := u\<rparr>)"
  by (auto simp: call_ok_def setRoleLocked_def abortPendingWaitersLocked_def Let_def sendAll_chan chans_ok_def)

lemma setRole_waiters: "chans_ok n \<Longrightarrow> r \<noteq> Leader \<Longrightarrow> waiters (setRoleLocked r n) = []"
  by (auto simp: setRoleLocked_def abortPendingWaitersLocked_def chans_ok_def Let_def)

lemma waiter_in: "gm_wf ws \<Longrightarrow> map_of ws i = Some ch \<longleftrightarrow> (i, ch) \<in> set ws"
  by (simp add: gm_wf_def)

lemma chan_unique: "distinct (map snd ws) \<Longrightarrow> (i, ch) \<in> set ws \<Longrightarrow> (j, ch) \<in> set ws \<Longrightarrow> i = j"
  by (induction ws) (auto simp: rev_image_eqI)

lemma entryAt_upd [simp]:
  "entryAtLocked (n\<lparr>lastApplied := a\<rparr>) j = entryAtLocked n j" "entryAtLocked (n\<lparr>smOps := ops\<rparr>) j = entryAtLocked n j"
  "entryAtLocked (n\<lparr>waiters := ws\<rparr>) j = entryAtLocked n j" "entryAtLocked (n\<lparr>chans := cs\<rparr>) j = entryAtLocked n j"
  by (simp_all add: entryAtLocked_def)

lemma gm_del_Nil [simp]: "gm_del i [] = []"
  by (simp add: gm_del_def)

lemma set_gm_del: "set (gm_del i m) = {p \<in> set m. fst p \<noteq> i}"
  by (auto simp: gm_del_def)

lemma distinct_snd_del: "distinct (map snd m) \<Longrightarrow> distinct (map snd (gm_del i m))"
  by (simp add: gm_del_def distinct_map_filter)

lemma notify_chans_ok:
  assumes "chans_ok n"
  shows "chans_ok (notifyWaiter i n)"
proof (cases "map_of (waiters n) i")
  case (Some ch)
  then have w: "(i, ch) \<in> set (waiters n)" by (rule map_of_SomeD)
  have n: "notifyWaiter i n = n\<lparr>chans := (chans n)(ch := chans n ch @ [Committed]), waiters := gm_del i (waiters n)\<rparr>"
    using Some by (simp add: notifyWaiter_def)
  have c: "ch < nextChan n" "chans n ch = []" using assms w by (auto simp: chans_ok_def)
  have "j = i" if "(j, ch) \<in> set (waiters n)" for j
    using chan_unique [OF _ that w] assms by (auto simp: chans_ok_def)
  then show ?thesis using assms c unfolding n
    by (auto simp: chans_ok_def lastLogIndexLocked_def set_gm_del distinct_snd_del)
qed (simp add: notifyWaiter_def assms)

lemma applyOne_ok:
  assumes "chans_ok n"
  shows "chans_ok (applyOne x n)"
  using notify_chans_ok [of "n\<lparr>smOps := smOps n @ [applyOp x]\<rparr>" "Index x"] assms by (simp add: applyOne_def applyOp_def)

text \<open>Applying an entry: the call waiting for it is told, and it is the entry the call proposed.\<close>

lemma applyOne_call:
  assumes "chans_ok n" "call_ok i t ch e n" "entryAtLocked n (lastApplied n + 1) = Some x" "Index e = i"
  shows "call_ok i t ch e (applyOne x (n\<lparr>lastApplied := lastApplied n + 1\<rparr>))"
proof -
  let ?ops = "smOps n @ [applyOp x]"
  have pos: "Index x = lastApplied n + 1"
    using assms(1,3) by (auto simp: chans_ok_def positional_def entryAt_iff lastLogIndexLocked_def)
  have nw: "applyOne x (n\<lparr>lastApplied := lastApplied n + 1\<rparr>) = notifyWaiter (lastApplied n + 1)
      (n\<lparr>lastApplied := lastApplied n + 1, smOps := ?ops\<rparr>)"
    by (simp add: applyOne_def applyOp_def pos)
  have wf: "gm_wf (waiters n)" "distinct (map snd (waiters n))" using assms(1) by (auto simp: chans_ok_def)
  show ?thesis
  proof (cases "(i, ch) \<in> set (waiters n) \<and> lastApplied n + 1 = i")
    case True
    then have at: "entryAtLocked n i = Some e" "map_of (waiters n) i = Some ch" and c: "ch < nextChan n"
      using assms(2) wf by (force simp: call_ok_def waiter_in)+
    have "ch \<notin> snd ` set (gm_del i (waiters n))" using chan_unique [OF wf(2)] True by (auto simp: set_gm_del)
    then show ?thesis using at c assms(3) True unfolding nw
      by (auto simp: notifyWaiter_def call_ok_def)
  next
    case False
    show ?thesis
    proof (cases "map_of (waiters n) (lastApplied n + 1)")
      case None
      then show ?thesis unfolding nw using assms(2) False by (auto simp: notifyWaiter_def call_ok_def)
    next
      case (Some c)
      then have m: "(lastApplied n + 1, c) \<in> set (waiters n)" by (rule map_of_SomeD)
      have cc: "c \<noteq> ch" using False m assms(2) chan_unique [OF wf(2)] by (auto simp: call_ok_def rev_image_eqI)
      show ?thesis using Some cc assms(2) False unfolding nw
        by (auto simp: notifyWaiter_def call_ok_def set_gm_del)
    qed
  qed
qed

lemma applyLoop_ok:
  assumes "chans_ok n" "Index e = i" "call_ok i t ch e n"
  shows "chans_ok (applyLoop n) \<and> call_ok i t ch e (applyLoop n)"
  using assms
proof (induction n rule: applyLoop.induct)
  case (1 n)
  let ?n1 = "n\<lparr>lastApplied := lastApplied n + 1\<rparr>"
  show ?case
  proof (cases "lastApplied n < commitIndex n")
    case True
    show ?thesis
    proof (cases "entryAtLocked ?n1 (lastApplied ?n1)")
      case None
      then have "entryAtLocked n (lastApplied n + 1) = None" by simp
      then have "call_ok i t ch e ?n1" using "1.prems"(3) by (cases "lastApplied n + 1 = i") (auto simp: call_ok_def)
      then show ?thesis using True None "1.prems"(1) by (subst (1 2) applyLoop.simps) simp
    next
      case (Some x)
      then have x: "entryAtLocked n (lastApplied n + 1) = Some x" by simp
      have "chans_ok (applyOne x ?n1)" using "1.prems"(1) by (intro applyOne_ok) simp
      moreover have "call_ok i t ch e (applyOne x ?n1)" using applyOne_call [OF "1.prems"(1,3) x "1.prems"(2)] .
      ultimately show ?thesis using "1.IH" [OF True refl Some] "1.prems"(2) True Some
        by (subst (1 2) applyLoop.simps) simp
    qed
  next
    case False
    then show ?thesis using "1.prems" by (subst (1 2) applyLoop.simps) simp
  qed
qed

text \<open>The channels, together with any set of calls that are followed.\<close>

definition local_ok :: "(uint64 \<times> uint64 \<times> nat \<times> LogEntry) set \<Rightarrow> node \<Rightarrow> bool" where
  "local_ok C n \<longleftrightarrow> chans_ok n \<and> (\<forall>i t ch e. (i, t, ch, e) \<in> C \<longrightarrow> Index e = i \<and> call_ok i t ch e n)"

lemma lo_upd [simp]:
  "local_ok C (n\<lparr>dir := d\<rparr>) = local_ok C n" "local_ok C (n\<lparr>votedFor := v\<rparr>) = local_ok C n"
  "local_ok C (n\<lparr>commitIndex := c\<rparr>) = local_ok C n"
  "local_ok C (n\<lparr>nextIndex := m\<rparr>) = local_ok C n" "local_ok C (n\<lparr>matchIndex := m\<rparr>) = local_ok C n"
  "local_ok C (n\<lparr>currentLeader := a\<rparr>) = local_ok C n" "local_ok C (n\<lparr>lastAppendEntriesAt := x\<rparr>) = local_ok C n"
  "local_ok C (n\<lparr>wakeups := w\<rparr>) = local_ok C n" "local_ok C (n\<lparr>currentSnapshotPath := p\<rparr>) = local_ok C n"
  "local_ok C (resetElectionDeadlineLocked ev n) = local_ok C n"
  by (simp_all add: local_ok_def)

lemma applyLoop_chans: "chans_ok n \<Longrightarrow> chans_ok (applyLoop n)"
proof (induction n rule: applyLoop.induct)
  case (1 n)
  then show ?case using applyOne_ok [of "n\<lparr>lastApplied := lastApplied n + 1\<rparr>"]
    by (subst applyLoop.simps) (auto simp: Let_def split: option.split)
qed

lemma lo_apply: "local_ok C n \<Longrightarrow> local_ok C (applyCommittedLocked n)"
proof -
  assume a: "local_ok C n"
  then have "local_ok C (applyLoop n)"
    using applyLoop_ok [of n] applyLoop_chans [of n] by (auto simp: local_ok_def)
  then show ?thesis by (simp add: applyCommittedLocked_def Let_def)
qed

lemma lo_setRole: "local_ok C n \<Longrightarrow> r \<noteq> Leader \<Longrightarrow> local_ok C ((setRoleLocked r n)\<lparr>currentTerm := u\<rparr>)"
  by (auto simp: local_ok_def setRole_chans_ok setRole_call_ok)

lemma same_term: "currentTerm m = u \<Longrightarrow> m\<lparr>currentTerm := u\<rparr> = (m :: node)"
  by (cases m) simp

lemma same_log: "n\<lparr>dir := d, log := log n\<rparr> = (n :: node)\<lparr>dir := d\<rparr>" "n\<lparr>dir := dir n, log := log n\<rparr> = n"
  by (cases n, simp)+

lemma dir_log: "n\<lparr>log := l, dir := d\<rparr> = (n :: node)\<lparr>dir := d, log := l\<rparr>"
  by (cases n) simp

lemma lo_setRole': "local_ok C n \<Longrightarrow> r \<noteq> Leader \<Longrightarrow> local_ok C (setRoleLocked r n)"
proof -
  assume "local_ok C n" "r \<noteq> Leader"
  from lo_setRole [OF this, of "currentTerm n"] show ?thesis by (simp add: same_term)
qed

lemma lo_persist: "local_ok C n \<Longrightarrow> local_ok C (snd (persistStateLocked flt n))"
  by (simp add: persistStateLocked_def split: prod.split)

lemma setRole_term: "setRoleLocked r (n\<lparr>currentTerm := u, votedFor := v\<rparr>) = (setRoleLocked r n)\<lparr>currentTerm := u, votedFor := v\<rparr>"
  by (simp add: setRoleLocked_def abortPendingWaitersLocked_def Let_def)

lemma lo_observe: "local_ok C n \<Longrightarrow> local_ok C (snd (snd (observeTermLocked ev t n)))"
  using lo_persist [OF lo_setRole [of C n Follower t], of "ioObserve ev"] lo_setRole [of C n Follower t]
  by (auto simp: observeTermLocked_def setRole_term persistStateLocked_def Let_def split: prod.split)

lemma lo_idle: "local_ok C n \<Longrightarrow> role n \<noteq> Leader \<Longrightarrow> positional (logOffset n) lg \<Longrightarrow> local_ok C (n\<lparr>log := lg\<rparr>)"
  by (auto simp: local_ok_def chans_ok_def call_ok_def)

lemma lo_candidate: "local_ok C n \<Longrightarrow> local_ok C (becomeLeaderLocked n)"
proof -
  assume a: "local_ok C n"
  have "local_ok C (n\<lparr>role := Leader\<rparr>)" if "role n = Candidate"
    using a that by (auto simp: local_ok_def chans_ok_def call_ok_def lastLogIndexLocked_def)
  then show ?thesis using a by (simp add: becomeLeaderLocked_def Let_def)
qed

lemma merge_result:
  assumes "positional (logOffset n) (log n)" "positional prev (map entryOfPb es)" "prev \<le> lastLogIndexLocked n"
  shows "\<exists>d lg. snd (mergeEntriesLocked ev prev es n) = n\<lparr>dir := d, log := lg\<rparr> \<and> positional (logOffset n) lg"
proof -
  define es' where "es' = drop (logOffset n - prev) es"
  define p where "p = prev - logOffset n"
  from mergeEntries_walk [OF assms(3), of es ev, folded es'_def p_def] obtain m where m:
    "p + m \<le> length (log n)" "m \<le> length es'"
    "mergeEntriesLocked ev prev es n =
      (case (if m < length es' \<and> p + m < length (log n) then truncateAt ev (logOffset n + (p + m) + 1) n else (None, n)) of
         (Some e, n1) \<Rightarrow> (Some e, n1)
       | (None, n1) \<Rightarrow> if drop m es' = [] then (None, n1) else appendToLog ev (map entryOfPb (drop m es')) n1)"
    unfolding Let_def by blast
  have tk: "positional (logOffset n) (take k (log n))" for k using assms(1) by (simp add: positional_def)
  have ap: "positional (logOffset n) (take (p + m) (log n) @ map entryOfPb (drop m es'))"
    unfolding positional_def
  proof (intro allI impI)
    fix k assume k: "k < length (take (p + m) (log n) @ map entryOfPb (drop m es'))"
    show "Index ((take (p + m) (log n) @ map entryOfPb (drop m es')) ! k) = logOffset n + k + 1"
    proof (cases "k < p + m")
      case True
      then show ?thesis using m(1) assms(1) by (simp add: nth_append positional_def)
    next
      case False
      let ?q = "logOffset n - prev + (k - p)"
      have q: "?q < length es" "(take (p + m) (log n) @ map entryOfPb (drop m es')) ! k = entryOfPb (es ! ?q)"
        using k False m(1,2) by (auto simp: nth_append es'_def)
      then have "Index (entryOfPb (es ! ?q)) = prev + ?q + 1" using assms(2) by (auto simp: positional_def)
      moreover have "prev + ?q = logOffset n + k" using False by (auto simp: p_def)
      ultimately show ?thesis using q(2) by simp
    qed
  qed
  show ?thesis
  proof (cases "m < length es' \<and> p + m < length (log n)")
    case True
    obtain r d where t: "TruncateLogFrom (ioTruncate ev) (logOffset n + (p + m) + 1) (dir n) = (r, d)" by fastforce
    show ?thesis
    proof (cases r)
      case None
      then have "truncateAt ev (logOffset n + (p + m) + 1) n = (None, n\<lparr>dir := d, log := take (p + m) (log n)\<rparr>)"
        using t by (simp add: truncateAt_def)
      then show ?thesis using True ap tk [of "p + m"] unfolding m(3)
        by (auto simp: appendToLog_def dir_log split: prod.split option.split)
    next
      case (Some e)
      then show ?thesis using True t assms(1) unfolding m(3)
        by (intro exI [of _ d] exI [of _ "log n"]) (simp add: truncateAt_def same_log)
    qed
  next
    case False
    then have full: "m < length es' \<Longrightarrow> take (p + m) (log n) = log n" using m(1) by simp
    obtain r d where a: "AppendLogEntries (ioAppend ev) (map entryOfPb (drop m es')) (dir n) = (r, d)" by fastforce
    consider "m = length es'" | "m < length es'" "r = None" | e where "m < length es'" "r = Some e" using m(2) by (cases r) (auto simp: le_less)
    then show ?thesis
    proof cases
      case 1
      then show ?thesis using assms(1) unfolding m(3) by (intro exI [of _ "dir n"] exI [of _ "log n"]) (simp add: same_log)
    next
      case 2
      then show ?thesis using False ap full a unfolding m(3) by (auto simp: appendToLog_def)
    next
      case 3
      then show ?thesis using False a assms(1) unfolding m(3)
        by (intro exI [of _ d] exI [of _ "log n"]) (simp add: appendToLog_def same_log)
    qed
  qed
qed

section \<open>The handlers keep the channels\<close>

lemma lo_accept:
  assumes "local_ok C n" "role n \<noteq> Leader" "req_ok req" "aePrevLogIndex req \<le> lastLogIndexLocked n"
  shows "local_ok C (snd (acceptAppend ev req n))"
proof -
  let ?n = "n\<lparr>lastAppendEntriesAt := Some (now ev)\<rparr>"
  have pos: "positional (logOffset ?n) (log ?n)" using assms(1) by (simp add: local_ok_def chans_ok_def)
  have "aePrevLogIndex req \<le> lastLogIndexLocked ?n" using assms(4) by (simp add: lastLogIndexLocked_def)
  from merge_result [OF pos _ this] assms(3) obtain d lg where
    m: "snd (mergeEntriesLocked ev (aePrevLogIndex req) (aeEntries req) ?n) = ?n\<lparr>dir := d, log := lg\<rparr>" "positional (logOffset n) lg"
    unfolding req_ok_def by fastforce
  have "local_ok C (?n\<lparr>dir := d, log := lg\<rparr>)" using m(2) assms(1,2) by (simp add: lo_idle)
  moreover obtain err n2 where n2: "(if aeEntries req = [] then (None, ?n)
      else mergeEntriesLocked ev (aePrevLogIndex req) (aeEntries req) ?n) = (err, n2)" by fastforce
  ultimately have "local_ok C n2" using m(1) assms(1) by (auto split: if_splits)
  then show ?thesis using lo_apply unfolding acceptAppend_def Let_def n2 by (cases err) simp_all
qed

lemma lo_appendAt:
  assumes "local_ok C n" "req_ok req"
  shows "local_ok C (snd (appendAtTerm ev req n))"
proof -
  let ?n = "resetElectionDeadlineLocked ev ((setRoleLocked Follower n)\<lparr>currentLeader := aeLeaderId req\<rparr>)"
  have ok: "local_ok C ?n" using lo_setRole' [OF assms(1), of Follower] by simp
  have "aePrevLogIndex req \<le> logOffset ?n \<Longrightarrow> aePrevLogIndex req \<le> lastLogIndexLocked ?n"
    "entryAtLocked ?n (aePrevLogIndex req) = Some x \<Longrightarrow> aePrevLogIndex req \<le> lastLogIndexLocked ?n" for x
    by (simp_all add: lastLogIndexLocked_def entryAt_iff)
  then show ?thesis using ok lo_accept [OF ok _ assms(2)] assms(1)
    by (auto simp: appendAtTerm_def appendAsFollower_def Let_def not_less split: option.split)
qed

lemma lo_append: "local_ok C n \<Longrightarrow> req_ok req \<Longrightarrow> local_ok C (snd (AppendEntries ev req n))"
proof -
  assume a: "local_ok C n" "req_ok req"
  obtain b err n1 where o: "observeTermLocked ev (aeTerm req) n = (b, err, n1)" by (metis prod_cases3)
  then have "local_ok C n1" using lo_observe [OF a(1), of ev "aeTerm req"] by simp
  then show ?thesis using o lo_appendAt [OF _ a(2)] a(1) by (cases err) (auto simp: AppendEntries_def)
qed

lemma lo_vote: "local_ok C n \<Longrightarrow> local_ok C (snd (RequestVote ev req n))"
proof -
  assume a: "local_ok C n"
  have g: "local_ok C m \<Longrightarrow> local_ok C (snd (grantVote ev req m))" for m
    by (auto simp: grantVote_def Let_def persistStateLocked_def split: prod.split option.split)
  obtain b err n1 where o: "observeTermLocked ev (rvTerm req) n = (b, err, n1)" by (metis prod_cases3)
  then have "local_ok C n1" using lo_observe [OF a, of ev "rvTerm req"] by simp
  then show ?thesis using o g a by (cases err) (auto simp: RequestVote_def)
qed

lemma lo_stand: "local_ok C n \<Longrightarrow> local_ok C (snd (startElection ev n))"
  using lo_setRole [of C n Candidate "u64 (currentTerm n + 1)"]
  by (auto simp: startElection_def persistStateLocked_def Let_def split: prod.split option.split)

lemma lo_advance: "local_ok C n \<Longrightarrow> local_ok C (advanceFrom N n)"
  by (induction N) (auto simp: lo_apply split: option.split)

lemma lo_sendReply: "local_ok C n \<Longrightarrow> local_ok C (snd (handleSendReply ev t r rep n))"
  by (auto simp: handleSendReply_def handleAppendEntriesReplyLocked_def maybeAdvanceCommitIndexLocked_def Let_def
      lo_observe lo_advance split: option.split)

text \<open>A leader's own append.\<close>

lemma entryAt_snoc: "entryAtLocked n j = Some e \<Longrightarrow> entryAtLocked (n\<lparr>log := log n @ [x]\<rparr>) j = Some e"
  by (auto simp: entryAt_iff lastLogIndexLocked_def nth_append)

lemma lo_appendLocal:
  assumes "local_ok C n" "appendLocalLocked ev cmd n = (i, t, err, n1)"
  shows "local_ok C n1"
    and "err = None \<Longrightarrow> i = lastLogIndexLocked n + 1 \<and> t = currentTerm n \<and> lastLogIndexLocked n1 = i \<and> waiters n1 = waiters n \<and>
      nextChan n1 = nextChan n \<and> chans n1 = chans n \<and> role n1 = role n \<and> currentTerm n1 = t \<and> lastApplied n1 = lastApplied n \<and>
      entryAtLocked n1 i = Some \<lparr>Term = t, Index = i, Command = cmd\<rparr>"
proof -
  let ?e = "\<lparr>Term = currentTerm n, Index = lastLogIndexLocked n + 1, Command = cmd\<rparr>"
  obtain r d where a: "AppendLogEntries (ioAppend ev) [?e] (dir n) = (r, d)" by fastforce
  have pos: "positional (logOffset n) (log n @ [?e])"
    using assms(1) by (auto simp: local_ok_def chans_ok_def positional_def nth_append less_Suc_eq lastLogIndexLocked_def)
  have "chans_ok (n\<lparr>log := log n @ [?e]\<rparr>)"
    using assms(1) pos by (auto simp: local_ok_def chans_ok_def lastLogIndexLocked_def le_Suc_eq)
  moreover have "call_ok j u ch e (n\<lparr>log := log n @ [?e]\<rparr>)" if "call_ok j u ch e n" for j u ch e
    using that entryAt_snoc [of n j e ?e] by (auto simp: call_ok_def)
  ultimately have grow: "local_ok C (n\<lparr>log := log n @ [?e]\<rparr>)" using assms(1) by (auto simp: local_ok_def)
  then show "local_ok C n1" using assms a
    by (cases r) (auto simp: appendLocalLocked_def appendToLog_def Let_def dir_log [symmetric])
  show "err = None \<Longrightarrow> i = lastLogIndexLocked n + 1 \<and> t = currentTerm n \<and> lastLogIndexLocked n1 = i \<and> waiters n1 = waiters n \<and>
      nextChan n1 = nextChan n \<and> chans n1 = chans n \<and> role n1 = role n \<and> currentTerm n1 = t \<and> lastApplied n1 = lastApplied n \<and>
      entryAtLocked n1 i = Some \<lparr>Term = t, Index = i, Command = cmd\<rparr>"
    using assms(2) a by (cases r) (auto simp: appendLocalLocked_def appendToLog_def Let_def lastLogIndexLocked_def entryAtLocked_def)
qed

lemma lo_register:
  assumes "local_ok C n" "i \<le> lastLogIndexLocked n" "\<forall>ch. (i, ch) \<notin> set (waiters n)" "role n = Leader"
  shows "local_ok C (n\<lparr>waiters := gm_set i (nextChan n) (waiters n), nextChan := nextChan n + 1\<rparr>)"
    and "set (gm_set i (nextChan n) (waiters n)) = insert (i, nextChan n) (set (waiters n))"
proof -
  have ap: "k \<notin> fst ` set m \<Longrightarrow> gm_set k v m = m @ [(k, v)]" for k :: uint64 and v :: nat and m
    by (induction k v m rule: gm_set.induct) auto
  have eq: "gm_set i (nextChan n) (waiters n) = waiters n @ [(i, nextChan n)]" using assms(3) by (intro ap) auto
  then show "set (gm_set i (nextChan n) (waiters n)) = insert (i, nextChan n) (set (waiters n))" by simp
  have fresh: "(j, nextChan n) \<notin> set (waiters n)" for j using assms(1) by (auto simp: local_ok_def chans_ok_def)
  have "chans_ok (n\<lparr>waiters := gm_set i (nextChan n) (waiters n), nextChan := nextChan n + 1\<rparr>)"
    using assms fresh by (auto simp: eq local_ok_def chans_ok_def gm_wf_def lastLogIndexLocked_def intro: less_SucI)
  moreover have "call_ok j u ch e (n\<lparr>waiters := gm_set i (nextChan n) (waiters n), nextChan := nextChan n + 1\<rparr>)"
    if "call_ok j u ch e n" for j u ch e
    using that fresh by (auto simp: call_ok_def eq entryAtLocked_def)
  ultimately show "local_ok C (n\<lparr>waiters := gm_set i (nextChan n) (waiters n), nextChan := nextChan n + 1\<rparr>)"
    using assms(1) by (auto simp: local_ok_def)
qed

lemma lo_begin:
  assumes "local_ok C n" "proposeBegin ev cmd n = (res, n')"
  shows "local_ok C n'"
    and "res = Inr (i, t, ch) \<Longrightarrow> lastApplied n \<le> lastLogIndexLocked n \<Longrightarrow>
      local_ok (insert (i, t, ch, \<lparr>Term = t, Index = i, Command = cmd\<rparr>) C) n'"
proof -
  obtain j u err n1 where a: "appendLocalLocked ev cmd n = (j, u, err, n1)" by (metis prod_cases4)
  note al = lo_appendLocal [OF assms(1) a]
  have no: "(lastLogIndexLocked n + 1, c) \<notin> set (waiters n)" for c
    using assms(1) by (fastforce simp: local_ok_def chans_ok_def)
  have reg: "local_ok C (n1\<lparr>waiters := gm_set j (nextChan n1) (waiters n1), nextChan := nextChan n1 + 1\<rparr>)"
    "set (gm_set j (nextChan n1) (waiters n1)) = insert (j, nextChan n1) (set (waiters n1))" if "err = None" "role n = Leader"
    using lo_register [OF al(1), of j] al(2) no that by simp_all
  show "local_ok C n'" using assms a al(1) reg(1)
    by (cases err) (auto simp: proposeBegin_def split: if_splits)
  assume r: "res = Inr (i, t, ch)" "lastApplied n \<le> lastLogIndexLocked n"
  then have e: "err = None" "role n = Leader" "j = i" "u = t" "ch = nextChan n1"
    "n' = n1\<lparr>waiters := gm_set i (nextChan n1) (waiters n1), nextChan := nextChan n1 + 1\<rparr>"
    using assms(2) a by (cases err; auto simp: proposeBegin_def split: if_splits)+
  have "call_ok i t ch \<lparr>Term = t, Index = i, Command = cmd\<rparr> n'"
    using al(2) [OF e(1)] reg(2) [OF e(1,2)] e r(2) by (auto simp: call_ok_def entryAtLocked_def)
  then show "local_ok (insert (i, t, ch, \<lparr>Term = t, Index = i, Command = cmd\<rparr>) C) n'"
    using reg(1) [OF e(1,2)] e by (auto simp: local_ok_def)
qed

lemma lo_receive: "local_ok C n \<Longrightarrow> local_ok C (snd (proposeReceive ch n))"
proof (cases "chans n ch")
  case (Cons v vs)
  assume a: "local_ok C n"
  then have "length (chans n ch) \<le> 1" using chansD(6) by (simp add: local_ok_def)
  then have vs: "vs = []" using Cons by simp
  have "chans_ok (n\<lparr>chans := (chans n)(ch := [])\<rparr>)" using a by (auto simp: local_ok_def chans_ok_def lastLogIndexLocked_def)
  moreover have "call_ok j u c e (n\<lparr>chans := (chans n)(ch := [])\<rparr>)" if "call_ok j u c e n" for j u c e
    using that by (auto simp: call_ok_def)
  ultimately show ?thesis using a Cons vs by (simp add: proposeReceive_def local_ok_def)
qed (simp add: proposeReceive_def)

lemma lo_cancel: "local_ok C n \<Longrightarrow> local_ok C (proposeCancel i n)"
proof -
  assume a: "local_ok C n"
  have "chans_ok (proposeCancel i n)"
    using a by (auto simp: local_ok_def chans_ok_def proposeCancel_def set_gm_del distinct_snd_del lastLogIndexLocked_def)
  moreover have "call_ok j u ch e (proposeCancel i n)" if c: "call_ok j u ch e n" for j u ch e
  proof -
    have k: "chans_ok n" using a by (simp add: local_ok_def)
    have sub: "snd ` set (gm_del i (waiters n)) \<subseteq> snd ` set (waiters n)" by (auto simp: set_gm_del)
    show ?thesis
    proof (cases "(j, ch) \<in> set (waiters n)")
      case True
      have "ch \<notin> snd ` set (gm_del j (waiters n))" using chan_unique [OF chansD(2) [OF k] True] by (auto simp: set_gm_del)
      then show ?thesis using c True chansD(4) [OF k True]
        by (cases "i = j") (simp_all add: call_ok_def proposeCancel_def set_gm_del rev_image_eqI)
    next
      case False
      then show ?thesis using c sub by (auto simp: call_ok_def proposeCancel_def)
    qed
  qed
  ultimately show ?thesis using a by (simp add: local_ok_def)
qed

lemma lo_compact:
  assumes "local_ok C n" "LastIncludedIndex f \<le> lastApplied n" "logOffset n < LastIncludedIndex f"
  shows "local_ok C (snd (compactLocked ev xs f n))"
proof -
  obtain err n' where c: "compactLocked ev xs f n = (err, n')" by fastforce
  have fr: "waiters n' = waiters n" "chans n' = chans n" "nextChan n' = nextChan n" "role n' = role n" "currentTerm n' = currentTerm n"
    "lastApplied n' = lastApplied n" "smOps n' = smOps n"
    using c by (auto simp: compactLocked_def replaceSnapshotFileLocked_def Let_def split: option.splits prod.splits sum.splits)
  have pos: "positional (logOffset n) (log n)" using assms(1) by (simp add: local_ok_def chans_ok_def)
  have "(err = None \<and> LastIncludedIndex f \<le> lastLogIndexLocked n) \<or> log n' = log n \<and> logOffset n' = logOffset n"
    using c by (auto simp: compactLocked_def Let_def entryAt_iff split: option.splits prod.splits sum.splits)
  then have "positional (logOffset n') (log n') \<and> lastLogIndexLocked n' = lastLogIndexLocked n \<and>
      (\<forall>j > LastIncludedIndex f. entryAtLocked n' j = entryAtLocked n j)"
  proof
    assume a: "err = None \<and> LastIncludedIndex f \<le> lastLogIndexLocked n"
    then have l: "log n' = anchorOf f # drop (LastIncludedIndex f - logOffset n) (log n)" "logOffset n' = LastIncludedIndex f - 1"
      using compact_log_cases(1) [OF c] by auto
    moreover have "positional (logOffset n') (log n')"
      unfolding l by (rule positional_anchor [OF pos assms(3)]) (simp add: anchorOf_def)
    ultimately show ?thesis using a assms(3)
      by (auto simp: lastLogIndexLocked_def entryAtLocked_def nth_Cons')
  qed (use pos in \<open>auto simp: lastLogIndexLocked_def entryAtLocked_def\<close>)
  then have l: "positional (logOffset n') (log n')" "lastLogIndexLocked n' = lastLogIndexLocked n"
    "LastIncludedIndex f < j \<Longrightarrow> entryAtLocked n' j = entryAtLocked n j" for j by auto
  have "chans_ok n'" using chans_ok_frame [of n n'] fr l(1,2) assms(1) by (simp add: local_ok_def)
  moreover have "call_ok j u ch e n'" if "call_ok j u ch e n" for j u ch e
    using that l(3) [of j] assms(2) by (auto simp: call_ok_def fr)
  ultimately show ?thesis using c assms(1) by (simp add: local_ok_def)
qed

lemma lo_step: "lstep n n' \<Longrightarrow> local_ok C n \<Longrightarrow> local_ok C n'"
proof (induction rule: lstep.induct)
  case (propose n ev cmd)
  obtain i t err n1 where a: "appendLocalLocked ev cmd n = (i, t, err, n1)" by (metis prod_cases4)
  then show ?case using lo_appendLocal(1) [OF propose a] propose by (cases err) (auto simp: Propose_def)
next
  case (proposeSync n ev cmd)
  then show ?case using lo_begin(1) [OF proposeSync surjective_pairing] by simp
next
  case (confirm n ev xs req)
  then show ?case using lo_compact by (auto simp: ConfirmCompaction_def Let_def split: option.split)
next
  case (compact n ev xs target fetched)
  then show ?case using lo_compact by (auto simp: pollCompact_def split: option.split)
qed (auto simp: lo_vote lo_append lo_stand lo_sendReply lo_receive lo_cancel selfElect_def handleVoteReply_def Let_def lo_observe
    lo_candidate followerReadReply_def split: option.split)

lemma lo_run: "lstep\<^sup>*\<^sup>* n n' \<Longrightarrow> local_ok C n \<Longrightarrow> local_ok C n'"
  by (induction rule: rtranclp_induct) (auto intro: lo_step)

text \<open>A node starts without waiting calls.\<close>

lemma lo_start:
  assumes "NewNode ev cfg d = Inr n" "positional (logOffset n) (log n)"
  shows "local_ok {} n"
  using assms by (auto simp: NewNode_def local_ok_def chans_ok_def Let_def split: sum.splits prod.splits)

section \<open>Wake-ups\<close>

text \<open>
  The contract between whoever advances a counter and the calls that park until it reaches a
  value: a step either leaves the counter and the channel alone, or advances the
  counter and replaces the channel.
\<close>

locale wake_contract =
  fixes step :: "'s \<Rightarrow> 's \<Rightarrow> bool"
    and progress :: "'s \<Rightarrow> nat"
    and generation :: "'s \<Rightarrow> nat"
  assumes wakes: "step s s' \<Longrightarrow> progress s' = progress s \<and> generation s' = generation s \<or>
      progress s < progress s' \<and> generation s < generation s'"
begin

lemma run_wakes: "step\<^sup>*\<^sup>* s s' \<Longrightarrow> progress s' = progress s \<and> generation s' = generation s \<or>
    progress s < progress s' \<and> generation s < generation s'"
proof (induction rule: rtranclp_induct)
  case (step s' s'')
  then show ?case using wakes [OF step(2)] by auto
qed simp

text \<open>No wake-up is lost: a call that parked below its target is woken by the time the target is reached.\<close>

lemma no_lost_wakeup: "step\<^sup>*\<^sup>* s s' \<Longrightarrow> progress s < target \<Longrightarrow> target \<le> progress s' \<Longrightarrow> generation s < generation s'"
  using run_wakes by fastforce

end

lemma apply_wakes: "lastApplied (applyCommittedLocked n) = lastApplied n \<and> wakeups (applyCommittedLocked n) = wakeups n \<or>
    lastApplied n < lastApplied (applyCommittedLocked n) \<and> wakeups n < wakeups (applyCommittedLocked n)"
proof -
  have loop: "wakeups (applyLoop n) = wakeups n \<and> lastApplied n \<le> lastApplied (applyLoop n) \<and>
      (lastApplied n < commitIndex n \<longrightarrow> lastApplied n < lastApplied (applyLoop n)) \<and>
      (\<not> lastApplied n < commitIndex n \<longrightarrow> applyLoop n = n)" for n
  proof (induction n rule: applyLoop.induct)
    case (1 n)
    show ?case
    proof (cases "lastApplied n < commitIndex n")
      case True
      let ?n1 = "n\<lparr>lastApplied := lastApplied n + 1\<rparr>"
      show ?thesis
      proof (cases "entryAtLocked ?n1 (lastApplied ?n1)")
        case None
        then show ?thesis using True by (subst (1 2 3 4) applyLoop.simps) simp
      next
        case (Some e)
        have "applyLoop n = applyLoop (applyOne e ?n1)" using True Some by (subst applyLoop.simps) simp
        then show ?thesis using "1.IH" [OF True refl Some] True by (auto simp: applyOne_def)
      qed
    next
      case False
      then show ?thesis by (subst (1 2 3 4) applyLoop.simps) simp
    qed
  qed
  show ?thesis using loop [of n] by (auto simp: applyCommittedLocked_def Let_def)
qed

definition wk :: "node \<Rightarrow> node \<Rightarrow> bool" where
  "wk n n' \<longleftrightarrow> lastApplied n' = lastApplied n \<and> wakeups n' = wakeups n \<or> lastApplied n < lastApplied n' \<and> wakeups n < wakeups n'"

lemma wk_same: "lastApplied n' = lastApplied n \<Longrightarrow> wakeups n' = wakeups n \<Longrightarrow> wk n n'"
  by (simp add: wk_def)

lemma wk_apply: "lastApplied m = lastApplied n \<Longrightarrow> wakeups m = wakeups n \<Longrightarrow> wk n (applyCommittedLocked m)"
  using apply_wakes [of m] by (simp add: wk_def)

lemma wk_frame [simp]:
  "lastApplied (snd (persistStateLocked flt n)) = lastApplied n" "wakeups (snd (persistStateLocked flt n)) = wakeups n"
  "lastApplied (snd (snd (observeTermLocked ev t n))) = lastApplied n" "wakeups (snd (snd (observeTermLocked ev t n))) = wakeups n"
  "lastApplied (snd (mergeEntriesLocked ev p es n)) = lastApplied n" "wakeups (snd (mergeEntriesLocked ev p es n)) = wakeups n"
  "lastApplied (snd (appendToLog ev es' n)) = lastApplied n" "wakeups (snd (appendToLog ev es' n)) = wakeups n"
  "lastApplied (becomeLeaderLocked n) = lastApplied n" "wakeups (becomeLeaderLocked n) = wakeups n"
  by (auto simp: persistStateLocked_def observeTermLocked_def mergeEntriesLocked_def truncateAt_def appendToLog_def
      becomeLeaderLocked_def Let_def split: prod.split option.split)

lemma wk_appendAt: "wk n (snd (appendAtTerm ev req n))"
proof -
  have accept: "wk n (snd (acceptAppend ev req m))" if "lastApplied m = lastApplied n" "wakeups m = wakeups n" for m
  proof -
    let ?m = "m\<lparr>lastAppendEntriesAt := Some (now ev)\<rparr>"
    obtain err m2 where m2: "(if aeEntries req = [] then (None, ?m)
        else mergeEntriesLocked ev (aePrevLogIndex req) (aeEntries req) ?m) = (err, m2)" by fastforce
    have "lastApplied m2 = lastApplied n" "wakeups m2 = wakeups n"
      using arg_cong [OF m2, of "\<lambda>p. lastApplied (snd p)"] arg_cong [OF m2, of "\<lambda>p. wakeups (snd p)"] that
      by (simp_all split: if_splits)
    then show ?thesis unfolding acceptAppend_def Let_def m2 by (cases err) (simp_all add: wk_apply wk_same)
  qed
  show ?thesis by (simp add: appendAtTerm_def appendAsFollower_def Let_def accept wk_same split: option.split)
qed

lemma wk_step: "lstep n n' \<Longrightarrow> wk n n'"
proof (induction rule: lstep.induct)
  case (vote n ev req)
  then show ?case
    by (auto simp: RequestVote_def observeTermLocked_def grantVote_def persistStateLocked_def Let_def intro!: wk_same
        split: prod.split option.split)
next
  case (append req n ev)
  obtain b err n1 where o: "observeTermLocked ev (aeTerm req) n = (b, err, n1)" by (metis prod_cases3)
  then have "lastApplied n1 = lastApplied n" "wakeups n1 = wakeups n" using wk_frame(3,4) [of ev "aeTerm req" n] by simp_all
  then show ?case using o wk_appendAt [of n1 ev req] wk_appendAt [of n ev req]
    by (cases err) (auto simp: AppendEntries_def wk_def)
next
  case (sendReply n ev t r rep)
  have adv: "wk n (advanceFrom N m)" if "lastApplied m = lastApplied n" "wakeups m = wakeups n" for N m
    using that by (induction N) (auto simp: wk_apply wk_same split: option.split)
  show ?case
    by (simp add: handleSendReply_def handleAppendEntriesReplyLocked_def maybeAdvanceCommitIndexLocked_def Let_def
        adv wk_same split: option.split)
next
  case (propose n ev cmd)
  show ?case by (auto simp: Propose_def appendLocalLocked_def appendToLog_def Let_def intro!: wk_same split: prod.split option.split)
next
  case (proposeSync n ev cmd)
  show ?case by (auto simp: proposeBegin_def appendLocalLocked_def appendToLog_def Let_def intro!: wk_same split: prod.split option.split)
next
  case (confirm n ev xs req)
  show ?case by (auto simp: ConfirmCompaction_def compactLocked_def Let_def intro!: wk_same split: option.split prod.split sum.split)
next
  case (compact n ev xs target fetched)
  show ?case by (auto simp: pollCompact_def compactLocked_def Let_def intro!: wk_same split: option.split prod.split sum.split)
qed (auto simp: startElection_def persistStateLocked_def selfElect_def handleVoteReply_def Let_def proposeReceive_def
    proposeCancel_def followerReadReply_def intro!: wk_same split: list.split option.split prod.split)

interpretation wake: wake_contract lstep lastApplied wakeups
  by unfold_locales (auto dest: wk_step simp: wk_def)

section \<open>Registrations\<close>

text \<open>No handler but \<open>ProposeSync\<close> adds a registration, and it uses a channel that is new.\<close>

definition wsub :: "node \<Rightarrow> node \<Rightarrow> bool" where
  "wsub n n' \<longleftrightarrow> set (waiters n') \<subseteq> set (waiters n) \<and> nextChan n' = nextChan n"

lemma wsub_refl [simp]: "wsub n n"
  by (simp add: wsub_def)

lemma wsub_trans: "wsub n m \<Longrightarrow> wsub m k \<Longrightarrow> wsub n k"
  by (auto simp: wsub_def)

lemma wsub_same: "waiters n' = waiters n \<Longrightarrow> nextChan n' = nextChan n \<Longrightarrow> wsub n n'"
  by (simp add: wsub_def)

lemma wsub_role: "wsub n (setRoleLocked r n)"
  by (auto simp: wsub_def setRoleLocked_def abortPendingWaitersLocked_def Let_def)

lemma wsub_apply: "wsub n (applyCommittedLocked n)"
proof -
  have "wsub n (applyLoop n)" for n
  proof (induction n rule: applyLoop.induct)
    case (1 n)
    have one: "wsub n (applyOne x (n\<lparr>lastApplied := lastApplied n + 1\<rparr>))" for x
      by (auto simp: wsub_def applyOne_def notifyWaiter_def set_gm_del split: option.split)
    have "wsub n (n\<lparr>lastApplied := lastApplied n + 1\<rparr>)" by (simp add: wsub_def)
    moreover have "wsub n (applyLoop (applyOne x (n\<lparr>lastApplied := lastApplied n + 1\<rparr>)))"
      if "lastApplied n < commitIndex n" "entryAtLocked (n\<lparr>lastApplied := lastApplied n + 1\<rparr>) (lastApplied n + 1) = Some x" for x
      using wsub_trans [OF one "1.IH"] that by simp
    ultimately show ?case by (subst applyLoop.simps) (simp add: Let_def split: option.split)
  qed
  then show ?thesis by (simp add: applyCommittedLocked_def wsub_def Let_def)
qed

lemma wsub_frame [simp]:
  "waiters (snd (persistStateLocked flt n)) = waiters n" "nextChan (snd (persistStateLocked flt n)) = nextChan n"
  "waiters (snd (mergeEntriesLocked ev p es n)) = waiters n" "nextChan (snd (mergeEntriesLocked ev p es n)) = nextChan n"
  "waiters (snd (appendToLog ev es' n)) = waiters n" "nextChan (snd (appendToLog ev es' n)) = nextChan n"
  by (auto simp: persistStateLocked_def mergeEntriesLocked_def truncateAt_def appendToLog_def Let_def split: prod.split option.split)

lemma wsub_observe: "wsub n (snd (snd (observeTermLocked ev t n)))"
proof -
  have "wsub n ((setRoleLocked Follower (n\<lparr>currentTerm := t, votedFor := ''''\<rparr>)))"
    using wsub_role [of "n\<lparr>currentTerm := t, votedFor := ''''\<rparr>"] by (simp add: wsub_def)
  then show ?thesis by (auto simp: observeTermLocked_def wsub_def Let_def persistStateLocked_def split: prod.split option.split)
qed

lemma wsub_appendAt: "wsub n (snd (appendAtTerm ev req n))"
proof -
  have accept: "wsub n (snd (acceptAppend ev req m))" if "wsub n m" for m
  proof -
    let ?m = "m\<lparr>lastAppendEntriesAt := Some (now ev)\<rparr>"
    obtain err m2 where m2: "(if aeEntries req = [] then (None, ?m)
        else mergeEntriesLocked ev (aePrevLogIndex req) (aeEntries req) ?m) = (err, m2)" by fastforce
    have "wsub n m2"
      using arg_cong [OF m2, of "\<lambda>p. waiters (snd p)"] arg_cong [OF m2, of "\<lambda>p. nextChan (snd p)"] that
      by (simp add: wsub_def split: if_splits)
    moreover have "wsub m2 (applyCommittedLocked (m2\<lparr>commitIndex := c\<rparr>))" for c
      using wsub_apply [of "m2\<lparr>commitIndex := c\<rparr>"] by (simp add: wsub_def)
    ultimately show ?thesis unfolding acceptAppend_def Let_def m2 by (cases err) (auto intro: wsub_trans)
  qed
  have "wsub n ((setRoleLocked r n)\<lparr>currentLeader := a\<rparr>)" for r a using wsub_role [of n r] by (simp add: wsub_def)
  then show ?thesis using wsub_role [of n] accept
    by (auto simp: appendAtTerm_def appendAsFollower_def Let_def wsub_def resetElectionDeadlineLocked_def split: option.split)
qed

lemma wsub_step: "lstep n n' \<Longrightarrow> wsub n n' \<or> nextChan n' = nextChan n + 1 \<and> set (waiters n') \<subseteq> insert (lastLogIndexLocked n + 1, nextChan n) (set (waiters n))"
proof (induction rule: lstep.induct)
  case (vote n ev req)
  have "wsub m (snd (grantVote ev req m))" for m
    by (auto simp: grantVote_def persistStateLocked_def Let_def intro!: wsub_same split: prod.split option.split)
  then show ?case using wsub_observe [of n ev "rvTerm req"]
    by (auto simp: RequestVote_def intro: wsub_trans split: prod.split option.split)
next
  case (append req n ev)
  have "wsub n (snd (AppendEntries ev req n))"
    using wsub_observe [of n ev "aeTerm req"] wsub_appendAt
    by (auto simp: AppendEntries_def intro: wsub_trans split: prod.split option.split)
  then show ?case ..
next
  case (sendReply n ev t r rep)
  have adv: "wsub n (advanceFrom N m)" if "wsub n m" for N m
  proof -
    have "wsub n (applyCommittedLocked (m\<lparr>commitIndex := c\<rparr>))" for c
      using wsub_apply [of "m\<lparr>commitIndex := c\<rparr>"] that by (auto simp: wsub_def)
    then show ?thesis using that by (induction N) (auto split: option.split)
  qed
  have "wsub n (snd (handleSendReply ev t r rep n))"
    using wsub_observe [of n ev] by (auto simp: handleSendReply_def handleAppendEntriesReplyLocked_def maybeAdvanceCommitIndexLocked_def Let_def
        intro!: adv wsub_same split: option.split)
  then show ?case ..
next
  case (propose n ev cmd)
  show ?case by (auto simp: Propose_def appendLocalLocked_def appendToLog_def Let_def intro!: wsub_same split: prod.split option.split)
next
  case (proposeSync n ev cmd)
  have "set (gm_set i c ws) \<subseteq> insert (i, c) (set ws)" for i c and ws :: "(uint64, nat) gomap"
    by (induction ws) (auto split: if_splits)
  then show ?case by (auto simp: proposeBegin_def appendLocalLocked_def appendToLog_def Let_def wsub_def split: prod.split option.split)
next
  case (confirm n ev xs req)
  show ?case by (auto simp: ConfirmCompaction_def compactLocked_def Let_def replaceSnapshotFileLocked_def intro!: wsub_same split: option.split prod.split sum.split)
next
  case (compact n ev xs target fetched)
  show ?case by (auto simp: pollCompact_def compactLocked_def Let_def replaceSnapshotFileLocked_def intro!: wsub_same split: option.split prod.split sum.split)
next
  case (stand n ev)
  have "wsub n (snd (startElection ev n))"
    using wsub_role [of n Candidate]
    by (auto simp: startElection_def persistStateLocked_def resetElectionDeadlineLocked_def wsub_def Let_def split: option.split prod.split)
  then show ?case ..
next
  case (voteReply n ev reply el)
  have "wsub n (becomeLeaderLocked n)"
    using wsub_role [of n Leader] by (auto simp: becomeLeaderLocked_def wsub_def Let_def)
  then show ?case using wsub_observe [of n ev "rvrTerm reply"] by (auto simp: handleVoteReply_def Let_def)
next
  case (self n el)
  have "wsub n (becomeLeaderLocked n)"
    using wsub_role [of n Leader] by (auto simp: becomeLeaderLocked_def wsub_def Let_def)
  then show ?case by (auto simp: selfElect_def)
next
  case (cancel n i)
  show ?case by (auto simp: proposeCancel_def wsub_def set_gm_del)
qed (auto simp: proposeReceive_def followerReadReply_def intro!: wsub_same split: list.split option.split)

text \<open>A channel that is not registered any more never is again.\<close>

lemma retired:
  assumes "lstep\<^sup>*\<^sup>* n n'" "ch < nextChan n" "ch \<notin> snd ` set (waiters n)"
  shows "ch < nextChan n' \<and> ch \<notin> snd ` set (waiters n')"
  using assms(1)
proof (induction rule: rtranclp_induct)
  case (step m k)
  from wsub_step [OF step(2)] step.IH show ?case by (auto simp: wsub_def)
qed (use assms(2,3) in simp)

section \<open>Properties\<close>

text \<open>A node that leads a term, a call it has accepted, and the node after the call's entry is committed.\<close>

definition demoHead :: node where
  "demoHead = demoReplica\<lparr>role := Leader, nextIndex := [(''b:2'', 4), (''c:3'', 4)], matchIndex := [(''b:2'', 3), (''c:3'', 3)]\<rparr>"

definition demoCall :: node where
  "demoCall = snd (proposeBegin calm [9] demoHead)"

definition demoSent :: outgoingAppendEntries where
  "demoSent = buildRequest demoCall ''b:2''"

definition demoDone :: node where
  "demoDone = snd (handleSendReply calm 1 demoSent
     (Some \<lparr>aerTerm = 1, aerSuccess = True, aerConflictIndex = 0, aerConflictTerm = 0\<rparr>) demoCall)"

abbreviation "nine \<equiv> \<lparr>Term = 1, Index = 4, Command = [9]\<rparr>"

lemma demoCall_eq: "proposeBegin calm [9] demoHead = (Inr (4, 1, 0), demoCall)"
  "demoCall = demoHead\<lparr>dir := demoDir\<lparr>logFile := Some (records demoLog @ records [nine])\<rparr>, log := demoLog @ [nine],
     waiters := [(4, 0)], nextChan := 1\<rparr>"
  by (simp_all add: demoCall_def proposeBegin_def demoHead_def appendLocalLocked_def appendToLog_def AppendLogEntries_def calm_def
      demoReplica_eq lastLogIndexLocked_def Let_def logBytes_def demoDir_def) (simp_all add: demoLog_def numeral_eq_Suc)

lemma quorum_three: "quorumSize (Suc (Suc (Suc 0))) = Suc (Suc 0)"
  by (simp add: quorumSize_def)

lemma demoSent_eq: "oaPeer demoSent = ''b:2''" "oaPrevIndex demoSent = 3" "oaNumEntries demoSent = 1"
  by (simp_all add: demoSent_def buildRequest_def demoCall_eq demoHead_def demoReplica_eq demoLog_def lastLogIndexLocked_def gm_get_def
      entryAtLocked_def Let_def)

lemma demoDone_eq: "commitIndex demoDone = 4" "lastApplied demoDone = 4" "wakeups demoDone = 1" "chans demoDone 0 = [Committed]"
  "smOps demoDone = [applyOp nine]"
proof -
  let ?m = "demoCall\<lparr>matchIndex := [(''b:2'', 4), (''c:3'', 3)], nextIndex := [(''b:2'', 5), (''c:3'', 4)], commitIndex := 4\<rparr>"
  have a: "demoDone = applyCommittedLocked ?m"
    by (simp add: demoDone_def handleSendReply_def handleAppendEntriesReplyLocked_def maybeAdvanceCommitIndexLocked_def demoSent_eq
        demoCall_eq(2) demoHead_def demoReplica_eq demoLog_def gm_get_def lastLogIndexLocked_def entryAtLocked_def quorum_three
        Let_def numeral_eq_Suc)
  have "applyCommittedLocked ?m = ?m\<lparr>lastApplied := 4, smOps := [applyOp nine], waiters := [],
      chans := (\<lambda>_. [])(0 := [Committed]), wakeups := 1\<rparr>"
    by (simp add: applyCommittedLocked_def applyLoop.simps applyOne_def notifyWaiter_def applyOp_def gm_del_def Let_def
        demoCall_eq(2) demoHead_def demoReplica_eq demoLog_def entryAtLocked_def)
  then show "commitIndex demoDone = 4" "lastApplied demoDone = 4" "wakeups demoDone = 1" "chans demoDone 0 = [Committed]"
    "smOps demoDone = [applyOp nine]" unfolding a by simp_all
qed

lemma demo_local: "local_ok {} demoHead" "lstep demoHead demoCall" "lstep demoCall demoDone"
proof -
  have "positional 0 demoLog" using demoReplica_wf by (simp add: node_wf_def demoReplica_eq)
  then show "local_ok {} demoHead" by (simp add: local_ok_def chans_ok_def demoHead_def demoReplica_eq)
  show "lstep demoHead demoCall" unfolding demoCall_def by (rule lstep.proposeSync)
  show "lstep demoCall demoDone" unfolding demoDone_def by (rule lstep.sendReply)
qed

text \<open>
  The term of a node never goes back, and the vote it has cast in a term never changes, through any
  sequence of handlers and whichever of the writes to disk fail.
\<close>

theorem term_vote_monotone:
  assumes "lstep\<^sup>*\<^sup>* n n'"
  shows "currentTerm n \<le> currentTerm n' \<and>
    (currentTerm n' = currentTerm n \<and> votedFor n \<noteq> '''' \<longrightarrow> votedFor n' = votedFor n)"
proof -
  have "tv_le n n'" using assms by (induction rule: rtranclp_induct) (auto intro: tv_trans tv_step)
  then show ?thesis by (auto simp: tv_le_def)
qed

theorem term_vote_monotone_witness:
  "lstep\<^sup>*\<^sup>* demoHead demoDone \<and> votedFor demoHead = ''a'' \<and> currentTerm demoHead \<le> currentTerm demoDone"
proof -
  have "lstep\<^sup>*\<^sup>* demoHead demoDone" using demo_local by (meson r_into_rtranclp rtranclp_trans)
  with term_vote_monotone [OF this] show ?thesis by (simp add: demoHead_def demoReplica_eq)
qed

lemma notice_applied:
  assumes "local_ok {} n" "lastApplied n \<le> lastLogIndexLocked n" "proposeBegin ev cmd n = (Inr (i, t, ch), n1)"
    "lstep\<^sup>*\<^sup>* n1 n'" "Committed \<in> set (chans n' ch)"
  shows "ApplyFn \<lparr>msgIndex = i, msgTerm = t, msgCommand = cmd\<rparr> \<in> set (smOps n')"
proof -
  let ?e = "\<lparr>Term = t, Index = i, Command = cmd\<rparr>"
  have "local_ok {(i, t, ch, ?e)} n1" using lo_begin(2) [OF assms(1,3) refl assms(2)] .
  from lo_run [OF assms(4) this] have ok: "chans_ok n'" "call_ok i t ch ?e n'" by (auto simp: local_ok_def)
  have "chans n' ch \<noteq> []" using assms(5) by auto
  with ok chansD(4) [OF ok(1)] assms(5) show ?thesis by (auto simp: call_ok_def applyOp_def)
qed

text \<open>
  A call of \<open>ProposeSync\<close> is told \<open>Committed\<close> only after its own entry, with its term, index and
  command, has been handed to the state machine, whatever happens to the node in between.
\<close>

theorem committed_notice_true:
  assumes "local_ok {} n" "lastApplied n \<le> lastLogIndexLocked n" "proposeBegin ev cmd n = (Inr (i, t, ch), n1)"
    "lstep\<^sup>*\<^sup>* n1 n'" "Committed \<in> set (chans n' ch)"
  shows "ApplyFn \<lparr>msgIndex = i, msgTerm = t, msgCommand = cmd\<rparr> \<in> set (smOps n')"
  by (rule notice_applied [OF assms])

theorem committed_notice_true_witness:
  "proposeBegin calm [9] demoHead = (Inr (4, 1, 0), demoCall) \<and> chans demoDone 0 = [Committed] \<and>
   ApplyFn \<lparr>msgIndex = 4, msgTerm = 1, msgCommand = [9]\<rparr> \<in> set (smOps demoDone)"
proof -
  have "lastApplied demoHead \<le> lastLogIndexLocked demoHead"
    by (simp add: demoHead_def demoReplica_eq lastLogIndexLocked_def demoLog_def)
  from committed_notice_true [OF demo_local(1) this demoCall_eq(1) r_into_rtranclp, OF demo_local(3)] demoDone_eq(4) demoCall_eq(1)
  show ?thesis by simp
qed

text \<open>
  C23: No send to a waiting call blocks. In every state a node can get into, the channel of a registered call
  is empty, so that the next send finds room in its one-place buffer, no channel ever holds more
  than one value, and only a leader has registered calls.
\<close>

theorem sends_never_block:
  assumes "NewNode ev cfg d = Inr n" "positional (logOffset n) (log n)" "lstep\<^sup>*\<^sup>* n n'"
  shows "((i, ch) \<in> set (waiters n') \<longrightarrow> chans n' ch = [] \<and> role n' = Leader) \<and> length (chans n' ch) \<le> 1"
proof -
  have ok: "chans_ok n'" using lo_run [OF assms(3) lo_start [OF assms(1,2)]] by (simp add: local_ok_def)
  show ?thesis using chansD(4,6) [OF ok] chansD(8) [OF ok] by (metis list.set(1) emptyE)
qed

definition demoFresh :: node where
  "demoFresh = projr (NewNode calm demoCfg demoDir)"

lemma demoFresh_eq: "NewNode calm demoCfg demoDir = Inr demoFresh"
  "demoFresh = demoReplica\<lparr>commitIndex := 0, lastApplied := 0\<rparr>"
proof -
  have b: "baseline None demoLog = (demoLog, 0, 0, '''')"
    by (simp add: baseline_def fallbackBaseline_def demoLog_def demoEntry_def sub64_le)
  have r: "ReadAllLogEntries NoFault demoDir = (Inr demoLog, demoDir)" "LoadState NoFault demoDir = Inr (1, ''a'')"
    using ReadAll_stored [OF stored_demoDir, of NoFault] by (simp_all add: demoDir_def LoadState_def)
  show "NewNode calm demoCfg demoDir = Inr demoFresh" using b r
    by (simp add: demoFresh_def NewNode_def calm_def demoCfg_def)
  show "demoFresh = demoReplica\<lparr>commitIndex := 0, lastApplied := 0\<rparr>"
    using b r by (simp add: demoFresh_def demoReplica_def NewNode_def calm_def demoCfg_def resetElectionDeadlineLocked_def)
qed

theorem sends_never_block_witness:
  "\<exists>n n'. NewNode calm demoCfg demoDir = Inr n \<and> lstep\<^sup>*\<^sup>* n n' \<and> waiters n' = [(4, 0)] \<and> chans n' 0 = [] \<and> role n' = Leader"
proof -
  define n1 where "n1 = snd (startElection calm demoFresh)"
  define n2 where "n2 = snd (handleVoteReply calm \<lparr>rvrTerm = 2, rvrVoteGranted = True\<rparr> (the (fst (startElection calm demoFresh))) n1)"
  define n3 where "n3 = snd (proposeBegin calm [9] n2)"
  have f: "role demoFresh = Follower" "currentTerm demoFresh = 1" "logOffset demoFresh = 0" "log demoFresh = demoLog" "waiters demoFresh = []"
    "nextChan demoFresh = 0" "peers demoFresh = [''b:2'', ''c:3'']"
    by (simp_all add: demoFresh_eq(2) demoReplica_eq)
  have n1: "role n1 = Candidate" "currentTerm n1 = 2" "log n1 = demoLog" "logOffset n1 = 0" "waiters n1 = []" "nextChan n1 = 0"
    and e: "elTerm (the (fst (startElection calm demoFresh))) = 2" "elQuorum (the (fst (startElection calm demoFresh))) = 2"
     "elVotes (the (fst (startElection calm demoFresh))) = 1"
    by (simp_all add: n1_def startElection_def f setRoleLocked_def persistStateLocked_ok calm_def resetElectionDeadlineLocked_def quorumSize_def u64_def Let_def)
  have n2: "role n2 = Leader" "log n2 = demoLog" "logOffset n2 = 0" "waiters n2 = []" "nextChan n2 = 0"
    by (simp_all add: n2_def handleVoteReply_def n1 e becomeLeaderLocked_def setRoleLocked_def Let_def)
  have l: "length demoLog = 3" by (simp add: demoLog_def)
  have n3: "waiters n3 = [(4, 0)]"
    by (simp add: n3_def proposeBegin_def n2 appendLocalLocked_def appendToLog_def AppendLogEntries_def calm_def lastLogIndexLocked_def l Let_def)
  have "lstep demoFresh n1" unfolding n1_def by (rule lstep.stand) (simp add: f)
  moreover have "lstep n1 n2" unfolding n2_def by (rule lstep.voteReply)
  moreover have "lstep n2 n3" unfolding n3_def by (rule lstep.proposeSync)
  ultimately have r: "lstep\<^sup>*\<^sup>* demoFresh n3" by (meson converse_rtranclp_into_rtranclp rtranclp.rtrancl_refl)
  have p: "positional (logOffset demoFresh) (log demoFresh)" using demoReplica_wf by (simp add: node_wf_def demoReplica_eq f)
  from sends_never_block [OF demoFresh_eq(1) p r, of 4 0] n3 r demoFresh_eq(1) show ?thesis
    by (intro exI [of _ demoFresh] exI [of _ n3]) simp
qed

text \<open>
  All critical sections of the process: those of \<open>lstep\<close> and the parts of \<open>catchUpFromSnapshot\<close>, of which the last advances
  \<open>lastApplied\<close> without closing the channel.
\<close>

inductive nstep :: "node \<Rightarrow> node \<Rightarrow> bool" where
  handler: "lstep n n' \<Longrightarrow> nstep n n'"
| catchUpWrites: "nstep n (snd (catchUpWrite ev xs file n))"
| catchUpRewrites: "nstep n (snd (catchUpRewrite ev file n))"
| catchUpRestores: "nstep n (catchUpRestore file n)"
| catchUpAdopts: "nstep n (catchUpAdopt ev newPath file n)"

lemma nstep_wakes:
  assumes "nstep n n'"
  shows "wk n n' \<or> (\<exists>ev newPath file. n' = catchUpAdopt ev newPath file n \<and> lastApplied n < LastIncludedIndex file \<and>
    lastApplied n' = LastIncludedIndex file \<and> wakeups n' = wakeups n)"
  using assms
proof cases
  case handler
  then show ?thesis using wk_step by blast
next
  case (catchUpWrites ev xs f)
  have "wk n n'" unfolding catchUpWrites catchUpWrite_def by (rule wk_same) (simp_all split: sum.split prod.split)
  then show ?thesis ..
next
  case (catchUpRewrites ev f)
  have "wk n n'" unfolding catchUpRewrites catchUpRewrite_def by (rule wk_same) (simp_all split: option.split prod.split)
  then show ?thesis ..
next
  case (catchUpRestores f)
  have "wk n n'" unfolding catchUpRestores catchUpRestore_def by (rule wk_same) simp_all
  then show ?thesis ..
next
  case (catchUpAdopts ev newPath f)
  have "lastApplied n' = (if lastApplied n < LastIncludedIndex f then LastIncludedIndex f else lastApplied n)" "wakeups n' = wakeups n"
    unfolding catchUpAdopts by (simp_all add: catchUpAdopt_def replaceSnapshotFileLocked_def Let_def)
  with catchUpAdopts show ?thesis by (cases "lastApplied n < LastIncludedIndex f") (auto intro: wk_same)
qed

text \<open>A catch-up that takes the node from below \<open>target\<close> to it, while the channel \<open>ch\<close> is the current one.\<close>

definition overtaken :: "uint64 \<Rightarrow> nat \<Rightarrow> node \<Rightarrow> node \<Rightarrow> bool" where
  "overtaken target ch n n' \<longleftrightarrow> (\<exists>m ev newPath file. nstep\<^sup>*\<^sup>* n m \<and> waitTurn target m = Some ch \<and> target \<le> LastIncludedIndex file \<and>
     nstep\<^sup>*\<^sup>* (catchUpAdopt ev newPath file m) n')"

lemma parked_run:
  assumes "nstep\<^sup>*\<^sup>* n n'" "lastApplied n < target"
  shows "wakeups n \<le> wakeups n' \<and> (target \<le> lastApplied n' \<longrightarrow> wakeups n < wakeups n' \<or> overtaken target (wakeups n) n n')"
  using assms(1)
proof (induction rule: rtranclp_induct)
  case (step m k)
  have ext: "overtaken target ch n m \<Longrightarrow> overtaken target ch n k" for ch
    using step(2) unfolding overtaken_def by (meson rtranclp.rtrancl_into_rtrancl)
  from nstep_wakes [OF step(2)] show ?case
  proof
    assume w: "wk m k"
    then show ?thesis using step.IH ext [of "wakeups n"] by (auto simp: wk_def)
  next
    assume "\<exists>ev newPath file. k = catchUpAdopt ev newPath file m \<and> lastApplied m < LastIncludedIndex file \<and>
      lastApplied k = LastIncludedIndex file \<and> wakeups k = wakeups m"
    then obtain ev newPath f where k: "k = catchUpAdopt ev newPath f m" "lastApplied k = LastIncludedIndex f" "wakeups k = wakeups m" by blast
    have "overtaken target (wakeups n) n k" if "target \<le> lastApplied k" "lastApplied m < target" "wakeups m = wakeups n"
      unfolding overtaken_def using that step(1) k by (intro exI [of _ m] exI [of _ ev] exI [of _ newPath] exI [of _ f]) (auto simp: waitTurn_def)
    then show ?thesis using step.IH ext [of "wakeups n"] k(3) by (cases "target \<le> lastApplied m"; cases "wakeups m = wakeups n") auto
  qed
qed (use assms(2) in simp)



end
