(* ===== verification/Raft_Handlers.thy ===== *)
theory Raft_Handlers
  imports Raft_Local Raft_Safety
begin

text \<open>
  Properties of single operations of the consensus core and of short exchanges between two nodes: merging
  entries, applying and committing, restarting, the election timer, the repair of a follower's log, and the
  behaviour when a write to \<open>state.json\<close> fails.
\<close>

section \<open>Merging entries\<close>

text \<open>
  C20: \<open>mergeEntriesLocked\<close> computes the reference merge: the log up to the previous entry, then the entries
  already held as long as their terms agree, then the rest of the request, and the file on disk holds
  the same list. Entries below the compaction point are ignored.
\<close>

theorem merge_is_reference:
  assumes "healthy ev" "stored (dir n) (log n)" "positional (logOffset n) (log n)" "prev \<le> lastLogIndexLocked n"
    "\<forall>e \<in> set es. entry_ok (entryOfPb e)" "mergeEntriesLocked ev prev es n = (err, n')"
  shows "err = None \<and> log n' = mergeLog (prev - logOffset n) (log n) (drop (logOffset n - prev) es) \<and>
    ReadAllLogEntries NoFault (dir n') = (Inr (log n'), dir n'\<lparr>logFile := Some (records (log n'))\<rparr>)"
proof -
  from merge_spec [OF assms(1-5)] obtain d where d: "mergeEntriesLocked ev prev es n = (None, n\<lparr>dir := d, log := mergedLog n prev es\<rparr>)"
    "stored d (mergedLog n prev es)" by blast
  then show ?thesis using assms(6) ReadAll_stored [OF d(2), of NoFault] by (auto simp: mergedLog_def)
qed

theorem merge_is_reference_witness:
  "log (snd (mergeEntriesLocked calm 1 [\<lparr>peTerm = 5, peIndex = 2, peCommand = []\<rparr>] demoReplica))
     = mergeLog 1 demoLog [\<lparr>peTerm = 5, peIndex = 2, peCommand = []\<rparr>] \<and>
   mergeLog 1 demoLog [\<lparr>peTerm = 5, peIndex = 2, peCommand = []\<rparr>] = [demoEntry 1, \<lparr>Term = 5, Index = 2, Command = []\<rparr>]"
proof -
  have ok: "entry_ok \<lparr>Term = 5, Index = 2, Command = []\<rparr>"
    by (simp add: entry_ok_def gobEncode_def gobValue_def typeDef_def gobUint_def gobString_def gobField_def asciiBytes_def
        encUintField_def encBytesField_def Let_def)
  have w: "stored (dir demoReplica) (log demoReplica)" "positional (logOffset demoReplica) (log demoReplica)"
    using demoReplica_wf by (auto simp: node_wf_def)
  have "1 \<le> lastLogIndexLocked demoReplica" by (simp add: demoReplica_eq lastLogIndexLocked_def demoLog_def)
  from merge_is_reference [OF healthy_calm w this _ surjective_pairing, of "[\<lparr>peTerm = 5, peIndex = 2, peCommand = []\<rparr>]"] ok
  show ?thesis by (simp add: entryOfPb_def demoReplica_eq) (simp add: mergeLog_def demoLog_def demoEntry_def entryOfPb_def)
qed

section \<open>Applying and committing\<close>

text \<open>The calls waiting for the indices \<open>a + 1\<close> to \<open>b\<close> have been told, and no others.\<close>

definition told :: "uint64 \<Rightarrow> uint64 \<Rightarrow> node \<Rightarrow> node \<Rightarrow> bool" where
  "told a b n n' \<longleftrightarrow>
     (\<forall>i. map_of (waiters n') i = (if a < i \<and> i \<le> b then None else map_of (waiters n) i)) \<and>
     (\<forall>ch. chans n' ch = (if \<exists>i. a < i \<and> i \<le> b \<and> map_of (waiters n) i = Some ch then [Committed] else chans n ch))"

lemma applyOne_tells:
  assumes "chans_ok n" "entryAtLocked n (lastApplied n + 1) = Some x"
  shows "told (lastApplied n) (lastApplied n + 1) n (applyOne x (n\<lparr>lastApplied := lastApplied n + 1\<rparr>))"
proof -
  have pos: "Index x = lastApplied n + 1"
    using assms by (auto simp: chans_ok_def positional_def entryAt_iff lastLogIndexLocked_def)
  have one: "lastApplied n < i \<and> i \<le> Suc (lastApplied n) \<longleftrightarrow> i = Suc (lastApplied n)"
    "lastApplied n < i \<and> i \<le> Suc (lastApplied n) \<and> P \<longleftrightarrow> i = Suc (lastApplied n) \<and> P" for i P by auto
  have "chans n ch = []" if "map_of (waiters n) (lastApplied n + 1) = Some ch" for ch
    using assms(1) map_of_SomeD [OF that] by (auto simp: chans_ok_def)
  then show ?thesis
    by (cases "map_of (waiters n) (lastApplied n + 1)") (auto simp only: told_def one applyOne_def, auto simp: notifyWaiter_def pos one split: option.splits)
qed

lemma told_trans: "told a b n m \<Longrightarrow> told b c m k \<Longrightarrow> a \<le> b \<Longrightarrow> b \<le> c \<Longrightarrow> told a c n k"
proof -
  assume t: "told a b n m" "told b c m k" and l: "a \<le> b" "b \<le> c"
  have w: "map_of (waiters k) i = (if a < i \<and> i \<le> c then None else map_of (waiters n) i)" for i
    using t l unfolding told_def by auto
  have "chans k ch = (if \<exists>i. a < i \<and> i \<le> c \<and> map_of (waiters n) i = Some ch then [Committed] else chans n ch)" for ch
  proof (cases "\<exists>i. b < i \<and> i \<le> c \<and> map_of (waiters m) i = Some ch")
    case True
    then obtain i where i: "b < i" "i \<le> c" "map_of (waiters m) i = Some ch" by blast
    then have "map_of (waiters n) i = Some ch" using t(1) by (auto simp: told_def)
    then have "\<exists>i. a < i \<and> i \<le> c \<and> map_of (waiters n) i = Some ch" using i l by (intro exI [of _ i]) simp
    then show ?thesis using True t(2) by (simp add: told_def)
  next
    case False
    have "chans k ch = (if \<exists>i. b < i \<and> i \<le> c \<and> map_of (waiters m) i = Some ch then [Committed] else chans m ch)"
      using t(2) unfolding told_def by blast
    then have k: "chans k ch = chans m ch" by (simp only: False if_False)
    have "(\<exists>i. a < i \<and> i \<le> c \<and> map_of (waiters n) i = Some ch) \<longleftrightarrow> (\<exists>i. a < i \<and> i \<le> b \<and> map_of (waiters n) i = Some ch)"
    proof
      assume "\<exists>i. a < i \<and> i \<le> c \<and> map_of (waiters n) i = Some ch"
      then obtain i where i: "a < i" "i \<le> c" "map_of (waiters n) i = Some ch" by blast
      with False t(1) have "i \<le> b" unfolding told_def by (metis not_le)
      with i show "\<exists>i. a < i \<and> i \<le> b \<and> map_of (waiters n) i = Some ch" by blast
    qed (use l in \<open>meson order_trans\<close>)
    then show ?thesis using k t(1) by (simp add: told_def)
  qed
  with w show ?thesis unfolding told_def by blast
qed

lemma applyLoop_tells:
  assumes "chans_ok n" "logOffset n \<le> lastApplied n" "lastApplied n \<le> commitIndex n" "commitIndex n \<le> lastLogIndexLocked n"
  shows "told (lastApplied n) (commitIndex n) n (applyLoop n)"
  using assms
proof (induction n rule: applyLoop.induct)
  case (1 n)
  show ?case
  proof (cases "lastApplied n < commitIndex n")
    case True
    let ?n1 = "n\<lparr>lastApplied := lastApplied n + 1\<rparr>"
    obtain x where x: "entryAtLocked ?n1 (lastApplied ?n1) = Some x"
      using True "1.prems" by (auto simp: entryAt_iff lastLogIndexLocked_def)
    define q where "q = applyOne x ?n1"
    have run: "applyLoop n = applyLoop q" unfolding q_def by (subst applyLoop.simps) (use True x in simp)
    have q: "logOffset q = logOffset n" "lastApplied q = lastApplied n + 1" "commitIndex q = commitIndex n"
      "lastLogIndexLocked q = lastLogIndexLocked n"
      by (simp_all add: q_def applyOne_def lastLogIndexLocked_def)
    have ok: "chans_ok q" unfolding q_def using "1.prems"(1) by (intro applyOne_ok) simp
    have "told (lastApplied q) (commitIndex n) q (applyLoop q)"
      using "1.IH" [OF True refl x, folded q_def, OF ok] "1.prems" True by (simp add: q)
    moreover have "told (lastApplied n) (lastApplied q) n q"
      using applyOne_tells [OF "1.prems"(1), of x] x q(2) by (simp add: q_def)
    ultimately show ?thesis unfolding run using True q(2) by (auto intro: told_trans)
  next
    case False
    then have "applyLoop n = n" by (subst applyLoop.simps) simp
    then show ?thesis using False by (auto simp: told_def)
  qed
qed

text \<open>
  C22: \<open>applyCommittedLocked\<close> ends, hands exactly the entries between the applied and the commit index to the state machine, in
  order and once each, and wakes the waiting reads exactly when it advanced. Every call registered for one of these indices finds one
  notice of commitment in its channel and is registered no more; all other registrations and channels stay as they are.
\<close>

theorem apply_exactly_committed:
  assumes "chans_ok n" "logOffset n \<le> lastApplied n" "lastApplied n \<le> commitIndex n" "commitIndex n \<le> lastLogIndexLocked n"
    "n' = applyCommittedLocked n"
  shows "smOps n' = smOps n @ map applyOp (drop (lastApplied n - logOffset n) (take (commitIndex n - logOffset n) (log n))) \<and>
    lastApplied n' = commitIndex n \<and> wakeups n' = wakeups n + (if lastApplied n < commitIndex n then 1 else 0) \<and>
    (\<forall>i. map_of (waiters n') i = (if lastApplied n < i \<and> i \<le> commitIndex n then None else map_of (waiters n) i)) \<and>
    (\<forall>ch. chans n' ch =
       (if \<exists>i. lastApplied n < i \<and> i \<le> commitIndex n \<and> map_of (waiters n) i = Some ch then [Committed] else chans n ch)) \<and>
    log n' = log n \<and> commitIndex n' = commitIndex n"
proof -
  have "told (lastApplied n) (commitIndex n) n n'"
    using applyLoop_tells [OF assms(1-4)] assms(5) by (simp add: told_def applyCommittedLocked_def Let_def)
  moreover obtain ws cs where "n' = n\<lparr>lastApplied := commitIndex n, waiters := ws, chans := cs,
      wakeups := wakeups n + (if lastApplied n < commitIndex n then 1 else 0),
      smOps := smOps n @ map applyOp (drop (lastApplied n - logOffset n) (take (commitIndex n - logOffset n) (log n)))\<rparr>"
    using applyCommitted_spec [OF assms(2-4)] assms(5) by blast
  ultimately show ?thesis unfolding told_def by simp
qed

theorem apply_exactly_committed_witness:
  "let n = demoCall\<lparr>commitIndex := 4\<rparr>; n' = applyCommittedLocked n
   in map_of (waiters n) 4 = Some 0 \<and> chans n 0 = [] \<and> smOps n' = [applyOp nine] \<and> map_of (waiters n') 4 = None \<and> chans n' 0 = [Committed]"
proof -
  let ?n = "demoCall\<lparr>commitIndex := 4\<rparr>"
  have "local_ok {} demoCall" using lo_run [OF r_into_rtranclp, OF demo_local(2,1)] .
  then have ok: "chans_ok ?n" by (simp add: local_ok_def)
  have f: "waiters ?n = [(4, 0)]" "chans ?n 0 = []" "lastApplied ?n = 3" "commitIndex ?n = 4" "logOffset ?n = 0" "smOps ?n = []"
    "lastLogIndexLocked ?n = 4" "log ?n = demoLog @ [nine]" "length demoLog = 3"
    by (simp_all add: demoCall_eq(2) demoHead_def demoReplica_eq lastLogIndexLocked_def demoLog_def)
  have t: "drop 3 (take 4 (demoLog @ [nine])) = [nine]" using f(9) by simp
  have i: "\<exists>i. (3 :: nat) < i \<and> i \<le> 4 \<and> map_of [(4 :: nat, 0 :: nat)] i = Some 0" by (intro exI [of _ 4]) simp
  note a = apply_exactly_committed [OF ok _ _ _ refl, unfolded f, simplified t, simplified]
  then have "map_of (waiters (applyCommittedLocked ?n)) 4 = None" "chans (applyCommittedLocked ?n) 0 = [Committed]"
    "smOps (applyCommittedLocked ?n) = [applyOp nine]" using i f(9) by auto
  then show ?thesis unfolding Let_def f by simp
qed

text \<open>
  C21: The commit rule. A leader moves its commit index only forward, only to an entry of its own
  term that a quorum has acknowledged, and to the last such entry, and applies everything up to it.
\<close>

theorem commit_rule:
  assumes "logOffset n \<le> lastApplied n" "lastApplied n \<le> commitIndex n" "commitIndex n \<le> lastLogIndexLocked n"
    "n' = maybeAdvanceCommitIndexLocked n"
  shows "(commitIndex n' = commitIndex n \<and> n' = n \<and> (\<forall>M. commitIndex n < M \<and> M \<le> lastLogIndexLocked n \<longrightarrow> \<not> replicated n M)) \<or>
    (commitIndex n < commitIndex n' \<and> commitIndex n' \<le> lastLogIndexLocked n \<and> replicated n (commitIndex n') \<and>
     (\<forall>M. commitIndex n' < M \<and> M \<le> lastLogIndexLocked n \<longrightarrow> \<not> replicated n M) \<and> lastApplied n' = commitIndex n')"
proof -
  let ?K = "lastLogIndexLocked n"
  consider N where "commitIndex n < N" "N \<le> ?K" "replicated n N" "\<forall>M. N < M \<and> M \<le> ?K \<longrightarrow> \<not> replicated n M"
      "n' = applyCommittedLocked (n\<lparr>commitIndex := N\<rparr>)"
    | "\<forall>M. commitIndex n < M \<and> M \<le> ?K \<longrightarrow> \<not> replicated n M" "n' = n"
    using advanceFrom_spec [of n ?K] assms(4) unfolding maybeAdvanceCommitIndexLocked_def by blast
  then show ?thesis
  proof cases
    case (1 N)
    have "logOffset (n\<lparr>commitIndex := N\<rparr>) \<le> lastApplied (n\<lparr>commitIndex := N\<rparr>)"
      "lastApplied (n\<lparr>commitIndex := N\<rparr>) \<le> commitIndex (n\<lparr>commitIndex := N\<rparr>)"
      "commitIndex (n\<lparr>commitIndex := N\<rparr>) \<le> lastLogIndexLocked (n\<lparr>commitIndex := N\<rparr>)"
      using assms 1 by (simp_all add: lastLogIndexLocked_def)
    from applyCommitted_spec [OF this] 1(5) have "commitIndex n' = N \<and> lastApplied n' = N" by auto
    then show ?thesis using 1 by auto
  qed simp
qed

theorem commit_rule_witness:
  "replicated (demoCall\<lparr>matchIndex := [(''b:2'', 4), (''c:3'', 3)]\<rparr>) 4 \<and>
   commitIndex (maybeAdvanceCommitIndexLocked (demoCall\<lparr>matchIndex := [(''b:2'', 4), (''c:3'', 3)]\<rparr>)) = 4"
proof -
  let ?n = "demoCall\<lparr>matchIndex := [(''b:2'', 4), (''c:3'', 3)]\<rparr>"
  have n: "lastLogIndexLocked ?n = 4" "commitIndex ?n = 3" "lastApplied ?n = 3" "logOffset ?n = 0"
    and r: "replicated ?n 4"
    by (simp_all add: demoCall_eq(2) demoHead_def demoReplica_eq demoLog_def lastLogIndexLocked_def replicated_def entryAtLocked_def
        quorumSize_def)
  from commit_rule [of ?n, OF _ _ _ refl] n r show ?thesis by (auto dest: spec [of _ 4])
qed

section \<open>Restarting\<close>

lemma restart_same:
  assumes "healthy ev" "stored d lg" "positional 0 lg" "LoadState NoFault d = Inr (t, v)" "cfgLocalSnapshot cfg = None"
  shows "\<exists>n. NewNode ev cfg d = Inr n \<and> log n = lg \<and> logOffset n = 0 \<and> currentTerm n = t \<and> votedFor n = v \<and>
    commitIndex n = 0 \<and> lastApplied n = 0 \<and> role n = Follower"
proof -
  have "baseline None lg = (lg, 0, 0, '''')"
  proof (cases lg)
    case (Cons e r)
    then have "Index e = 1" using assms(3) by (auto simp: positional_def dest: spec [of _ 0])
    then show ?thesis using Cons by (simp add: baseline_def fallbackBaseline_def sub64_le)
  qed (simp add: baseline_def fallbackBaseline_def)
  then show ?thesis using assms by (simp add: NewNode_def healthyD ReadAll_stored)
qed

text \<open>
  A node of a running cluster that is restarted from its data directory comes back as a follower with
  the term, the vote and the log it had in memory, and applies again from the start.
\<close>

theorem restart_recovers:
  assumes "cluster_ok M C" "creach M C c" "a \<in> set M" "healthy ev"
  shows "\<exists>n. NewNode ev (C a) (dir (nodeAt c a)) = Inr n \<and> log n = log (nodeAt c a) \<and>
    currentTerm n = currentTerm (nodeAt c a) \<and> votedFor n = votedFor (nodeAt c a) \<and> commitIndex n = 0 \<and> role n = Follower"
  using restart_same [OF assms(4) positional_log(3,1,4) [OF assms(1-3)], of "C a"] assms(1,3)
  by (auto simp: cluster_ok_def)

theorem restart_recovers_witness:
  "\<exists>n. NewNode calm (demoConfig ''b'') (dir demoFollower) = Inr n \<and> log n = [seven] \<and> currentTerm n = 1 \<and> votedFor n = ''a''"
  using restart_recovers [OF demo_ok demo_reach(1) demo_members(2) healthy_calm]
  by (simp add: demoFollower_eq) (auto simp: demoVoter_eq)

section \<open>The election timer\<close>

text \<open>
  Each time the election deadline is reset the new timeout lies between the two configured bounds, and the
  ticker does not start an election before the lower bound has passed.
\<close>

theorem election_timeout_bounds:
  assumes "good_draw ev" "ElectionTimeoutMin (timing n) < ElectionTimeoutMax (timing n)" "n' = resetElectionDeadlineLocked ev n"
  shows "ElectionTimeoutMin (timing n) \<le> electionTimeout n' \<and> electionTimeout n' < ElectionTimeoutMax (timing n) \<and>
    (u - now ev < ElectionTimeoutMin (timing n) \<longrightarrow> \<not> electionDue u n') \<and>
    (ElectionTimeoutMax (timing n) \<le> u - now ev \<and> role n \<noteq> Leader \<longrightarrow> electionDue u n')"
proof -
  let ?s = "ElectionTimeoutMax (timing n) - ElectionTimeoutMin (timing n)"
  have "0 \<le> draw ev ?s" "draw ev ?s < ?s" using assms(1,2) by (auto simp: good_draw_def)
  then show ?thesis using assms(2,3) by (auto simp: resetElectionDeadlineLocked_def Let_def electionDue_def)
qed

theorem election_timeout_bounds_witness:
  "good_draw calm \<and> electionTimeout (resetElectionDeadlineLocked calm demoReplica) < 300"
proof -
  have "good_draw calm" by (simp add: good_draw_def calm_def)
  with election_timeout_bounds [OF this _ refl, of demoReplica] show ?thesis by (simp add: demoReplica_eq demoCfg_def)
qed

section \<open>A write to \<open>state.json\<close> that fails\<close>

text \<open>
  A term can be acknowledged that is not on disk. When the write of a newly seen term fails, the
  handler reports an error but keeps the term in memory; the leader's next heartbeat finds the term
  already current, skips the write and is acknowledged, while the disk still holds the old term.
\<close>

theorem failed_persist_acknowledged:
  assumes "ioObserve ev \<noteq> NoFault" "currentTerm n < aeTerm req" "aeEntries req = []" "aePrevLogIndex req \<le> logOffset n"
    "aeLeaderCommit req \<le> commitIndex n" "LoadState NoFault (dir n) = Inr (t0, v0)"
  shows "\<exists>e n1 n2. AppendEntries ev req n = (Inl e, n1) \<and>
    AppendEntries ev' req n1 = (Inr \<lparr>aerTerm = aeTerm req, aerSuccess = True, aerConflictIndex = 0, aerConflictTerm = 0\<rparr>, n2) \<and>
    LoadState NoFault (dir n2) = Inr (t0, v0)"
proof -
  let ?n1 = "setRoleLocked Follower (n\<lparr>currentTerm := aeTerm req, votedFor := ''''\<rparr>)"
  have "observeTermLocked ev (aeTerm req) n = (True, Some (ErrPersist IOError), ?n1)"
    using assms(1,2) by (simp add: observeTermLocked_def persist_fault)
  then have "AppendEntries ev req n = (Inl (ErrPersist IOError), ?n1)" using assms(2) by (simp add: AppendEntries_def)
  moreover have "\<exists>n2. AppendEntries ev' req ?n1 =
      (Inr \<lparr>aerTerm = aeTerm req, aerSuccess = True, aerConflictIndex = 0, aerConflictTerm = 0\<rparr>, n2) \<and> dir n2 = dir n"
    using assms(3-5) by (simp add: AppendEntries_def appendAtTerm_def appendAsFollower_def acceptAppend_def Let_def)
  ultimately show ?thesis using assms(6) by metis
qed

theorem failed_persist_acknowledged_witness:
  "\<exists>e n1 n2. AppendEntries (calm\<lparr>ioObserve := FailEarly\<rparr>)
      \<lparr>aeTerm = 7, aeLeaderId = ''b:2'', aePrevLogIndex = 0, aePrevLogTerm = 0, aeEntries = [], aeLeaderCommit = 0\<rparr> demoReplica = (Inl e, n1) \<and>
    AppendEntries calm \<lparr>aeTerm = 7, aeLeaderId = ''b:2'', aePrevLogIndex = 0, aePrevLogTerm = 0, aeEntries = [], aeLeaderCommit = 0\<rparr> n1
      = (Inr \<lparr>aerTerm = 7, aerSuccess = True, aerConflictIndex = 0, aerConflictTerm = 0\<rparr>, n2) \<and>
    LoadState NoFault (dir n2) = Inr (1, ''a'')"
proof -
  have "LoadState NoFault (dir demoReplica) = Inr (1, ''a'')" by (simp add: demoReplica_eq demoDir_def LoadState_def)
  then show ?thesis
    using failed_persist_acknowledged [of "calm\<lparr>ioObserve := FailEarly\<rparr>" demoReplica
        "\<lparr>aeTerm = 7, aeLeaderId = ''b:2'', aePrevLogIndex = 0, aePrevLogTerm = 0, aeEntries = [], aeLeaderCommit = 0\<rparr>" 1 "''a''" calm]
    by (simp add: demoReplica_eq)
qed

section \<open>Repairing a follower's log\<close>

text \<open>One round trip: the leader's request for a peer, the peer's answer, and what the leader makes of it.\<close>

definition repairRound :: "addr \<Rightarrow> node \<times> node \<Rightarrow> node \<times> node" where
  "repairRound p lf =
     (let r = buildRequest (fst lf) p; (rep, f) = AppendEntries calm (oaReq r) (snd lf)
      in (snd (handleSendReply calm (currentTerm (fst lf)) r (case rep of Inl _ \<Rightarrow> None | Inr x \<Rightarrow> Some x) (fst lf)), f))"

text \<open>A leader of term 4 whose five entries are of term 3, and a follower with two entries of term 1 and two of term 2.\<close>

definition stuckLeader :: node where
  "stuckLeader = demoReplica\<lparr>currentTerm := 4, role := Leader, log := map (\<lambda>i. \<lparr>Term = 3, Index = i, Command = []\<rparr>) [1, 2, 3, 4, 5],
     nextIndex := [(''b:2'', 6)], matchIndex := [(''b:2'', 0)], commitIndex := 0, lastApplied := 0\<rparr>"

definition stuckFollower :: node where
  "stuckFollower = demoReplica\<lparr>currentTerm := 4, log := [\<lparr>Term = 1, Index = 1, Command = []\<rparr>, \<lparr>Term = 1, Index = 2, Command = []\<rparr>,
     \<lparr>Term = 2, Index = 3, Command = []\<rparr>, \<lparr>Term = 2, Index = 4, Command = []\<rparr>], commitIndex := 0, lastApplied := 0\<rparr>"

definition stuck :: "uint64 \<Rightarrow> node \<times> node \<Rightarrow> bool" where
  "stuck x lf \<longleftrightarrow> fst lf = stuckLeader\<lparr>nextIndex := [(''b:2'', x)]\<rparr> \<and> log (snd lf) = log stuckFollower \<and>
     logOffset (snd lf) = 0 \<and> currentTerm (snd lf) = 4"

lemma stuck_round:
  assumes "stuck x lf" "x = 6 \<or> x = 5 \<or> x = 3"
  shows "stuck (if x = 5 then 3 else 5) (repairRound ''b:2'' lf)"
proof -
  obtain f where lf: "lf = (stuckLeader\<lparr>nextIndex := [(''b:2'', x)]\<rparr>, f)" and
    f: "log f = log stuckFollower" "logOffset f = 0" "currentTerm f = 4"
    using assms(1) by (cases lf) (simp add: stuck_def)
  let ?l = "stuckLeader\<lparr>nextIndex := [(''b:2'', x)]\<rparr>"
  define r where "r = buildRequest ?l ''b:2''"
  have r: "oaPeer r = ''b:2''" "aeTerm (oaReq r) = 4" "aePrevLogIndex (oaReq r) = x - 1"
    "aePrevLogTerm (oaReq r) = 3"
    using assms(2) by (auto simp: r_def buildRequest_def stuckLeader_def demoReplica_eq gm_get_def entryAtLocked_def Let_def
        lastLogIndexLocked_def numeral_eq_Suc simp del: upt_Suc)
  define f1 where "f1 = resetElectionDeadlineLocked calm ((setRoleLocked Follower f)\<lparr>currentLeader := aeLeaderId (oaReq r)\<rparr>)"
  have f1: "log f1 = log stuckFollower" "logOffset f1 = 0" "currentTerm f1 = 4" using f by (simp_all add: f1_def)
  have reply: "AppendEntries calm (oaReq r) f = (Inr (if x = 6 then \<lparr>aerTerm = 4, aerSuccess = False, aerConflictIndex = 5, aerConflictTerm = 0\<rparr>
      else if x = 5 then \<lparr>aerTerm = 4, aerSuccess = False, aerConflictIndex = 3, aerConflictTerm = 2\<rparr>
      else \<lparr>aerTerm = 4, aerSuccess = False, aerConflictIndex = 5, aerConflictTerm = 1\<rparr>), f1)"
    using assms(2) f r f1
    by (auto simp: AppendEntries_def appendAtTerm_def appendAsFollower_def Let_def f1_def [symmetric] entryAtLocked_def stuckFollower_def
        lastLogIndexLocked_def firstIndexOfTermLocked_def numeral_eq_Suc)
  have l: "currentTerm ?l = 4" "role ?l = Leader" by (simp_all add: stuckLeader_def)
  have "repairRound ''b:2'' lf = (?l\<lparr>nextIndex := [(''b:2'', if x = 5 then 3 else 5)]\<rparr>, f1)"
    using assms(2) unfolding repairRound_def lf Let_def fst_conv snd_conv r_def [symmetric] reply l
    by (auto simp: handleSendReply_def handleAppendEntriesReplyLocked_def r(1) l lastIndexOfTermLocked_def stuckLeader_def
        demoReplica_eq numeral_eq_Suc)
  then show ?thesis using f1 by (simp add: stuck_def)
qed

text \<open>
  The fast log repair can go on for ever. A follower that holds entries of two older terms is told to
  retry at index 5, then 3, then 5 again, because \<open>firstIndexOfTermLocked\<close> only looks at the end of its
  log: after any number of rounds its log is what it was.
\<close>

theorem repair_livelock:
  "log (snd ((repairRound ''b:2'' ^^ k) (stuckLeader, stuckFollower))) = log stuckFollower \<and>
   gm_get (nextIndex (fst ((repairRound ''b:2'' ^^ k) (stuckLeader, stuckFollower)))) ''b:2'' \<in> {6, 5, 3}"
proof -
  have "\<exists>x \<in> {6, 5, 3}. stuck x ((repairRound ''b:2'' ^^ k) (stuckLeader, stuckFollower))"
  proof (induction k)
    case 0
    have "stuck 6 (stuckLeader, stuckFollower)" by (simp add: stuck_def stuckLeader_def stuckFollower_def demoReplica_eq)
    then show ?case by auto
  next
    case (Suc k)
    then obtain x where "x \<in> {6, 5, 3}" "stuck x ((repairRound ''b:2'' ^^ k) (stuckLeader, stuckFollower))" by blast
    then have "stuck (if x = 5 then 3 else 5) ((repairRound ''b:2'' ^^ Suc k) (stuckLeader, stuckFollower))"
      using stuck_round by auto
    then show ?case by (cases "x = 5") auto
  qed
  then obtain x where x: "x \<in> {6, 5, 3}" "stuck x ((repairRound ''b:2'' ^^ k) (stuckLeader, stuckFollower))" by blast
  then have "gm_get (nextIndex (fst ((repairRound ''b:2'' ^^ k) (stuckLeader, stuckFollower)))) ''b:2'' = x"
    by (simp add: stuck_def gm_get_def)
  then show ?thesis using x by (simp add: stuck_def)
qed

section \<open>The anchor as an entry\<close>

text \<open>
  A leader whose log starts with the anchor of a snapshot of index 1 sends the anchor, with its empty
  command, as if it were the entry: a follower with an empty log accepts it, and once the
  leader's commit index covers it applies the empty command in place of the one that was committed.
\<close>

theorem anchor_sent_as_entry:
  assumes "log l = anchorOf f # rest" "LastIncludedIndex f = 1" "logOffset l = 0" "gm_get (nextIndex l) p \<le> 1"
    "1 \<le> commitIndex l" "rest = []" "healthy ev" "log m = []" "logOffset m = 0" "stored (dir m) []" "currentTerm m = currentTerm l"
    "commitIndex m = 0" "lastApplied m = 0" "entry_ok (anchorOf f)"
  shows "\<exists>m'. AppendEntries ev (oaReq (buildRequest l p)) m = (Inr \<lparr>aerTerm = currentTerm l, aerSuccess = True,
      aerConflictIndex = 0, aerConflictTerm = 0\<rparr>, m') \<and>
    smOps m' = smOps m @ [ApplyFn \<lparr>msgIndex = 1, msgTerm = LastIncludedTerm f, msgCommand = []\<rparr>]"
proof -
  let ?req = "oaReq (buildRequest l p)"
  have req: "aeTerm ?req = currentTerm l" "aePrevLogIndex ?req = 0" "aeEntries ?req = [pbOfEntry (anchorOf f)]" "aeLeaderCommit ?req = commitIndex l"
    using assms(1-4,6) by (auto simp: buildRequest_def Let_def entryAtLocked_def lastLogIndexLocked_def)
  let ?m1 = "(resetElectionDeadlineLocked ev ((setRoleLocked Follower m)\<lparr>currentLeader := aeLeaderId ?req\<rparr>))\<lparr>lastAppendEntriesAt := Some (now ev)\<rparr>"
  have m1: "stored (dir ?m1) (log ?m1)" "positional (logOffset ?m1) (log ?m1)" "0 \<le> lastLogIndexLocked ?m1"
    "\<forall>e \<in> set [pbOfEntry (anchorOf f)]. entry_ok (entryOfPb e)"
    using assms(8-10,14) by (simp_all add: positional_def)
  have "mergedLog ?m1 0 [pbOfEntry (anchorOf f)] = [anchorOf f]" using assms(8,9) by (simp add: mergedLog_def mergeLog_def)
  with merge_spec [OF assms(7) m1] obtain d where
    d: "mergeEntriesLocked ev 0 [pbOfEntry (anchorOf f)] ?m1 = (None, ?m1\<lparr>dir := d, log := [anchorOf f]\<rparr>)" by auto
  let ?m2 = "?m1\<lparr>dir := d, log := [anchorOf f], commitIndex := 1\<rparr>"
  have "min64 (commitIndex l) (lastLogIndexLocked (?m1\<lparr>dir := d, log := [anchorOf f]\<rparr>)) = 1"
    using assms(5,9) by (simp add: min64_def lastLogIndexLocked_def)
  then have res: "AppendEntries ev ?req m = (Inr \<lparr>aerTerm = currentTerm (applyCommittedLocked ?m2), aerSuccess = True, aerConflictIndex = 0,
      aerConflictTerm = 0\<rparr>, applyCommittedLocked ?m2)"
    using assms(5,9,11,12) d req by (simp add: AppendEntries_def appendAtTerm_def appendAsFollower_def acceptAppend_def Let_def)
  have c: "logOffset ?m2 \<le> lastApplied ?m2" "lastApplied ?m2 \<le> commitIndex ?m2" "commitIndex ?m2 \<le> lastLogIndexLocked ?m2"
    using assms(9,13) by (simp_all add: lastLogIndexLocked_def)
  from applyCommitted_spec [OF c] assms(9,11,13) res show ?thesis by (auto simp: applyOp_def anchorOf_def assms(2))
qed

definition firstFile :: File where
  "firstFile = \<lparr>State = [''k'' \<mapsto> ''v''], LastIncludedIndex = 1, LastIncludedTerm = 1\<rparr>"

theorem anchor_sent_as_entry_witness:
  "\<exists>m'. AppendEntries calm (oaReq (buildRequest (catchUpFromSnapshot calm [(''k'', ''v'')] (Some firstFile) demoLeader) ''b''))
      demoVoter = (Inr \<lparr>aerTerm = 1, aerSuccess = True, aerConflictIndex = 0, aerConflictTerm = 0\<rparr>, m') \<and>
    smOps m' = [ApplyFn \<lparr>msgIndex = 1, msgTerm = 1, msgCommand = []\<rparr>]"
proof -
  let ?l = "catchUpFromSnapshot calm [(''k'', ''v'')] (Some firstFile) demoLeader"
  have f: "LastIncludedIndex firstFile = 1" "LastIncludedTerm firstFile = 1" by (simp_all add: firstFile_def)
  note c = catchup_ok [OF healthy_calm _ refl, of firstFile "[(''k'', ''v'')]" demoLeader, unfolded f]
  have nx: "nextIndex ?l = nextIndex demoLeader"
    by (simp add: catchUpFromSnapshot_def catchUpWrite_def firstFile_def WriteFile_def Let_def catchUpRewrite_def RewriteLog_def calm_def
        catchUpAdopt_def replaceSnapshotFileLocked_def catchUpRestore_def)
  have e: "entry_ok (anchorOf firstFile)"
    by (simp add: firstFile_def anchorOf_def entry_ok_def gobEncode_def gobValue_def typeDef_def gobUint_def gobString_def
        gobField_def asciiBytes_def encUintField_def encBytesField_def Let_def)
  have "stored (dir demoVoter) []" by (simp add: demoVoter_eq stored_def logBytes_def)
  with anchor_sent_as_entry [of ?l firstFile "[]" "''b''" calm demoVoter] c nx f e
  show ?thesis by (simp add: demoVoter_eq demoLeader_eq demoNode_eq gm_get_def)
qed

section \<open>A cluster of one node\<close>

lemma alone_start: "NewNode ev cfg d = Inr n \<Longrightarrow> cfgLocalSnapshot cfg = None \<Longrightarrow> logOffset n = 0 \<Longrightarrow> commitIndex n = 0"
  by (auto simp: NewNode_def baseline_def fallbackBaseline_def Let_def split: sum.splits prod.splits if_splits)

lemma commit_frame:
  "commitIndex (snd (startElection ev n)) = commitIndex n" "commitIndex (selfElect el n) = commitIndex n"
  "commitIndex (snd (RequestVote ev req n)) = commitIndex n" "commitIndex (snd (handleVoteReply ev reply el n)) = commitIndex n"
  "commitIndex (snd (Propose ev cmd n)) = commitIndex n" "commitIndex (snd (proposeBegin ev cmd n)) = commitIndex n"
  "commitIndex (snd (proposeReceive ch n)) = commitIndex n" "commitIndex (proposeCancel i n) = commitIndex n"
  by (auto simp: startElection_def selfElect_def RequestVote_def grantVote_def handleVoteReply_def observeTermLocked_def
      persistStateLocked_def becomeLeaderLocked_def Propose_def proposeBegin_def appendLocalLocked_def appendToLog_def
      proposeReceive_def proposeCancel_def Let_def split: prod.split option.split list.split)

definition alone :: "addr \<Rightarrow> cluster \<Rightarrow> bool" where
  "alone a c \<longleftrightarrow> aeCalls c = {} \<and> aeReplies c = {} \<and> commitIndex (nodeAt c a) = 0"

lemma reach_node:
  assumes "cluster_ok M C" "creach M C c" "a \<in> set M"
  shows "peers (nodeAt c a) = cfgPeers (C a)" "logOffset (nodeAt c a) = 0"
proof -
  from sim_two [OF assms(1,2) rtranclp.rtrancl_refl] obtain s where "sim M C c s" by metis
  from node_relD(3,4) [OF simD(3) [OF assms(1) this assms(3)]]
  show "peers (nodeAt c a) = cfgPeers (C a)" "logOffset (nodeAt c a) = 0" .
qed

lemma alone_step:
  assumes "cluster_ok [a] C" "creach [a] C c" "alone a c" "cstep [a] C c c'"
  shows "alone a c'"
proof -
  have r': "creach [a] C c'" using assms(2,4) unfolding creach_def by (meson rtranclp.rtrancl_into_rtrancl)
  have p: "peers (nodeAt c a) = []" "cfgLocalSnapshot (C a) = None"
    using reach_node(1) [OF assms(1,2), of a] assms(1) by (auto simp: cluster_ok_def)
  note off = reach_node(2) [OF assms(1) r', of a]
  show ?thesis using assms(4)
  proof (cases rule: cstep.cases)
    case (Timeout b ev el n')
    then show ?thesis using assms(3) commit_frame(1) [of ev "nodeAt c b"] by (auto simp: alone_def setNode_def)
  next
    case (SelfElect b t el)
    then show ?thesis using assms(3) commit_frame(2) by (auto simp: alone_def setNode_def)
  next
    case (DeliverVote b q req ev reply n')
    then show ?thesis using assms(3) commit_frame(3) [of ev req "nodeAt c q"] by (auto simp: alone_def setNode_def)
  next
    case (VoteReply b q t reply ev el el' n')
    then show ?thesis using assms(3) commit_frame(4) [of ev reply el "nodeAt c b"] by (auto simp: alone_def setNode_def)
  next
    case (Broadcast b t reqs)
    then show ?thesis using assms(3) p
      by (auto simp: alone_def broadcastAppendEntries_def buildAppendEntriesRequestsLocked_def split: if_splits)
  next
    case (ClientPropose b ev cmd res n')
    then show ?thesis using assms(3) commit_frame(5) [of ev cmd "nodeAt c b"] by (auto simp: alone_def setNode_def)
  next
    case (ClientProposeSync b ev cmd res n')
    then show ?thesis using assms(3) commit_frame(6) [of ev cmd "nodeAt c b"] by (auto simp: alone_def setNode_def)
  next
    case (ClientReceive b ch v n')
    then show ?thesis using assms(3) commit_frame(7) [of ch "nodeAt c b"] by (auto simp: alone_def setNode_def)
  next
    case (ClientCancel b i)
    then show ?thesis using assms(3) commit_frame(8) by (auto simp: alone_def setNode_def)
  next
    case (CrashRestart b n1 ev n')
    then show ?thesis using assms(3) p off alone_start [of ev "C a" "dir n1" n']
      by (auto simp: alone_def setNode_def forgetElections_def)
  qed (use assms(3) in \<open>auto simp: alone_def\<close>)
qed

text \<open>
  A cluster of one node never commits anything. The election succeeds on the node's own vote, but the
  commit index is only looked at when a peer answers, and there is none.
\<close>

theorem single_node_never_commits:
  assumes "cluster_ok [a] C" "creach [a] C c"
  shows "commitIndex (nodeAt c a) = 0 \<and> appliedEntries c a = []"
proof -
  from assms(2) obtain c0 where c0: "cluster_start [a] C c0" "(cstep [a] C)\<^sup>*\<^sup>* c0 c" unfolding creach_def by blast
  have r0: "creach [a] C c0" using c0(1) unfolding creach_def by blast
  have "commitIndex (nodeAt c0 a) = 0"
    using c0(1) assms(1) alone_start reach_node(2) [OF assms(1) r0, of a] by (auto simp: cluster_start_def cluster_ok_def)
  then have "alone a c0" using c0(1) by (simp add: cluster_start_def alone_def)
  with c0(2) have "alone a c \<and> creach [a] C c"
  proof (induction rule: rtranclp_induct)
    case (step x y)
    then have "creach [a] C y" unfolding creach_def by (meson rtranclp.rtrancl_into_rtrancl)
    then show ?case using step alone_step [OF assms(1)] by blast
  qed (simp add: r0)
  moreover from sim_two [OF assms rtranclp.rtrancl_refl] obtain s where "sim [a] C c s" by metis
  from sim_log(4) [OF assms(1) this] have "appliedEntries c a = map applyOp (take (commitIndex (nodeAt c a)) (log (nodeAt c a)))" by simp
  ultimately show ?thesis by (simp add: alone_def)
qed

definition soloConfig :: "addr \<Rightarrow> Config" where
  "soloConfig x = (demoConfig x)\<lparr>cfgPeers := []\<rparr>"

definition soloStart :: cluster where
  "soloStart = dc0\<lparr>nodeAt := (\<lambda>x. projr (NewNode calm (soloConfig x) emptyDir))\<rparr>"

theorem single_node_never_commits_witness:
  "cluster_ok [''a''] soloConfig \<and> creach [''a''] soloConfig soloStart \<and> commitIndex (nodeAt soloStart ''a'') = 0"
proof -
  have ok: "cluster_ok [''a''] soloConfig" by (simp add: cluster_ok_def soloConfig_def demoConfig_def)
  have "NewNode calm (soloConfig ''a'') emptyDir = Inr (nodeAt soloStart ''a'')"
    by (simp add: soloStart_def NewNode_def soloConfig_def demoConfig_def emptyDir_def LoadState_def ReadAllLogEntries_def
        logBytes_def calm_def baseline_def fallbackBaseline_def)
  then have "creach [''a''] soloConfig soloStart"
    unfolding creach_def by (intro exI [of _ soloStart]) (auto simp: cluster_start_def soloStart_def dc0_def intro!: exI [of _ calm])
  with ok single_node_never_commits [OF ok this] show ?thesis by simp
qed

end
