(* ===== verification/Raft_Reads.thy ===== *)
theory Raft_Reads
  imports Raft_Handlers
begin

text \<open>
  Linearizable reads over the running cluster: what a granted read index and the wait for it give the reader,
  and a run in which a newly elected leader grants an index below an entry already committed.
\<close>

section \<open>Reads that are granted\<close>

lemma applied_prefix:
  assumes "cluster_ok M C" "creach M C c" "(cstep M C)\<^sup>*\<^sup>* c c'" "a \<in> set M" "b \<in> set M"
    "commitIndex (nodeAt c a) \<le> lastApplied (nodeAt c' b)"
  shows "prefix (appliedEntries c a) (appliedEntries c' b)"
proof -
  from sim_two [OF assms(1-3)] obtain s s' where s: "sim M C c s" "sim M C c' s'" by metis
  have "creach M C c'" using assms(2,3) unfolding creach_def by (meson rtranclp_trans)
  note len = positional_log(2) [OF assms(1,2,4)] positional_log(2) [OF assms(1) this assms(5)]
  have "lastApplied (nodeAt c' b) = commitIndex (nodeAt c' b)" using node_relD(12) [OF simD(3) [OF assms(1) s(2) assms(5)]] .
  then have l: "length (appliedEntries c a) \<le> length (appliedEntries c' b)"
    using sim_log(4) [OF assms(1) s(1) assms(4)] sim_log(4) [OF assms(1) s(2) assms(5)] len assms(6) by simp
  from applied_comparable [OF assms(1-5)] show ?thesis
  proof
    assume "prefix (appliedEntries c' b) (appliedEntries c a)"
    from prefix_length_prefix [OF prefix_order.refl this l] show ?thesis .
  qed
qed

text \<open>
  A follower's read that succeeds sees everything the leader had applied when it captured the read index: the
  leader was one at that moment, a quorum acknowledged it afterwards, and what the follower has applied when it
  reads extends what the leader had applied then.
\<close>

theorem follower_read_covers_leader:
  assumes "cluster_ok M C" "creach M C c" "(cstep M C)\<^sup>*\<^sup>* c c'" "a \<in> set M" "b \<in> set M"
    "RequestReadIndex (nodeAt c a) n1 acksSeen n2 = Some (Inr r)" "riOk r"
    "waitForApplied (riReadIndex r) [Looked (nodeAt c' b)] = Some None"
  shows "role (nodeAt c a) = Leader \<and> quorumSize (length (peers n1) + 1) \<le> 1 + acks (take (length (peers n1)) acksSeen) \<and>
    prefix (appliedEntries c a) (appliedEntries c' b)"
proof -
  note g = readIndex_granted [OF assms(6,7)]
  have "commitIndex (nodeAt c a) \<le> lastApplied (nodeAt c' b)"
    using assms(8) g(2) by (simp add: waitTurn_def split: if_splits option.splits)
  from applied_prefix [OF assms(1-5) this] g show ?thesis by simp
qed

theorem follower_read_covers_leader_witness:
  "RequestReadIndex demoCommitter demoCommitter [Result True] demoCommitter = Some (Inr \<lparr>riOk = True, riReadIndex = 1, riRedirectLeader = ''''\<rparr>) \<and>
   waitForApplied 1 [Looked demoApplier] = Some None \<and> prefix (appliedEntries dc7 ''a'') (appliedEntries dc9 ''b'')"
proof -
  have r: "RequestReadIndex demoCommitter demoCommitter [Result True] demoCommitter = Some (Inr \<lparr>riOk = True, riReadIndex = 1, riRedirectLeader = ''''\<rparr>)"
    by (simp add: RequestReadIndex_def readIndexBegin_def confirmLeadershipQuorum_def confirmBegin_def quorumSize_def)
  have w: "waitForApplied 1 [Looked demoApplier] = Some None" by (simp add: waitTurn_def demoApplier_eq)
  from follower_read_covers_leader [OF demo_ok demo_reach(1) demo_steps(2) demo_members, of demoCommitter "[Result True]" demoCommitter
      "\<lparr>riOk = True, riReadIndex = 1, riRedirectLeader = ''''\<rparr>"] r w
  show ?thesis by simp
qed

section \<open>A read index that misses a committed entry\<close>

text \<open>
  The run of \<open>Raft_Run\<close> goes on: the second node, which holds the committed entry but has not heard of
  its commitment, stands for election and wins with the third node's vote.
\<close>

definition lateElection :: election where
  "lateElection = the (fst (startElection calm demoFollower))"

definition lateCandidate :: node where
  "lateCandidate = snd (startElection calm demoFollower)"

definition lateVoter :: node where
  "lateVoter = snd (RequestVote calm (elReq lateElection) (demoNode ''c''))"

definition lateLeader :: node where
  "lateLeader = snd (handleVoteReply calm \<lparr>rvrTerm = 2, rvrVoteGranted = True\<rparr> lateElection lateCandidate)"

lemmas late_defs = election_defs observeTermLocked_def isLogAtLeastAsUpToDate_def lastLogTermLocked_def lastLogIndexLocked_def
  setRoleLocked_def persistStateLocked_ok calm_def resetElectionDeadlineLocked_def demoFollower_eq demoVoter_eq demoNode_eq
  demoMembers_def quorum_three

lemma u64_two [simp]: "u64 (Suc (Suc 0)) = Suc (Suc 0)"
  by (simp add: u64_def)

lemma lateElection_eq: "lateElection = \<lparr>elTerm = 2, elReq = \<lparr>rvTerm = 2, rvCandidateId = ''b'', rvLastLogIndex = 1, rvLastLogTerm = 1\<rparr>,
    elQuorum = 2, elVotes = 1\<rparr>"
  "startElection calm demoFollower = (Some lateElection, lateCandidate)"
  by (simp_all add: lateElection_def lateCandidate_def late_defs numeral_2_eq_2)

lemma lateCandidate_eq: "role lateCandidate = Candidate" "currentTerm lateCandidate = 2" "log lateCandidate = [seven]"
  "logOffset lateCandidate = 0" "commitIndex lateCandidate = 0" "peers lateCandidate = [''a'', ''c'']" "address lateCandidate = ''b''"
  by (simp_all add: lateCandidate_def late_defs numeral_2_eq_2)

lemma lateVote_eq: "RequestVote calm (elReq lateElection) (demoNode ''c'') = (Inr \<lparr>rvrTerm = 2, rvrVoteGranted = True\<rparr>, lateVoter)"
  unfolding lateVoter_def lateElection_eq by (simp add: late_defs numeral_2_eq_2)

lemma lateLeader_eq: "lateLeader = lateCandidate\<lparr>role := Leader, currentLeader := ''b'', nextIndex := [(''a'', 2), (''c'', 2)],
    matchIndex := [(''a'', 0), (''c'', 0)]\<rparr>"
  by (simp add: lateLeader_def handleVoteReply_def lateElection_eq(1) lateCandidate_eq becomeLeaderLocked_def lastLogIndexLocked_def Let_def
      numeral_2_eq_2)

definition dcA :: cluster where
  "dcA = (setNode ''b'' lateCandidate dc7)\<lparr>
     elections := (elections dc7)(''b'' := (elections dc7 ''b'')(elTerm lateElection := Some lateElection)),
     rvCalls := rvCalls dc7 \<union> {(''b'', p, elReq lateElection) | p. p \<in> set (peers lateCandidate)}\<rparr>"

definition dcB :: cluster where
  "dcB = (setNode ''c'' lateVoter dcA)\<lparr>rvCalls := rvCalls dcA - {(''b'', ''c'', elReq lateElection)},
     rvReplies := insert (''b'', ''c'', rvTerm (elReq lateElection), \<lparr>rvrTerm = 2, rvrVoteGranted = True\<rparr>) (rvReplies dcA)\<rparr>"

definition dcC :: cluster where
  "dcC = (setNode ''b'' lateLeader dcB)\<lparr>
     elections := (elections dcB)(''b'' := (elections dcB ''b'')(2 :=
       Some (fst (handleVoteReply calm \<lparr>rvrTerm = 2, rvrVoteGranted = True\<rparr> lateElection lateCandidate)))),
     rvReplies := rvReplies dcB - {(''b'', ''c'', 2, \<lparr>rvrTerm = 2, rvrVoteGranted = True\<rparr>)}\<rparr>"

lemma dc7_c: "nodeAt dc7 ''c'' = demoNode ''c''"
  by (simp add: dc_defs dc0_def)

lemma late_run: "(cstep demoMembers demoConfig)\<^sup>*\<^sup>* dc7 dcC"
proof -
  have "cstep demoMembers demoConfig dc7 dcA"
    unfolding dcA_def by (rule Timeout [of _ _ calm]) (simp_all add: lateElection_eq(2))
  moreover have "cstep demoMembers demoConfig dcA dcB"
    unfolding dcB_def by (rule DeliverVote [of _ _ _ _ calm]) (simp_all add: dcA_def setNode_def lateCandidate_eq dc7_c lateVote_eq)
  moreover have "cstep demoMembers demoConfig dcB dcC"
    unfolding dcC_def by (rule VoteReply [of _ _ _ _ _ calm lateElection])
      (simp_all add: dcA_def dcB_def setNode_def lateElection_eq lateLeader_def)
  ultimately show ?thesis by (meson converse_rtranclp_into_rtranclp rtranclp.rtrancl_refl)
qed

text \<open>
  A read index can miss an entry that is already committed. In a reachable state of a healthy
  cluster the first node has committed and applied an entry, the second leads a later term
  without having committed anything in it, one round of heartbeats is acknowledged by the first node, and the
  leader grants the read index 0.
\<close>

theorem stale_read_index:
  "creach demoMembers demoConfig dcC \<and> commitIndex (nodeAt dcC ''a'') = 1 \<and> appliedEntries dcC ''a'' = [applyOp seven] \<and>
   role (nodeAt dcC ''b'') = Leader \<and> currentTerm (nodeAt dcC ''a'') < currentTerm (nodeAt dcC ''b'') \<and>
   fst (handleSendReply calm 2 (buildRequest (nodeAt dcC ''b'') ''a'')
     (Some (projr (fst (AppendEntries calm (oaReq (buildRequest (nodeAt dcC ''b'') ''a'')) (nodeAt dcC ''a''))))) (nodeAt dcC ''b'')) \<and>
   RequestReadIndex (nodeAt dcC ''b'') (nodeAt dcC ''b'') [Result True] (nodeAt dcC ''b'')
     = Some (Inr \<lparr>riOk = True, riReadIndex = 0, riRedirectLeader = ''''\<rparr>)"
proof -
  have r: "creach demoMembers demoConfig dcC" using demo_start demo_steps(1) late_run unfolding creach_def by (meson rtranclp_trans)
  have nodes: "nodeAt dcC ''a'' = demoCommitter" "nodeAt dcC ''b'' = lateLeader" by (simp_all add: dcC_def dcB_def dcA_def setNode_def)
  have req: "buildRequest lateLeader ''a'' = \<lparr>oaPeer = ''a'', oaReq = \<lparr>aeTerm = 2, aeLeaderId = ''b'', aePrevLogIndex = 1, aePrevLogTerm = 1,
      aeEntries = [], aeLeaderCommit = 0\<rparr>, oaPrevIndex = 1, oaNumEntries = 0\<rparr>"
    by (simp add: buildRequest_def lateLeader_eq lateCandidate_eq gm_get_def entryAtLocked_def lastLogIndexLocked_def Let_def)
  have "fst (AppendEntries calm (oaReq (buildRequest lateLeader ''a'')) demoCommitter)
      = Inr \<lparr>aerTerm = 2, aerSuccess = True, aerConflictIndex = 0, aerConflictTerm = 0\<rparr>"
    unfolding req
    by (simp add: AppendEntries_def observe_healthy [OF healthy_calm] appendAtTerm_def appendAsFollower_def acceptAppend_def Let_def
        entryAtLocked_def demoCommitter_eq demoProposer_eq demoLeader_eq demoNode_eq)
  moreover have "RequestReadIndex lateLeader lateLeader [Result True] lateLeader = Some (Inr \<lparr>riOk = True, riReadIndex = 0, riRedirectLeader = ''''\<rparr>)"
    by (simp add: RequestReadIndex_def readIndexBegin_def confirmLeadershipQuorum_def confirmBegin_def lateLeader_eq lateCandidate_eq
        quorum_three)
  moreover have "fst (handleSendReply calm 2 (buildRequest lateLeader ''a'')
      (Some \<lparr>aerTerm = 2, aerSuccess = True, aerConflictIndex = 0, aerConflictTerm = 0\<rparr>) lateLeader)"
    by (simp add: handleSendReply_def lateLeader_eq lateCandidate_eq)
  ultimately show ?thesis using r nodes by (simp add: appliedEntries_def) (simp add: lateLeader_eq lateCandidate_eq)
qed

end
