(* ===== verification/Raft_Typing.thy ===== *)
theory Raft_Typing
  imports Raft_Safety
begin

text \<open>
  Terms and indices are natural numbers in the model and \<open>uint64\<close> in the code. This theory shows that they are the same
  thing: in a run in which no log grows to \<open>2 ^ 64 - 1\<close> entries, every such field of every node, of every saved state
  and of every message in flight, and every sum a handler computes from them, is below \<open>2 ^ 64\<close>, so that no
  operation of the code wraps around.
\<close>

section \<open>Values in range\<close>

definition in64 :: "nat \<Rightarrow> bool" where
  "in64 x \<longleftrightarrow> x < 2 ^ 64"

lemma in64_basic [simp]: "in64 0" "in64 1" "in64 (Suc 0)"
  by (simp_all add: in64_def)

lemma in64_wrapped [simp]: "in64 (u64 x)"
  unfolding in64_def by (rule u64_less)

lemma in64_le: "in64 y \<Longrightarrow> x \<le> y \<Longrightarrow> in64 x"
  by (simp add: in64_def)

lemma in64_u64: "in64 x \<Longrightarrow> u64 x = x"
  by (simp add: in64_def)

text \<open>The numbers a Go map holds.\<close>

definition vals64 :: "('k, nat) gomap \<Rightarrow> bool" where
  "vals64 m \<longleftrightarrow> (\<forall>v \<in> snd ` set m. in64 v)"

lemma vals64_Nil [simp]: "vals64 []"
  by (simp add: vals64_def)

lemma vals64_set: "vals64 m \<Longrightarrow> in64 v \<Longrightarrow> vals64 (gm_set k v m)"
  by (induction k v m rule: gm_set.induct) (auto simp: vals64_def)

lemma vals64_fold: "in64 v \<Longrightarrow> vals64 m \<Longrightarrow> vals64 (fold (\<lambda>p m. gm_set p v m) ps m)"
  by (induction ps arbitrary: m) (auto intro: vals64_set)

lemma vals64_get: "vals64 m \<Longrightarrow> in64 (gm_get m k)"
  by (auto simp: gm_get_def vals64_def dest!: map_of_SomeD split: option.splits)

text \<open>What a node owns besides its log: its term, the term on its disk, and the leader's two maps.\<close>

definition saved64 :: "datadir \<Rightarrow> bool" where
  "saved64 d \<longleftrightarrow> (\<forall>t v. stateJson d = SavedState t v \<longrightarrow> in64 t)"

definition own64 :: "node \<Rightarrow> bool" where
  "own64 n \<longleftrightarrow> in64 (currentTerm n) \<and> saved64 (dir n) \<and> vals64 (nextIndex n) \<and> vals64 (matchIndex n)"

text \<open>Its log, and the index behind it.\<close>

definition log64 :: "node \<Rightarrow> bool" where
  "log64 n \<longleftrightarrow> in64 (lastLogIndexLocked n + 1) \<and> in64 (commitIndex n) \<and> in64 (lastApplied n) \<and>
     (\<forall>e \<in> set (log n). in64 (Term e) \<and> in64 (Index e))"

definition vote64 :: "RequestVoteRequest \<Rightarrow> bool" where
  "vote64 req \<longleftrightarrow> in64 (rvTerm req) \<and> in64 (rvLastLogIndex req) \<and> in64 (rvLastLogTerm req)"

definition append64 :: "outgoingAppendEntries \<Rightarrow> bool" where
  "append64 r \<longleftrightarrow> in64 (aeTerm (oaReq r)) \<and> in64 (aePrevLogIndex (oaReq r)) \<and> in64 (aePrevLogTerm (oaReq r)) \<and> in64 (aeLeaderCommit (oaReq r)) \<and>
     (\<forall>e \<in> set (aeEntries (oaReq r)). in64 (peTerm e) \<and> in64 (peIndex e)) \<and> in64 (oaPrevIndex r + oaNumEntries r + 1)"

definition reply64 :: "AppendEntriesReply \<Rightarrow> bool" where
  "reply64 rep \<longleftrightarrow> in64 (aerTerm rep) \<and> in64 (aerConflictIndex rep) \<and> in64 (aerConflictTerm rep)"

definition cluster64 :: "addr list \<Rightarrow> cluster \<Rightarrow> bool" where
  "cluster64 M c \<longleftrightarrow> (\<forall>a \<in> set M. own64 (nodeAt c a) \<and> log64 (nodeAt c a)) \<and>
     (\<forall>(a, p, req) \<in> rvCalls c. vote64 req) \<and> (\<forall>(a, p, t, rep) \<in> rvReplies c. in64 (rvrTerm rep)) \<and>
     (\<forall>(a, r) \<in> aeCalls c. append64 r) \<and> (\<forall>(a, r, rep) \<in> aeReplies c. append64 r \<and> reply64 rep) \<and>
     (\<forall>a \<in> set M. \<forall>t el. elections c a t = Some el \<longrightarrow> in64 (elTerm el) \<and> vote64 (elReq el))"

section \<open>The handlers stay in range\<close>

text \<open>The operations that touch neither the term nor the two maps nor the saved state.\<close>

definition same64 :: "node \<Rightarrow> node \<Rightarrow> bool" where
  "same64 n n' \<longleftrightarrow> currentTerm n' = currentTerm n \<and> nextIndex n' = nextIndex n \<and> matchIndex n' = matchIndex n \<and>
     stateJson (dir n') = stateJson (dir n)"

lemma same64_refl [simp]: "same64 n n"
  by (simp add: same64_def)

lemma same64_trans: "same64 n n' \<Longrightarrow> same64 n' n'' \<Longrightarrow> same64 n n''"
  by (simp add: same64_def)

lemma own64_same: "same64 n n' \<Longrightarrow> own64 n \<Longrightarrow> own64 n'"
  by (simp add: same64_def own64_def saved64_def)

lemma same64_setRole [simp]: "same64 n (setRoleLocked r n)"
  by (simp add: same64_def setRoleLocked_def abortPendingWaitersLocked_def Let_def)

lemma same64_apply: "same64 n (applyCommittedLocked n)"
proof -
  have loop: "same64 n (applyLoop n)" for n
  proof (induction n rule: applyLoop.induct)
    case (1 n)
    show ?case
    proof (cases "lastApplied n < commitIndex n")
      case True
      let ?n1 = "n\<lparr>lastApplied := lastApplied n + 1\<rparr>"
      have s: "same64 n (applyOne e ?n1)" for e by (simp add: same64_def applyOne_def)
      show ?thesis
        using True 1 [OF True refl] s by (subst applyLoop.simps) (auto simp: same64_def Let_def split: option.split)
    next
      case False
      then show ?thesis by (subst applyLoop.simps) simp
    qed
  qed
  have "same64 (applyLoop n) ((applyLoop n)\<lparr>wakeups := w\<rparr>)" for w by (simp add: same64_def)
  then show ?thesis using loop [of n] by (auto simp: applyCommittedLocked_def Let_def intro: same64_trans)
qed

lemma same64_appendToLog: "same64 n (snd (appendToLog ev es n))"
  using stateJson_log_ops(1) [of "ioAppend ev" es "dir n"]
  by (auto simp: appendToLog_def same64_def split: prod.split option.split)

lemma same64_truncate: "same64 n (snd (truncateAt ev i n))"
  using stateJson_log_ops(2) [of "ioTruncate ev" i "dir n"]
  by (auto simp: truncateAt_def same64_def split: prod.split option.split)

lemma same64_merge: "same64 n (snd (mergeEntriesLocked ev p es n))"
proof -
  obtain idx es' where a: "mergeSkip (logOffset n) (Suc p) es = (idx, es')" by force
  obtain cut rest where b: "mergeWalk n idx es' = (cut, rest)" by force
  obtain err n1 where c: "(case cut of None \<Rightarrow> (None, n) | Some i \<Rightarrow> truncateAt ev i n) = (err, n1)" by force
  have "same64 n n1" using c same64_truncate [of n ev] by (cases cut) (auto, metis snd_conv)
  then show ?thesis using same64_appendToLog [of n1 ev "map entryOfPb rest"]
    by (auto simp: mergeEntriesLocked_def a b c split: option.split intro: same64_trans)
qed

lemma same64_accept: "same64 n (snd (acceptAppend ev req n))"
proof -
  obtain err n2 where m: "(if aeEntries req = [] then (None, n\<lparr>lastAppendEntriesAt := Some (now ev)\<rparr>)
      else mergeEntriesLocked ev (aePrevLogIndex req) (aeEntries req) (n\<lparr>lastAppendEntriesAt := Some (now ev)\<rparr>)) = (err, n2)" by force
  have "same64 n n2"
    using m same64_merge [of "n\<lparr>lastAppendEntriesAt := Some (now ev)\<rparr>" ev "aePrevLogIndex req" "aeEntries req"]
    by (auto simp: same64_def split: if_splits)
  moreover have "same64 n2 (applyCommittedLocked (n2\<lparr>commitIndex := i\<rparr>))" for i
    using same64_apply [of "n2\<lparr>commitIndex := i\<rparr>"] by (simp add: same64_def)
  ultimately show ?thesis by (auto simp: acceptAppend_def m Let_def split: option.split intro: same64_trans)
qed

lemma same64_follower: "same64 n (snd (appendAtTerm ev req n))"
proof -
  let ?n1 = "resetElectionDeadlineLocked ev ((setRoleLocked Follower n)\<lparr>currentLeader := aeLeaderId req\<rparr>)"
  have "same64 n ?n1" using same64_setRole [of n Follower] by (simp add: same64_def resetElectionDeadlineLocked_def Let_def)
  then show ?thesis using same64_accept [of ?n1 ev req]
    by (auto simp: appendAtTerm_def appendAsFollower_def Let_def split: option.split intro: same64_trans)
qed

lemma saved64_SaveState: "saved64 d \<Longrightarrow> in64 t \<Longrightarrow> saved64 (snd (SaveState flt t v d))"
  by (auto simp: SaveState_def saved64_def)

lemma own64_persist:
  assumes "in64 (currentTerm n)" "saved64 (dir n)" "vals64 (nextIndex n)" "vals64 (matchIndex n)"
  shows "own64 (snd (persistStateLocked flt n))"
  using assms saved64_SaveState [OF assms(2,1), of flt "votedFor n"]
  by (auto simp: persistStateLocked_def own64_def split: prod.split)

lemma own64_observe: "own64 n \<Longrightarrow> in64 t \<Longrightarrow> own64 (snd (snd (observeTermLocked ev t n)))"
  using own64_persist [of "setRoleLocked Follower (n\<lparr>currentTerm := t, votedFor := ''''\<rparr>)" "ioObserve ev"]
    same64_setRole [of "n\<lparr>currentTerm := t, votedFor := ''''\<rparr>" Follower]
  by (auto simp: observeTermLocked_def Let_def same64_def own64_def saved64_def split: prod.split)

lemma own64_grant:
  assumes "own64 n"
  shows "own64 (snd (grantVote ev req n))" "fst (grantVote ev req n) = Inr rep \<Longrightarrow> in64 (rvrTerm rep)"
proof -
  obtain err n1 where p: "persistStateLocked (ioVote ev) (n\<lparr>votedFor := rvCandidateId req\<rparr>) = (err, n1)" by force
  have n1: "own64 n1" using own64_persist [of "n\<lparr>votedFor := rvCandidateId req\<rparr>" "ioVote ev"] assms p by (simp add: own64_def)
  then have "own64 (resetElectionDeadlineLocked ev n1)" by (simp add: own64_def resetElectionDeadlineLocked_def Let_def)
  with n1 assms show "own64 (snd (grantVote ev req n))" "fst (grantVote ev req n) = Inr rep \<Longrightarrow> in64 (rvrTerm rep)"
    using p by (auto simp: grantVote_def Let_def own64_def split: if_splits option.splits)
qed

lemma own64_vote:
  assumes "own64 n" "in64 (rvTerm req)"
  shows "own64 (snd (RequestVote ev req n))" "fst (RequestVote ev req n) = Inr rep \<Longrightarrow> in64 (rvrTerm rep)"
proof -
  obtain b err n1 where o: "observeTermLocked ev (rvTerm req) n = (b, err, n1)" by (metis prod_cases3)
  then have "own64 n1" using own64_observe [OF assms] by (metis snd_conv)
  then show "own64 (snd (RequestVote ev req n))" "fst (RequestVote ev req n) = Inr rep \<Longrightarrow> in64 (rvrTerm rep)"
    using own64_grant assms o by (auto simp: RequestVote_def split: if_splits option.splits)
qed

lemma same_log_setRole [simp]: "log (setRoleLocked r n) = log n" "logOffset (setRoleLocked r n) = logOffset n"
  by (simp_all add: setRoleLocked_def abortPendingWaitersLocked_def Let_def)

lemma first_index_bound: "firstIndexOfTermLocked n t \<le> lastLogIndexLocked n + 1"
  by (simp add: firstIndexOfTermLocked_def lastLogIndexLocked_def)

lemma entry64: "log64 n \<Longrightarrow> entryAtLocked n i = Some e \<Longrightarrow> in64 (Term e)"
  by (auto simp: log64_def entryAtLocked_def split: if_splits)

lemma follower_reply64:
  assumes "own64 n" "log64 n" "fst (appendAtTerm ev req n) = Inr rep"
  shows "reply64 rep"
proof -
  let ?n1 = "resetElectionDeadlineLocked ev ((setRoleLocked Follower n)\<lparr>currentLeader := aeLeaderId req\<rparr>)"
  have s: "same64 n ?n1" "lastLogIndexLocked ?n1 = lastLogIndexLocked n" "\<And>i. entryAtLocked ?n1 i = entryAtLocked n i"
    using same64_setRole [of n Follower]
    by (simp_all add: same64_def resetElectionDeadlineLocked_def Let_def lastLogIndexLocked_def entryAtLocked_def)
  have ct: "in64 (currentTerm ?n1)" using s(1) assms(1) by (simp add: same64_def own64_def)
  have acc: "reply64 r" if a: "fst (acceptAppend ev req ?n1) = Inr r" for r
  proof -
    have "aerTerm r = currentTerm (snd (acceptAppend ev req ?n1))" "aerConflictIndex r = 0" "aerConflictTerm r = 0"
      using a by (auto simp: acceptAppend_def Let_def split: prod.splits option.splits)
    then show ?thesis using same64_accept [of ?n1 ev req] ct by (simp add: reply64_def same64_def)
  qed
  have "in64 (lastLogIndexLocked ?n1 + 1)" "in64 (firstIndexOfTermLocked ?n1 t)" for t
    using assms(2) s(2) in64_le [OF _ first_index_bound [of ?n1 t]] by (simp_all add: log64_def)
  then show ?thesis
    using assms acc ct entry64 [OF assms(2)] s(3)
    by (auto simp: appendAtTerm_def appendAsFollower_def Let_def reply64_def own64_def split: if_splits option.splits)
qed

lemma log64_observe: "log64 n \<Longrightarrow> log64 (snd (snd (observeTermLocked ev t n)))"
proof -
  assume "log64 n"
  moreover have "commitIndex (setRoleLocked Follower m) = commitIndex m \<and> lastApplied (setRoleLocked Follower m) = lastApplied m" for m
    by (simp add: setRoleLocked_def abortPendingWaitersLocked_def Let_def)
  ultimately show ?thesis
    by (auto simp: observeTermLocked_def persistStateLocked_def log64_def lastLogIndexLocked_def Let_def split: prod.split)
qed

lemma own64_append:
  assumes "own64 n" "in64 (aeTerm req)"
  shows "own64 (snd (AppendEntries ev req n))" "log64 n \<Longrightarrow> fst (AppendEntries ev req n) = Inr rep \<Longrightarrow> reply64 rep"
proof -
  obtain b err n1 where o: "observeTermLocked ev (aeTerm req) n = (b, err, n1)" by (metis prod_cases3)
  then have n1: "own64 n1" "log64 n \<Longrightarrow> log64 n1" using own64_observe [OF assms] log64_observe [of n ev "aeTerm req"] by (metis snd_conv)+
  then show "own64 (snd (AppendEntries ev req n))"
    using own64_same [OF same64_follower] assms o by (auto simp: AppendEntries_def split: option.splits)
  show "reply64 rep" if "log64 n" "fst (AppendEntries ev req n) = Inr rep"
    using that follower_reply64 [OF assms(1)] follower_reply64 [OF n1] o by (auto simp: AppendEntries_def split: if_splits option.splits)
qed

lemma own64_stand:
  assumes "own64 n"
  shows "own64 (snd (startElection ev n))"
    and "log64 n \<Longrightarrow> fst (startElection ev n) = Some el \<Longrightarrow> in64 (elTerm el) \<and> vote64 (elReq el)"
proof -
  let ?n1 = "(setRoleLocked Candidate n)\<lparr>currentTerm := u64 (currentTerm n + 1), votedFor := nid n\<rparr>"
  obtain err n2 where p: "persistStateLocked (ioVote ev) ?n1 = (err, n2)" by force
  have "own64 ?n1" using assms same64_setRole [of n Candidate] by (simp add: own64_def same64_def saved64_def)
  then have n2: "own64 n2" using own64_persist [of ?n1 "ioVote ev"] p by (simp add: own64_def)
  let ?n3 = "resetElectionDeadlineLocked ev n2"
  have n3: "own64 ?n3" using n2 by (simp add: own64_def resetElectionDeadlineLocked_def Let_def)
  then show "own64 (snd (startElection ev n))" using assms n2 p by (auto simp: startElection_def Let_def split: option.splits)
  have lg: "log ?n3 = log n" "logOffset ?n3 = logOffset n"
    using p by (auto simp: persistStateLocked_def resetElectionDeadlineLocked_def Let_def split: prod.splits)
  show "in64 (elTerm el) \<and> vote64 (elReq el)" if l: "log64 n" and e: "fst (startElection ev n) = Some el"
  proof -
    have "in64 (lastLogTermLocked ?n3)" "in64 (lastLogIndexLocked ?n3)"
      using l lg in64_le [of "Suc (lastLogIndexLocked n)" "lastLogIndexLocked n"]
      by (auto simp: log64_def lastLogTermLocked_def lastLogIndexLocked_def)
    moreover have "elTerm el = currentTerm ?n3" "rvTerm (elReq el) = currentTerm ?n3" "rvLastLogIndex (elReq el) = lastLogIndexLocked ?n3"
      "rvLastLogTerm (elReq el) = lastLogTermLocked ?n3"
      using e p by (auto simp: startElection_def Let_def split: if_splits option.splits)
    ultimately show ?thesis using n3 by (simp add: vote64_def own64_def)
  qed
qed

lemma own64_leader: "own64 n \<Longrightarrow> log64 n \<Longrightarrow> own64 (becomeLeaderLocked n)"
  by (auto simp: becomeLeaderLocked_def own64_def log64_def Let_def intro: vals64_fold)

lemma own64_selfElect: "own64 n \<Longrightarrow> log64 n \<Longrightarrow> own64 (selfElect el n)"
  by (simp add: selfElect_def own64_leader)

lemma own64_voteReply:
  assumes "own64 n" "log64 n" "in64 (rvrTerm rep)"
  shows "own64 (snd (handleVoteReply ev rep el n))"
    "elTerm (fst (handleVoteReply ev rep el n)) = elTerm el" "elReq (fst (handleVoteReply ev rep el n)) = elReq el"
  using assms own64_observe own64_leader by (auto simp: handleVoteReply_def Let_def)

lemma same64_advance: "same64 n (advanceFrom N n)"
proof (induction N)
  case (Suc N)
  have "same64 n (applyCommittedLocked (n\<lparr>commitIndex := i\<rparr>))" for i
    using same64_apply [of "n\<lparr>commitIndex := i\<rparr>"] by (simp add: same64_def)
  then show ?case using Suc by (auto split: option.split)
qed simp

lemma last_index_bound: "lastIndexOfTermLocked n t \<le> lastLogIndexLocked n"
proof -
  have "lastIndexScan lg t k = Some i \<Longrightarrow> i < k" for lg t k i
    by (induction k) (auto split: if_splits)
  then show ?thesis by (force simp: lastIndexOfTermLocked_def lastLogIndexLocked_def split: option.split)
qed

lemma own64_sendReply:
  assumes "own64 n" "log64 n" "append64 r" "reply64 rep"
  shows "own64 (snd (handleSendReply ev t r (Some rep) n))"
proof -
  let ?m = "oaPrevIndex r + oaNumEntries r"
  have m: "in64 (?m + 1)" "in64 ?m" using assms(3) in64_le [of "?m + 1" ?m] by (simp_all add: append64_def)
  define n1 where "n1 = (if gm_get (matchIndex n) (oaPeer r) < ?m then n\<lparr>matchIndex := gm_set (oaPeer r) ?m (matchIndex n)\<rparr> else n)"
  define n2 where "n2 = (if gm_get (nextIndex n1) (oaPeer r) < ?m + 1 then n1\<lparr>nextIndex := gm_set (oaPeer r) (?m + 1) (nextIndex n1)\<rparr> else n1)"
  have "own64 n2" using assms(1) m by (auto simp: n1_def n2_def own64_def intro: vals64_set)
  then have adv: "own64 (maybeAdvanceCommitIndexLocked n2)"
    using own64_same [OF same64_advance] by (simp add: maybeAdvanceCommitIndexLocked_def)
  have "in64 (lastIndexOfTermLocked n u + 1)" for u
    using assms(2) in64_le [of "lastLogIndexLocked n + 1"] last_index_bound [of n u] by (simp add: log64_def)
  then have nx: "own64 (n\<lparr>nextIndex := gm_set (oaPeer r) x (nextIndex n)\<rparr>)"
    if "x = aerConflictIndex rep \<or> x = lastIndexOfTermLocked n (aerConflictTerm rep) + 1 \<or> x = 1" for x
    using that assms(1,4) by (auto simp: own64_def reply64_def intro!: vals64_set)
  show ?thesis
    using assms(1,4) own64_observe adv nx
    by (auto simp: handleSendReply_def handleAppendEntriesReplyLocked_def Let_def n1_def n2_def reply64_def)
qed

lemma own64_propose: "own64 n \<Longrightarrow> own64 (snd (Propose ev cmd n))" "own64 n \<Longrightarrow> own64 (snd (proposeBegin ev cmd n))"
  "own64 n \<Longrightarrow> own64 (snd (proposeReceive ch n))" "own64 n \<Longrightarrow> own64 (proposeCancel i n)"
proof -
  assume n: "own64 n"
  let ?e = "\<lparr>Term = currentTerm n, Index = lastLogIndexLocked n + 1, Command = cmd\<rparr>"
  obtain err n1 where a: "appendToLog ev [?e] n = (err, n1)" by force
  have n1: "own64 n1" using own64_same [OF same64_appendToLog [of n ev "[?e]"] n] a by simp
  then have "own64 (n1\<lparr>waiters := w, nextChan := k\<rparr>)" for w k by (simp add: own64_def)
  then show "own64 (snd (Propose ev cmd n))" "own64 (snd (proposeBegin ev cmd n))"
    using n n1 a by (auto simp: Propose_def proposeBegin_def appendLocalLocked_def Let_def split: option.splits)
  show "own64 (snd (proposeReceive ch n))" "own64 (proposeCancel i n)"
    using n by (auto simp: proposeReceive_def proposeCancel_def own64_def split: list.splits)
qed

lemma own64_new: "NewNode ev cfg d = Inr n \<Longrightarrow> saved64 d \<Longrightarrow> own64 n"
  using stateJson_log_ops(4) [of "ioTruncate ev" d]
  by (auto simp: NewNode_def LoadState_def own64_def saved64_def resetElectionDeadlineLocked_def Let_def
      split: stateFile.splits if_splits sum.splits prod.splits)

lemma build64:
  assumes "own64 n" "log64 n"
  shows "append64 (buildRequest n p)"
proof -
  note b = build_spec [OF refl, of n p]
  let ?r = "buildRequest n p"
  have nx: "in64 (gm_get (nextIndex n) p)" using assms(1) vals64_get by (auto simp: own64_def)
  have l: "in64 (lastLogIndexLocked n + 1)" using assms(2) by (simp add: log64_def)
  have "oaPrevIndex ?r + 1 \<le> max (gm_get (nextIndex n) p) (lastLogIndexLocked n + 1)"
    by (auto simp: buildRequest_def lastLogIndexLocked_def Let_def)
  then have p1: "in64 (oaPrevIndex ?r + 1)" using nx l by (metis in64_le max_def)
  have "oaPrevIndex ?r + oaNumEntries ?r + 1 \<le> max (oaPrevIndex ?r + 1) (lastLogIndexLocked n + 1)"
    using b(6,7,8) by (auto simp: lastLogIndexLocked_def)
  then have sum: "in64 (oaPrevIndex ?r + oaNumEntries ?r + 1)" using p1 l by (metis in64_le max_def)
  have pt: "in64 (aePrevLogTerm (oaReq ?r))"
    using assms(2) b(7,9) by (auto simp: log64_def lastLogIndexLocked_def)
  have "in64 (peTerm e) \<and> in64 (peIndex e)" if "e \<in> set (aeEntries (oaReq ?r))" for e
    using that assms(2) unfolding b(8) by (auto simp: log64_def dest: in_set_dropD)
  then show ?thesis
    using assms sum pt p1 in64_le [OF p1, of "oaPrevIndex ?r"] b(2,4,5) by (simp add: append64_def own64_def log64_def)
qed

section \<open>The cluster stays in range\<close>

text \<open>Every log leaves room for one more index.\<close>

definition short :: "addr list \<Rightarrow> cluster \<Rightarrow> bool" where
  "short M c \<longleftrightarrow> (\<forall>a \<in> set M. length (log (nodeAt c a)) + 1 < 2 ^ 64)"

lemma reach_log64:
  assumes "cluster_ok M C" "creach M C c" "a \<in> set M" "short M c"
  shows "log64 (nodeAt c a)"
proof -
  from sim_two [OF assms(1,2) rtranclp.rtrancl_refl] obtain s where s: "sim M C c s" by metis
  have n: "logOffset (nodeAt c a) = 0" "lastApplied (nodeAt c a) = commitIndex (nodeAt c a)"
    using simD(3) [OF assms(1) s assms(3)] by (simp_all add: node_rel_def)
  note p = positional_log [OF assms(1-3)]
  have len: "length (log (nodeAt c a)) + 1 < 2 ^ 64" using assms(3,4) by (simp add: short_def)
  have "commitIndex (nodeAt c a) < 2 ^ 64" using p(2) len by linarith
  moreover have "Term e < 2 ^ 64 \<and> Index e < 2 ^ 64" if "e \<in> set (log (nodeAt c a))" for e
    using that p(3) by (auto simp: stored_def entry_ok_def)
  ultimately show ?thesis using n len by (simp add: log64_def in64_def lastLogIndexLocked_def)
qed

lemma interrupted64:
  assumes "interrupted c a n" "cluster64 M c" "a \<in> set M"
  shows "saved64 (dir n)"
proof -
  have a: "own64 (nodeAt c a)" using assms(2,3) by (simp add: cluster64_def)
  from assms(1) have "own64 n"
  proof cases
    case (voting b req ev)
    then have "in64 (rvTerm req)" using assms(2) by (auto simp: cluster64_def vote64_def)
    then show ?thesis using own64_vote(1) [OF a] voting by simp
  next
    case (appending b r ev)
    then have "in64 (aeTerm (oaReq r))" using assms(2) by (auto simp: cluster64_def append64_def)
    then show ?thesis using own64_append(1) [OF a] appending by simp
  qed (use a own64_stand(1) [OF a] own64_propose(1) [OF a] in simp_all)
  then show ?thesis by (simp add: own64_def)
qed

text \<open>One step, for everything but the logs: those are in range because the new state is reachable and short.\<close>

definition rest64 :: "addr list \<Rightarrow> cluster \<Rightarrow> bool" where
  "rest64 M c \<longleftrightarrow> (\<forall>a \<in> set M. own64 (nodeAt c a)) \<and>
     (\<forall>(a, p, req) \<in> rvCalls c. vote64 req) \<and> (\<forall>(a, p, t, rep) \<in> rvReplies c. in64 (rvrTerm rep)) \<and>
     (\<forall>(a, r) \<in> aeCalls c. append64 r) \<and> (\<forall>(a, r, rep) \<in> aeReplies c. append64 r \<and> reply64 rep) \<and>
     (\<forall>a \<in> set M. \<forall>t el. elections c a t = Some el \<longrightarrow> in64 (elTerm el) \<and> vote64 (elReq el))"

lemma cluster64_rest: "cluster64 M c \<longleftrightarrow> rest64 M c \<and> (\<forall>a \<in> set M. log64 (nodeAt c a))"
  by (auto simp: cluster64_def rest64_def)

lemma rest64_setNode: "rest64 M c \<Longrightarrow> own64 n \<Longrightarrow> rest64 M (setNode a n c)"
  by (simp add: rest64_def setNode_def)

lemma rest64_step:
  assumes ok: "cluster_ok M C" and s: "sim M C c s" and ty: "cluster64 M c" and st: "cstep M C c c'"
  shows "rest64 M c'"
proof -
  have r: "rest64 M c" and n: "\<And>a. a \<in> set M \<Longrightarrow> own64 (nodeAt c a)" "\<And>a. a \<in> set M \<Longrightarrow> log64 (nodeAt c a)"
    using ty by (auto simp: cluster64_def rest64_def)
  have mem: "(a, p, req) \<in> rvCalls c \<Longrightarrow> p \<in> set M" "(a, p, t, rep) \<in> rvReplies c \<Longrightarrow> a \<in> set M"
    "(a, q) \<in> aeCalls c \<Longrightarrow> oaPeer q \<in> set M" "(a, q, ack) \<in> aeReplies c \<Longrightarrow> a \<in> set M" for a p req t rep q ack
    using s by (fastforce simp: sim_def rv_rel_def rvr_rel_def ae_rel_def aer_rel_def)+
  from st show ?thesis
  proof cases
    case (Timeout a ev el n')
    then have "own64 n'" "in64 (elTerm el) \<and> vote64 (elReq el)" using own64_stand [OF n(1), of a ev] n(2) by auto
    then show ?thesis using r Timeout(1) by (auto simp: rest64_def setNode_def)
  next
    case (SelfElect a t el)
    then show ?thesis using rest64_setNode [OF r own64_selfElect [OF n]] by simp
  next
    case (DeliverVote a p req ev reply n')
    then have "p \<in> set M" "in64 (rvTerm req)" using mem(1) r by (blast, auto simp: rest64_def vote64_def)
    then have "own64 n'" "in64 (rvrTerm reply)" using own64_vote [OF n(1), of p req ev] DeliverVote by auto
    then show ?thesis using r DeliverVote(1) by (auto simp: rest64_def setNode_def)
  next
    case (VoteReply a p t reply ev el el' n')
    then have "a \<in> set M" "in64 (rvrTerm reply)" using mem(2) r by (blast, auto simp: rest64_def)
    then have "own64 n'" "elTerm el' = elTerm el" "elReq el' = elReq el"
      using own64_voteReply [OF n(1,2), of a reply ev el] VoteReply by auto
    then show ?thesis using r VoteReply(1,4) by (auto simp: rest64_def setNode_def)
  next
    case (Broadcast a t reqs)
    then have "\<forall>q \<in> set reqs. append64 q"
      using build64 [OF n] by (auto simp: broadcastAppendEntries_def buildAppendEntriesRequestsLocked_def split: if_splits)
    then show ?thesis using r Broadcast(1) by (auto simp: rest64_def)
  next
    case (DeliverAppend a q ev reply n')
    then have m: "oaPeer q \<in> set M" and q: "append64 q" using mem(3) r by (blast, auto simp: rest64_def)
    then have "own64 n'" "reply64 reply"
      using own64_append [OF n(1), of "oaPeer q" "oaReq q" ev] n(2) [OF m] DeliverAppend by (auto simp: append64_def)
    note q = q this
    show ?thesis using r q DeliverAppend(1) by (auto simp: rest64_def setNode_def)
  next
    case (AppendReply a q reply ev k n')
    then have "a \<in> set M" "append64 q" "reply64 reply" using mem(4) r by (blast, auto simp: rest64_def)
    then have "own64 n'" using own64_sendReply [OF n(1,2), of a q reply ev "aeTerm (oaReq q)"] AppendReply by auto
    then show ?thesis using rest64_setNode [OF r] AppendReply(1) by simp
  next
    case (ClientPropose a ev cmd res n')
    then have "own64 n'" using own64_propose(1) [OF n(1), of a ev cmd] by simp
    then show ?thesis using rest64_setNode [OF r] ClientPropose(1) by simp
  next
    case (ClientProposeSync a ev cmd res' n')
    then have "own64 n'" using own64_propose(2) [OF n(1), of a ev cmd] by simp
    then show ?thesis using rest64_setNode [OF r] ClientProposeSync(1) by simp
  next
    case (ClientReceive a ch v n')
    then have "own64 n'" using own64_propose(3) [OF n(1), of a ch] by simp
    then show ?thesis using rest64_setNode [OF r] ClientReceive(1) by simp
  next
    case (ClientCancel a i)
    then show ?thesis using rest64_setNode [OF r own64_propose(4) [OF n(1)]] by simp
  next
    case (CrashRestart a n1 ev n')
    then have "own64 n'" using own64_new interrupted64 [OF _ ty] by blast
    then show ?thesis using r CrashRestart(1) by (auto simp: rest64_def setNode_def forgetElections_def)
  qed
qed

text \<open>The invariant along a run all of whose states are short.\<close>

lemma run64:
  assumes ok: "cluster_ok M C" and st: "cluster_start M C c0" "short M c0"
    and run: "(\<lambda>c c'. cstep M C c c' \<and> short M c')\<^sup>*\<^sup>* c0 c"
  shows "creach M C c \<and> short M c \<and> cluster64 M c"
  using run
proof (induction rule: rtranclp_induct)
  case base
  have r: "creach M C c0" using st(1) by (auto simp: creach_def)
  have "own64 (nodeAt c0 a)" if a: "a \<in> set M" for a
  proof -
    obtain ev where "NewNode ev (C a) emptyDir = Inr (nodeAt c0 a)" using st(1) a by (auto simp: cluster_start_def)
    then show ?thesis by (rule own64_new) (simp add: saved64_def emptyDir_def)
  qed
  then have "cluster64 M c0" using st reach_log64 [OF ok r _ st(2)] by (simp add: cluster64_def cluster_start_def)
  then show ?case using r st(2) by blast
next
  case (step c c')
  have r: "creach M C c'" using step.IH step.hyps(2) unfolding creach_def by (meson rtranclp.rtrancl_into_rtrancl)
  from step.IH sim_two [OF ok _ rtranclp.rtrancl_refl, of c] obtain s where "sim M C c s" by metis
  from rest64_step [OF ok this] step.IH step.hyps(2) have "rest64 M c'" by blast
  then show ?case using r step.hyps(2) reach_log64 [OF ok r] by (simp add: cluster64_rest)
qed

text \<open>
  C16: The model's numbers are the code's. In every run whose logs stay below \<open>2 ^ 64 - 1\<close> entries, all terms and
  indices, of the nodes, of their disks, of the leaders' tables and of the messages in flight, are below \<open>2 ^ 64\<close>, and so are the
  sums the handlers form: the index behind the log and the index behind the entries of a request.
\<close>

theorem values_in_range:
  assumes "cluster_ok M C" "cluster_start M C c0" "short M c0" "(\<lambda>c c'. cstep M C c c' \<and> short M c')\<^sup>*\<^sup>* c0 c"
  shows "cluster64 M c"
  using run64 [OF assms] by blast

theorem values_in_range_witness:
  "cluster_start demoMembers demoConfig dc0 \<and> cstep demoMembers demoConfig dc0 dc1 \<and> currentTerm (nodeAt dc1 ''a'') = 1 \<and> cluster64 demoMembers dc1"
proof -
  have e: "log demoCandidate = []" "currentTerm demoCandidate = 1" by (simp_all add: demo_election_defs)
  then have s: "short demoMembers dc0" "short demoMembers dc1" "currentTerm (nodeAt dc1 ''a'') = 1"
    by (simp_all add: short_def dc0_def dc1_def setNode_def demoNode_eq)
  then have "(\<lambda>c c'. cstep demoMembers demoConfig c c' \<and> short demoMembers c')\<^sup>*\<^sup>* dc0 dc1" using demo_step1 by blast
  from values_in_range [OF demo_ok demo_start s(1) this] s(3) demo_start demo_step1 show ?thesis by simp
qed

end
