(* ===== verification/KV_Server.thy ===== *)
theory KV_Server
  imports Raft_Reads
begin

text \<open>
  The key-value service of a node (\<open>internal/statemachine/server.go\<close>) on top of the consensus core, and
  the state machine it reads: the contents that the calls recorded in \<open>smOps\<close> lead to. The
  protobuf encoding of a command is an argument of the definitions that use it.

  A call looks at the node at several moments: each moment is an argument of its own, so that any
  other handler may have run in between.
\<close>

section \<open>The state machine behind the core\<close>

definition runOp :: "(bytes \<Rightarrow> KVCommand option) \<Rightarrow> smOp \<Rightarrow> KV \<Rightarrow> KV" where
  "runOp unmarshal op kv =
     (case op of ApplyFn msg \<Rightarrow> applyCommand unmarshal (msgCommand msg) kv | RestoreState data \<Rightarrow> Restore data kv)"

definition machine :: "(bytes \<Rightarrow> KVCommand option) \<Rightarrow> node \<Rightarrow> KV" where
  "machine unmarshal n = fold (runOp unmarshal) (smOps n) New"

section \<open>Writes\<close>

text \<open>
  What \<open>ProposeSync\<close> returns: the result of its first part, then what the \<open>select\<close> delivered,
  \<open>None\<close> being the end of the context.
\<close>

definition proposeResult :: "(raftError + (uint64 \<times> uint64 \<times> nat)) \<Rightarrow> notice option \<Rightarrow> raftError + uint64" where
  "proposeResult begun got =
     (case begun of
        Inl e \<Rightarrow> Inl e
      | Inr (i, _, _) \<Rightarrow>
          (case got of
             Some Committed \<Rightarrow> Inr i
           | Some LeadershipLost \<Rightarrow> Inl ErrLeadershipLost
           | None \<Rightarrow> Inl ErrCtx))"

text \<open>The end of \<open>write\<close>: \<open>n\<close> is the node when the leader's address is read.\<close>

definition writeReply :: "raftError + uint64 \<Rightarrow> node \<Rightarrow> raftError + WriteReply" where
  "writeReply res n =
     (case res of
        Inr index \<Rightarrow> Inr \<lparr>wrSuccess = True, wrRedirectLeader = '''', wrCommitIndex = index\<rparr>
      | Inl e \<Rightarrow>
          if e = ErrNotLeader \<or> e = ErrLeadershipLost
          then Inr \<lparr>wrSuccess = False, wrRedirectLeader = LeaderAddress n, wrCommitIndex = 0\<rparr>
          else Inl e)"

text \<open>
  \<open>write\<close>: the node at the start and the outcome of the wait; the third component is the node
  right after the entry was appended. \<open>marshal\<close> may fail.
\<close>

definition serverWrite :: "(KVCommand \<Rightarrow> bytes option) \<Rightarrow> env \<Rightarrow> KVOp \<Rightarrow> string \<Rightarrow> string \<Rightarrow> node \<Rightarrow> notice option \<Rightarrow> node
    \<Rightarrow> (raftError + WriteReply) \<times> node" where
  "serverWrite marshal ev op key value n got n' =
     (case marshal \<lparr>cmdOp = op, cmdKey = key, cmdValue = value\<rparr> of
        None \<Rightarrow> (Inl ErrMarshal, n)
      | Some payload \<Rightarrow>
          (case proposeBegin ev payload n of (begun, n1) \<Rightarrow> (writeReply (proposeResult begun got) n', n1)))"

text \<open>
  The whole of \<open>write\<close>, with the \<open>select\<close> in which \<open>ProposeSync\<close> waits: \<open>m\<close> is the node when one of its cases is taken, the end of the
  context (\<open>ctxDone\<close>) or a notice in the channel, and without either the call is still waiting. The
  result is the reply and the node after the first and after the second critical section; a call that returns early has none.
\<close>

definition writeSelect :: "bool \<Rightarrow> uint64 \<Rightarrow> nat \<Rightarrow> node \<Rightarrow> (notice option \<times> node) option" where
  "writeSelect ctxDone i ch m =
     (if ctxDone then Some (None, proposeCancel i m)
      else (case proposeReceive ch m of (None, _) \<Rightarrow> None | (Some v, m1) \<Rightarrow> Some (Some v, m1)))"

definition serverWriteRun :: "(KVCommand \<Rightarrow> bytes option) \<Rightarrow> env \<Rightarrow> KVOp \<Rightarrow> string \<Rightarrow> string \<Rightarrow> node \<Rightarrow> bool \<Rightarrow> node \<Rightarrow> node
    \<Rightarrow> ((raftError + WriteReply) \<times> node \<times> node) option" where
  "serverWriteRun marshal ev op key value n ctxDone m n' =
     (case marshal \<lparr>cmdOp = op, cmdKey = key, cmdValue = value\<rparr> of
        None \<Rightarrow> Some (Inl ErrMarshal, n, m)
      | Some payload \<Rightarrow>
          (case proposeBegin ev payload n of
             (Inl e, n1) \<Rightarrow> Some (writeReply (Inl e) n', n1, m)
           | (Inr (i, t, ch), n1) \<Rightarrow>
               map_option (\<lambda>(got, m1). (writeReply (proposeResult (Inr (i, t, ch)) got) n', n1, m1)) (writeSelect ctxDone i ch m)))"

definition Put :: "(KVCommand \<Rightarrow> bytes option) \<Rightarrow> env \<Rightarrow> PutRequest \<Rightarrow> node \<Rightarrow> notice option \<Rightarrow> node \<Rightarrow> (raftError + WriteReply) \<times> node" where
  "Put marshal ev req = serverWrite marshal ev PUT (prKey req) (prValue req)"

definition Update :: "(KVCommand \<Rightarrow> bytes option) \<Rightarrow> env \<Rightarrow> PutRequest \<Rightarrow> node \<Rightarrow> notice option \<Rightarrow> node \<Rightarrow> (raftError + WriteReply) \<times> node" where
  "Update marshal ev req = serverWrite marshal ev UPDATE (prKey req) (prValue req)"

definition Delete :: "(KVCommand \<Rightarrow> bytes option) \<Rightarrow> env \<Rightarrow> DeleteRequest \<Rightarrow> node \<Rightarrow> notice option \<Rightarrow> node \<Rightarrow> (raftError + WriteReply) \<times> node" where
  "Delete marshal ev req = serverWrite marshal ev DELETE (drKey req) ''''"

section \<open>Reads\<close>

text \<open>
  \<open>Get\<close>: the node when its role is read, when the handshake starts and when the leader's answer
  arrives, the answer, the wait, the node when the leader's address is read and the one whose state
  machine is read. \<open>None\<close>: still waiting.
\<close>

definition serverGet :: "(bytes \<Rightarrow> KVCommand option) \<Rightarrow> GetRequest \<Rightarrow> node \<Rightarrow> node \<Rightarrow> ReadIndexReply option \<Rightarrow> node \<Rightarrow>
    waitEvent list \<Rightarrow> node \<Rightarrow> node \<Rightarrow> GetReply option" where
  "serverGet unmarshal req ns n0 reply n1 evs nl nr =
     (let answer = (case Get (machine unmarshal nr) (grKey req) of
          (value, found) \<Rightarrow> \<lparr>grFound = found, grValue = value, grRedirectLeader = '''', grOk = True\<rparr>)
      in if fst (Status ns) \<noteq> Leader then
           (case fst (FollowerLinearizableRead n0 reply n1 evs) of
              None \<Rightarrow> None
            | Some (Some e) \<Rightarrow> Some \<lparr>grFound = False, grValue = '''', grRedirectLeader = LeaderAddress nl, grOk = False\<rparr>
            | Some None \<Rightarrow> Some answer)
         else Some answer)"

section \<open>The machine and the log\<close>

lemma runOps_apply: "fold (runOp um) (map applyOp es) kv = applyCommands um (map Command es) kv"
  by (induction es arbitrary: kv) (simp_all add: runOp_def applyOp_def applyCommands_def)

lemma machine_log:
  assumes "cluster_ok M C" "creach M C c" "a \<in> set M"
  shows "machine um (nodeAt c a) = applyCommands um (map Command (take (commitIndex (nodeAt c a)) (log (nodeAt c a)))) New"
proof -
  from sim_two [OF assms(1,2) rtranclp.rtrancl_refl] obtain s where "sim M C c s" by metis
  from sim_log(4) [OF assms(1) this assms(3)] show ?thesis by (simp add: machine_def appliedEntries_def runOps_apply)
qed

section \<open>Properties\<close>

text \<open>
  The contents a node serves are the replay of the committed prefix of its log on an empty
  store, in every state the cluster can reach.
\<close>

theorem machine_is_committed_log:
  assumes "cluster_ok M C" "creach M C c" "a \<in> set M"
  shows "machine unmarshal (nodeAt c a) = applyCommands unmarshal (map Command (take (commitIndex (nodeAt c a)) (log (nodeAt c a)))) New"
  by (rule machine_log [OF assms])

definition demoUnmarshal :: "bytes \<Rightarrow> KVCommand option" where
  "demoUnmarshal bs = (if bs = [7] then Some \<lparr>cmdOp = PUT, cmdKey = ''k'', cmdValue = ''v''\<rparr> else None)"

theorem machine_is_committed_log_witness:
  "machine demoUnmarshal (nodeAt dc9 ''b'') = \<lparr>kvData = [''k'' \<mapsto> ''v'']\<rparr>"
  using machine_is_committed_log [OF demo_ok demo_reach(2) demo_members(2), of demoUnmarshal]
  by (simp add: applyCommands_def applyCommand_def demoUnmarshal_def Apply_def New_def)

text \<open>
  C7: Replicas agree. Any two nodes, at any two moments of a run, that have committed equally many entries
  hold the same contents.
\<close>

theorem replicas_agree:
  assumes "cluster_ok M C" "creach M C c" "(cstep M C)\<^sup>*\<^sup>* c c'" "a \<in> set M" "b \<in> set M"
    "commitIndex (nodeAt c a) = commitIndex (nodeAt c' b)"
  shows "machine unmarshal (nodeAt c a) = machine unmarshal (nodeAt c' b)"
proof -
  from sim_two [OF assms(1-3)] obtain s s' where s: "sim M C c s" "sim M C c' s'" by metis
  have r: "creach M C c'" using assms(2,3) unfolding creach_def by (meson rtranclp_trans)
  have "length (appliedEntries c a) = length (appliedEntries c' b)"
    using sim_log(4) [OF assms(1) s(1) assms(4)] sim_log(4) [OF assms(1) s(2) assms(5)] assms(6)
      positional_log(2) [OF assms(1,2,4)] positional_log(2) [OF assms(1) r assms(5)] by simp
  with applied_comparable [OF assms(1-5)] have "appliedEntries c a = appliedEntries c' b"
    by (auto simp: prefix_def)
  then show ?thesis by (simp add: machine_def appliedEntries_def)
qed

theorem replicas_agree_witness:
  "creach demoMembers demoConfig dc7 \<and> commitIndex (nodeAt dc7 ''a'') = 1 \<and> commitIndex (nodeAt dc9 ''b'') = 1 \<and>
   machine demoUnmarshal (nodeAt dc7 ''a'') = machine demoUnmarshal (nodeAt dc9 ''b'')"
  using replicas_agree [OF demo_ok demo_reach(1) demo_steps(2) demo_members, of demoUnmarshal] demo_reach(1) by simp

lemma write_applied:
  assumes "local_ok {} n" "lastApplied n \<le> lastLogIndexLocked n" "marshal \<lparr>cmdOp = op, cmdKey = key, cmdValue = value\<rparr> = Some payload"
    "proposeBegin ev payload n = (Inr (i, t, ch), n1)" "lstep\<^sup>*\<^sup>* n1 n'"
    "fst (serverWrite marshal ev op key value n (fst (proposeReceive ch n')) nl) = Inr reply" "wrSuccess reply"
  shows "role n = Leader \<and> wrCommitIndex reply = i \<and> ApplyFn \<lparr>msgIndex = i, msgTerm = t, msgCommand = payload\<rparr> \<in> set (smOps n')"
proof -
  have w: "writeReply (proposeResult (Inr (i, t, ch)) (fst (proposeReceive ch n'))) nl = Inr reply"
    using assms(3,4,6) by (simp add: serverWrite_def)
  then have "fst (proposeReceive ch n') = Some Committed" "wrCommitIndex reply = i"
    using assms(7) by (auto simp: writeReply_def proposeResult_def split: option.splits notice.splits)
  moreover from this(1) have "Committed \<in> set (chans n' ch)" by (auto simp: proposeReceive_def split: list.splits)
  from notice_applied [OF assms(1,2,4,5) this] have "ApplyFn \<lparr>msgIndex = i, msgTerm = t, msgCommand = payload\<rparr> \<in> set (smOps n')" .
  moreover have "role n = Leader" using assms(4) by (auto simp: proposeBegin_def split: if_splits)
  ultimately show ?thesis by simp
qed

text \<open>
  C9: A write that is reported as successful was appended by a leader at the reported index, and by then exactly
  its command has been handed to the state machine.
\<close>

theorem write_success_applied:
  assumes "local_ok {} n" "lastApplied n \<le> lastLogIndexLocked n" "marshal \<lparr>cmdOp = op, cmdKey = key, cmdValue = value\<rparr> = Some payload"
    "proposeBegin ev payload n = (Inr (i, t, ch), n1)" "lstep\<^sup>*\<^sup>* n1 n'"
    "fst (serverWrite marshal ev op key value n (fst (proposeReceive ch n')) nl) = Inr reply" "wrSuccess reply"
  shows "role n = Leader \<and> wrCommitIndex reply = i \<and> ApplyFn \<lparr>msgIndex = i, msgTerm = t, msgCommand = payload\<rparr> \<in> set (smOps n')"
  by (rule write_applied [OF assms])

definition nineMarshal :: "KVCommand \<Rightarrow> bytes option" where
  "nineMarshal cmd = Some [9]"

theorem write_success_applied_witness:
  "fst (serverWrite nineMarshal calm PUT ''k'' ''v'' demoHead (fst (proposeReceive 0 demoDone)) demoDone)
     = Inr \<lparr>wrSuccess = True, wrRedirectLeader = '''', wrCommitIndex = 4\<rparr> \<and>
   ApplyFn \<lparr>msgIndex = 4, msgTerm = 1, msgCommand = [9]\<rparr> \<in> set (smOps demoDone)"
proof -
  have l: "lastApplied demoHead \<le> lastLogIndexLocked demoHead"
    by (simp add: demoHead_def demoReplica_eq lastLogIndexLocked_def demoLog_def)
  have w: "fst (serverWrite nineMarshal calm PUT ''k'' ''v'' demoHead (fst (proposeReceive 0 demoDone)) demoDone)
      = Inr \<lparr>wrSuccess = True, wrRedirectLeader = '''', wrCommitIndex = 4\<rparr>"
    by (simp add: serverWrite_def nineMarshal_def demoCall_eq(1) proposeReceive_def demoDone_eq(4) proposeResult_def writeReply_def)
  from write_success_applied [OF demo_local(1) l _ demoCall_eq(1) r_into_rtranclp w, OF _ demo_local(3)] w
  show ?thesis by (simp add: nineMarshal_def)
qed

text \<open>Both views of a write agree on its reply.\<close>

lemma serverWriteRun_reply:
  assumes "serverWriteRun marshal ev op key value n ctxDone m nl = Some (res, n1, m1)"
  shows "\<exists>got. serverWrite marshal ev op key value n got nl = (res, n1)"
proof (cases "marshal \<lparr>cmdOp = op, cmdKey = key, cmdValue = value\<rparr>")
  case (Some payload)
  obtain begun n2 where b: "proposeBegin ev payload n = (begun, n2)" by force
  show ?thesis
  proof (cases begun)
    case (Inl e)
    then show ?thesis using assms Some b by (simp add: serverWriteRun_def serverWrite_def proposeResult_def)
  next
    case (Inr p)
    obtain i t ch where p: "p = (i, t, ch)" by (metis prod_cases3)
    from assms Some b Inr p obtain got where "writeSelect ctxDone i ch m = Some (got, m1)"
      "res = writeReply (proposeResult begun got) nl" "n1 = n2" by (auto simp: serverWriteRun_def)
    then show ?thesis using Some b by (intro exI [of _ got]) (simp add: serverWrite_def)
  qed
qed (use assms in \<open>simp add: serverWriteRun_def serverWrite_def\<close>)

lemma begin_leader:
  assumes "role n = Leader" "ioAppend ev = NoFault"
  shows "\<exists>n1. proposeBegin ev payload n = (Inr (lastLogIndexLocked n + 1, currentTerm n, nextChan n), n1) \<and>
    log n1 = log n @ [\<lparr>Term = currentTerm n, Index = lastLogIndexLocked n + 1, Command = payload\<rparr>] \<and>
    map_of (waiters n1) (lastLogIndexLocked n + 1) = Some (nextChan n)"
  using assms by (simp add: proposeBegin_def appendLocalLocked_def appendToLog_def AppendLogEntries_def Let_def)

lemma begin_fault:
  assumes "role n = Leader" "ioAppend ev \<noteq> NoFault"
  shows "\<exists>d. proposeBegin ev payload n = (Inl (ErrPersist IOError), n\<lparr>dir := d\<rparr>)"
proof -
  have "\<exists>d. AppendLogEntries (ioAppend ev) [e] (dir n) = (Some IOError, d)" for e
    using assms(2) by (cases "ioAppend ev") (auto simp: AppendLogEntries_def)
  then obtain d where "AppendLogEntries (ioAppend ev) [\<lparr>Term = currentTerm n, Index = lastLogIndexLocked n + 1, Command = payload\<rparr>] (dir n)
      = (Some IOError, d)" by blast
  then show ?thesis using assms(1) by (auto simp: proposeBegin_def appendLocalLocked_def appendToLog_def)
qed

text \<open>A call that has returned is not registered any more, however it ended.\<close>

lemma select_ends:
  assumes "chans_ok m" "call_ok i t ch e m" "writeSelect ctxDone i ch m = Some (got, m1)"
  shows "(if ctxDone then got = None \<and> m1 = m\<lparr>waiters := gm_del i (waiters m)\<rparr> else \<exists>v. chans m ch = [v] \<and> got = Some v) \<and>
    ch < nextChan m1 \<and> ch \<notin> snd ` set (waiters m1)"
proof (cases ctxDone)
  case True
  have "ch \<notin> snd ` set (gm_del i (waiters m))"
    using assms(2) chan_unique [OF chansD(2) [OF assms(1)], of i ch] by (auto simp: call_ok_def set_gm_del rev_image_eqI)
  with True assms(2,3) show ?thesis by (auto simp: writeSelect_def proposeCancel_def call_ok_def)
next
  case False
  then obtain v vs where v: "chans m ch = v # vs" "got = Some v" "m1 = m\<lparr>chans := (chans m)(ch := vs)\<rparr>"
    using assms(3) by (auto simp: writeSelect_def proposeReceive_def split: list.splits)
  have "vs = []" using chansD(6) [OF assms(1), of ch] v(1) by simp
  moreover have "ch \<notin> snd ` set (waiters m)" using v(1) chansD(4) [OF assms(1)] by fastforce
  ultimately show ?thesis using False v assms(2) by (simp add: call_ok_def)
qed

text \<open>
  C26: Every end of a write. A command that cannot be encoded is an error before the node is touched; a node that is not the leader keeps
  its state and redirects; a failing disk is an error that leaves the node, apart from its directory, as it was. Otherwise the entry is
  appended and the call registered under its index. Then the end of the context is an error that removes the registration and changes nothing
  else, so that the entry stays in the log with its outcome open; a lost leadership redirects; and success is reported exactly for a notice
  of commitment, when the command has been applied. Whichever it was, the call's channel is not registered at any later time.
\<close>

theorem write_failures:
  assumes "local_ok {} n" "lastApplied n \<le> lastLogIndexLocked n"
    "serverWriteRun marshal ev op key value n ctxDone m nl = Some (res, n1, m1)" "lstep\<^sup>*\<^sup>* n1 m"
  shows "case marshal \<lparr>cmdOp = op, cmdKey = key, cmdValue = value\<rparr> of
      None \<Rightarrow> res = Inl ErrMarshal \<and> n1 = n \<and> m1 = m
    | Some payload \<Rightarrow>
        if role n \<noteq> Leader then res = Inr \<lparr>wrSuccess = False, wrRedirectLeader = LeaderAddress nl, wrCommitIndex = 0\<rparr> \<and> n1 = n \<and> m1 = m
        else if ioAppend ev \<noteq> NoFault then res = Inl (ErrPersist IOError) \<and> (\<exists>d. n1 = n\<lparr>dir := d\<rparr>) \<and> m1 = m
        else (let i = lastLogIndexLocked n + 1; ch = nextChan n; e = \<lparr>Term = currentTerm n, Index = i, Command = payload\<rparr>
              in log n1 = log n @ [e] \<and> map_of (waiters n1) i = Some ch \<and>
                (if ctxDone then res = Inl ErrCtx \<and> m1 = m\<lparr>waiters := gm_del i (waiters m)\<rparr>
                 else chans m ch = [Committed] \<and> applyOp e \<in> set (smOps m) \<and>
                        res = Inr \<lparr>wrSuccess = True, wrRedirectLeader = '''', wrCommitIndex = i\<rparr> \<or>
                      chans m ch = [LeadershipLost] \<and>
                        res = Inr \<lparr>wrSuccess = False, wrRedirectLeader = LeaderAddress nl, wrCommitIndex = 0\<rparr>) \<and>
                (\<forall>k. lstep\<^sup>*\<^sup>* m1 k \<longrightarrow> ch \<notin> snd ` set (waiters k)))"
proof (cases "marshal \<lparr>cmdOp = op, cmdKey = key, cmdValue = value\<rparr>")
  case None
  then show ?thesis using assms(3) by (simp add: serverWriteRun_def)
next
  case (Some payload)
  consider "role n \<noteq> Leader" | "role n = Leader" "ioAppend ev \<noteq> NoFault" | "role n = Leader" "ioAppend ev = NoFault" by blast
  then show ?thesis
  proof cases
    case 1
    then show ?thesis using assms(3) Some by (simp add: serverWriteRun_def proposeBegin_def writeReply_def)
  next
    case 2
    then show ?thesis using assms(3) Some begin_fault [of n ev payload] by (auto simp: serverWriteRun_def writeReply_def)
  next
    case 3
    let ?i = "lastLogIndexLocked n + 1" and ?e = "\<lparr>Term = currentTerm n, Index = lastLogIndexLocked n + 1, Command = payload\<rparr>"
    from begin_leader [OF 3, of payload] obtain n2 where b: "proposeBegin ev payload n = (Inr (?i, currentTerm n, nextChan n), n2)"
      "log n2 = log n @ [?e]" "map_of (waiters n2) ?i = Some (nextChan n)" by blast
    obtain got where g: "writeSelect ctxDone ?i (nextChan n) m = Some (got, m1)"
      "res = writeReply (proposeResult (Inr (?i, currentTerm n, nextChan n)) got) nl" "n1 = n2"
      using assms(3) Some b(1) by (auto simp: serverWriteRun_def)
    have "local_ok {(?i, currentTerm n, nextChan n, ?e)} m" using lo_run [OF assms(4)] lo_begin(2) [OF assms(1) b(1) refl assms(2)] g(3) by simp
    then have ok: "chans_ok m" "call_ok ?i (currentTerm n) (nextChan n) ?e m" by (simp_all add: local_ok_def)
    note s = select_ends [OF ok g(1)]
    have "\<forall>k. lstep\<^sup>*\<^sup>* m1 k \<longrightarrow> nextChan n \<notin> snd ` set (waiters k)" using retired s by blast
    moreover have "applyOp ?e \<in> set (smOps m)" if "chans m (nextChan n) = [Committed]"
      using ok(2) that chansD(4) [OF ok(1), of ?i "nextChan n"] by (auto simp: call_ok_def)
    moreover have "v = Committed \<or> v = LeadershipLost" for v by (cases v) auto
    ultimately show ?thesis using Some 3 b(2,3) g(2,3) s
      by (cases ctxDone) (auto simp: Let_def writeReply_def proposeResult_def split: notice.splits)
  qed
qed

theorem write_failures_witness:
  "\<exists>m1. serverWriteRun nineMarshal calm PUT ''k'' ''v'' demoHead True demoCall demoCall = Some (Inl ErrCtx, demoCall, m1) \<and>
     map_of (waiters demoCall) 4 = Some 0 \<and> m1 = demoCall\<lparr>waiters := []\<rparr> \<and> lstep\<^sup>*\<^sup>* m1 m1 \<and> 0 \<notin> snd ` set (waiters m1)"
proof -
  have l: "lastApplied demoHead \<le> lastLogIndexLocked demoHead" "lastLogIndexLocked demoHead = 3" "nextChan demoHead = 0" "role demoHead = Leader"
    "waiters demoCall = [(4, 0)]"
    by (simp_all add: demoHead_def demoReplica_eq lastLogIndexLocked_def demoLog_def demoCall_eq(2))
  have r: "serverWriteRun nineMarshal calm PUT ''k'' ''v'' demoHead True demoCall demoCall = Some (Inl ErrCtx, demoCall, proposeCancel 4 demoCall)"
    by (simp add: serverWriteRun_def nineMarshal_def demoCall_eq(1) writeSelect_def proposeResult_def writeReply_def)
  from write_failures [OF demo_local(1) l(1) r rtranclp.rtrancl_refl] have "proposeCancel 4 demoCall = demoCall\<lparr>waiters := gm_del 4 [(4, 0)]\<rparr>"
    by (simp add: nineMarshal_def l calm_def Let_def)
  then show ?thesis using r l(5) by (simp add: gm_del_def)
qed

text \<open>
  C25: A read on a node that is not the leader is answered from its state machine only after the handshake has
  succeeded: an answer marked valid means the leader confirmed an index and the node had applied it,
  or the node had become leader; everything else is a redirect marked invalid.
\<close>

theorem get_needs_handshake:
  assumes "serverGet unmarshal req ns n0 reply n1 evs nl nr = Some r" "role ns \<noteq> Leader"
  shows "(grOk r \<longrightarrow> (role n0 = Leader \<or> (\<exists>rr n. reply = Some rr \<and> riOk rr \<and> Looked n \<in> set evs \<and> riReadIndex rr \<le> lastApplied n)) \<and>
      (grValue r, grFound r) = Get (machine unmarshal nr) (grKey req)) \<and>
    (\<not> grOk r \<longrightarrow> r = \<lparr>grFound = False, grValue = '''', grRedirectLeader = LeaderAddress nl, grOk = False\<rparr>)"
proof -
  have f: "fst (FollowerLinearizableRead n0 reply n1 evs) = Some None \<Longrightarrow>
      role n0 = Leader \<or> (\<exists>rr n. reply = Some rr \<and> riOk rr \<and> Looked n \<in> set evs \<and> riReadIndex rr \<le> lastApplied n)"
    using waitForApplied_ok
    by (fastforce simp: FollowerLinearizableRead_def followerReadBegin_def followerReadReply_def followerReadWait_def
        split: if_splits option.splits)
  show ?thesis using assms f
    by (auto simp: serverGet_def Status_def Let_def split: option.splits prod.splits)
qed

theorem get_needs_handshake_witness:
  "serverGet demoUnmarshal \<lparr>grKey = ''k''\<rparr> demoApplier demoApplier (Some \<lparr>riOk = True, riReadIndex = 1, riRedirectLeader = ''''\<rparr>) demoApplier
     [Looked demoApplier] demoApplier demoApplier = Some \<lparr>grFound = True, grValue = ''v'', grRedirectLeader = '''', grOk = True\<rparr> \<and>
   (''v'', True) = Get (machine demoUnmarshal demoApplier) ''k''"
proof -
  have d: "role demoApplier = Follower" "currentLeader demoApplier = ''a''" "lastApplied demoApplier = 1"
    by (simp_all add: demoApplier_eq demoFollower_eq demoVoter_eq demoNode_eq)
  have m: "Get (machine demoUnmarshal demoApplier) ''k'' = (''v'', True)"
    by (simp add: machine_def runOp_def applyOp_def applyCommand_def demoUnmarshal_def Apply_def New_def Get_def)
  have s: "serverGet demoUnmarshal \<lparr>grKey = ''k''\<rparr> demoApplier demoApplier (Some \<lparr>riOk = True, riReadIndex = 1, riRedirectLeader = ''''\<rparr>) demoApplier
     [Looked demoApplier] demoApplier demoApplier = Some \<lparr>grFound = True, grValue = ''v'', grRedirectLeader = '''', grOk = True\<rparr>"
    by (simp add: serverGet_def Status_def d FollowerLinearizableRead_def followerReadBegin_def followerReadReply_def followerReadWait_def
        waitTurn_def m)
  from get_needs_handshake [OF s] d s show ?thesis by simp
qed

section \<open>Reads on a new leader\<close>

lemma late_nodes: "nodeAt dcC ''a'' = demoCommitter" "nodeAt dcC ''b'' = lateLeader" "creach demoMembers demoConfig dcC"
  "smOps lateLeader = []" "role lateLeader = Leader"
proof -
  show "nodeAt dcC ''a'' = demoCommitter" "nodeAt dcC ''b'' = lateLeader" by (simp_all add: dcC_def dcB_def dcA_def setNode_def)
  show "creach demoMembers demoConfig dcC" using demo_start demo_steps(1) late_run unfolding creach_def by (meson rtranclp_trans)
  show "smOps lateLeader = []" by (simp add: lateLeader_eq lateCandidate_def late_defs numeral_2_eq_2)
  show "role lateLeader = Leader" by (simp add: lateLeader_eq)
qed

text \<open>
  C38: A leader answers reads from its own state machine at once, and a new leader may not have applied what was
  acknowledged before. In a reachable state of a healthy cluster the first node has applied, and acknowledged, a
  write of a key; the second node leads a later term, holds the entry in its log, and
  answers a read of the key, as valid, with not found.
\<close>

theorem leader_read_misses_write:
  "creach demoMembers demoConfig dcC \<and> appliedEntries dcC ''a'' = [applyOp seven] \<and>
   Get (machine demoUnmarshal (nodeAt dcC ''a'')) ''k'' = (''v'', True) \<and> role (nodeAt dcC ''b'') = Leader \<and>
   serverGet demoUnmarshal \<lparr>grKey = ''k''\<rparr> (nodeAt dcC ''b'') n0 reply n1 evs nl (nodeAt dcC ''b'')
     = Some \<lparr>grFound = False, grValue = '''', grRedirectLeader = '''', grOk = True\<rparr>"
proof -
  have "serverGet demoUnmarshal \<lparr>grKey = ''k''\<rparr> lateLeader n0 reply n1 evs nl lateLeader
     = Some \<lparr>grFound = False, grValue = '''', grRedirectLeader = '''', grOk = True\<rparr>"
    by (simp add: serverGet_def Status_def late_nodes(4,5) machine_def New_def Get_def)
  moreover have "Get (machine demoUnmarshal demoCommitter) ''k'' = (''v'', True)"
    by (simp add: machine_def runOp_def applyOp_def applyCommand_def demoUnmarshal_def Apply_def New_def Get_def)
  ultimately show ?thesis using late_nodes by (simp add: appliedEntries_def)
qed

end
