(* ===== verification/Snapshot_Service.thy ===== *)
theory Snapshot_Service
  imports KV_Server
begin

text \<open>
  The snapshot and backup process: its replica of the state machine (\<open>internal/snapshot/store.go\<close>), the
  polling and compaction cycle (\<open>compaction.go\<close>), the catalog it serves (\<open>catalog_server.go\<close>) and the two
  gRPC clients at its edges (\<open>transferclient.go\<close>, \<open>internal/snapshotcatalogclient\<close>).

  A cycle talks to other processes several times. What they answer is an argument, \<open>None\<close> being a
  failed call; the confirmation the cycle sends is part of its result.
\<close>

section \<open>The store\<close>

record Store =
  storeDir :: datadir
  storeState :: KV
  storeIndex :: uint64
  storeTerm :: uint64
  storeAvailable :: bool
  storePath :: string

definition NewStore :: "datadir \<Rightarrow> perror + Store" where
  "NewStore d =
     (case Latest d of
        Inl e \<Rightarrow> Inl e
      | Inr None \<Rightarrow> Inr \<lparr>storeDir = d, storeState = New, storeIndex = 0, storeTerm = 0, storeAvailable = False, storePath = ''''\<rparr>
      | Inr (Some (file, path)) \<Rightarrow>
          Inr \<lparr>storeDir = d, storeState = Restore (State file) New, storeIndex = LastIncludedIndex file,
               storeTerm = LastIncludedTerm file, storeAvailable = True, storePath = path\<rparr>)"

definition storeLatest :: "Store \<Rightarrow> uint64 \<times> uint64 \<times> bool" where
  "storeLatest s = (storeIndex s, storeTerm s, storeAvailable s)"

definition storeFile :: "Store \<Rightarrow> File option" where
  "storeFile s =
     (if \<not> storeAvailable s then None
      else Some \<lparr>State = Snapshot (storeState s), LastIncludedIndex = storeIndex s, LastIncludedTerm = storeTerm s\<rparr>)"

text \<open>The loop stops at the first command that does not unmarshal; what it applied before stays.\<close>

fun storeApply :: "(bytes \<Rightarrow> KVCommand option) \<Rightarrow> PbLogEntry list \<Rightarrow> Store \<Rightarrow> bool \<times> Store" where
  "storeApply unmarshal [] s = (True, s)"
| "storeApply unmarshal (e # es) s =
     (case unmarshal (peCommand e) of
        None \<Rightarrow> (False, s)
      | Some cmd \<Rightarrow> storeApply unmarshal es (s\<lparr>storeState := Apply cmd (storeState s)\<rparr>))"

text \<open>\<open>flt\<close> is what happens to the write, \<open>rm\<close> to the removal of the previous file, whose failure is ignored.\<close>

definition storeCommit :: "fault \<Rightarrow> fault \<Rightarrow> (string \<times> string) list \<Rightarrow> uint64 \<Rightarrow> uint64 \<Rightarrow> Store \<Rightarrow> File option \<times> Store" where
  "storeCommit flt rm xs index tm s =
     (let file = \<lparr>State = Snapshot (storeState s), LastIncludedIndex = index, LastIncludedTerm = tm\<rparr>
      in case WriteFile flt xs file (storeDir s) of
           (Inl e, d) \<Rightarrow> (None, s\<lparr>storeDir := d\<rparr>)
         | (Inr newPath, d) \<Rightarrow>
             (let old = storePath s
              in (Some file, s\<lparr>storePath := newPath, storeIndex := index, storeTerm := tm, storeAvailable := True,
                    storeDir := (if old \<noteq> '''' \<and> old \<noteq> newPath then removeFile rm old d else d)\<rparr>)))"

section \<open>The transfer client\<close>

text \<open>The receive loop: the entries of the stream, or nothing when it ends with an error.\<close>

definition recvEntries :: "raftError option \<times> PbLogEntry list \<Rightarrow> PbLogEntry list option" where
  "recvEntries stream = (case fst stream of None \<Rightarrow> Some (snd stream) | Some _ \<Rightarrow> None)"

section \<open>The compaction cycle\<close>

record CompactorConfig =
  PollInterval :: int
  RPCTimeout :: int
  CompactionThresholdPercent :: uint64
  ConcurrencyGuardPercent :: uint64

record Compactor =
  store :: Store
  compactorCfg :: CompactorConfig
  compacting :: bool

definition cycleRange :: "LogStatusReply \<Rightarrow> Store \<Rightarrow> LogRangeRequest option" where
  "cycleRange status s =
     (let lastBackedUp = fst (storeLatest s);
          from0 = u64 (lastBackedUp + 1);
          from = (if from0 < lsFirstIndex status then lsFirstIndex status else from0);
          to = lsLastIndex status
      in if to < from then None else Some \<lparr>lrFromIndex = from, lrToIndex = to\<rparr>)"

text \<open>
  \<open>streamed\<close> answers the range request, \<open>view\<close> is the leader's address after the download; \<open>xs\<close> and
  \<open>ys\<close> are the orders in which the map is written to the file and to the confirmation, \<open>flt\<close> and \<open>rm\<close> what
  happens when the file is written and when the one it replaces is removed. The
  first component is the confirmation sent to the leader.
\<close>

definition runCycle :: "(bytes \<Rightarrow> KVCommand option) \<Rightarrow> fault \<Rightarrow> fault \<Rightarrow> (string \<times> string) list \<Rightarrow> (string \<times> string) list \<Rightarrow> addr \<Rightarrow> LogStatusReply
    \<Rightarrow> (LogRangeRequest \<Rightarrow> PbLogEntry list option) \<Rightarrow> addr option \<Rightarrow> Store \<Rightarrow> CompactionAck option \<times> Store" where
  "runCycle unmarshal flt rm xs ys leader status streamed view s =
     (case cycleRange status s of
        None \<Rightarrow> (None, s)
      | Some req \<Rightarrow>
          (case streamed req of
             None \<Rightarrow> (None, s)
           | Some entries \<Rightarrow>
               if entries = [] then (None, s)
               else (case storeApply unmarshal entries s of
                       (False, s1) \<Rightarrow> (None, s1)
                     | (True, s1) \<Rightarrow>
                         if view \<noteq> Some leader then (None, s1)
                         else (case storeCommit flt rm xs (peIndex (last entries)) (peTerm (last entries)) s1 of
                                 (None, s2) \<Rightarrow> (None, s2)
                               | (Some file, s2) \<Rightarrow>
                                   (Some \<lparr>caTruncatedUpToIndex = peIndex (last entries), caStateMachineSnapshot = Encode ys file\<rparr>, s2)))))"

text \<open>
  The decision of \<open>Tick\<close>: the leader and its status when a cycle starts. The flag is set under
  the lock before the cycle and cleared after it.
\<close>

definition tickBegin :: "addr option \<Rightarrow> (addr \<Rightarrow> LogStatusReply option) \<Rightarrow> Compactor \<Rightarrow> (addr \<times> LogStatusReply) option \<times> Compactor" where
  "tickBegin view statusOf c =
     (case view of
        None \<Rightarrow> (None, c)
      | Some leader \<Rightarrow>
          if leader = '''' then (None, c)
          else (case statusOf leader of
                  None \<Rightarrow> (None, c)
                | Some status \<Rightarrow>
                    if lsOccupancyPercent status < CompactionThresholdPercent (compactorCfg c) then (None, c)
                    else if ConcurrencyGuardPercent (compactorCfg c) \<le> lsOccupancyPercent status then (None, c)
                    else if compacting c then (None, c)
                    else (Some (leader, status), c\<lparr>compacting := True\<rparr>)))"

definition Tick :: "(bytes \<Rightarrow> KVCommand option) \<Rightarrow> fault \<Rightarrow> fault \<Rightarrow> (string \<times> string) list \<Rightarrow> (string \<times> string) list \<Rightarrow> addr option
    \<Rightarrow> (addr \<Rightarrow> LogStatusReply option) \<Rightarrow> (addr \<Rightarrow> LogRangeRequest \<Rightarrow> PbLogEntry list option) \<Rightarrow> addr option \<Rightarrow> Compactor
    \<Rightarrow> (addr \<times> CompactionAck) option \<times> Compactor" where
  "Tick unmarshal flt rm xs ys view statusOf streamOf view' c =
     (case tickBegin view statusOf c of
        (None, c1) \<Rightarrow> (None, c1)
      | (Some (leader, status), c1) \<Rightarrow>
          (case runCycle unmarshal flt rm xs ys leader status (streamOf leader) view' (store c1) of
             (conf, s) \<Rightarrow> (map_option (Pair leader) conf, c1\<lparr>store := s, compacting := False\<rparr>)))"

section \<open>The catalog\<close>

definition catalogInfo :: "Store \<Rightarrow> SnapshotInfo" where
  "catalogInfo s =
     (case storeLatest s of
        (index, tm, available) \<Rightarrow> \<lparr>siLastIncludedIndex = index, siLastIncludedTerm = tm, siAvailable = available\<rparr>)"

definition chunkSize :: nat where
  "chunkSize = 64 * 1024"

text \<open>The loop of \<open>FetchSnapshot\<close> from offset \<open>i\<close>.\<close>

function chunks :: "bytes \<Rightarrow> nat \<Rightarrow> SnapshotChunk list" where
  "chunks data i =
     (if i < length data
      then (let stop = (if length data < i + chunkSize then length data else i + chunkSize)
            in \<lparr>scData = drop i (take stop data), scIsLast = (stop = length data)\<rparr> # chunks data (i + chunkSize))
      else [])"
  by pat_completeness auto
termination
  by (relation "measure (\<lambda>(data, i). length data - i)") (auto simp: chunkSize_def)

declare chunks.simps [simp del]

datatype fetchError = NoSnapshot | SendFailed

text \<open>\<open>sendFails = Some k\<close>: the k-th send fails and ends the call with its error.\<close>

definition catalogFetch :: "(string \<times> string) list \<Rightarrow> nat option \<Rightarrow> Store \<Rightarrow> fetchError option \<times> SnapshotChunk list" where
  "catalogFetch xs sendFails s =
     (case storeFile s of
        None \<Rightarrow> (Some NoSnapshot, [])
      | Some file \<Rightarrow>
          (let cs = chunks (Encode xs file) 0
           in case sendFails of
                None \<Rightarrow> (None, cs)
              | Some k \<Rightarrow> if k < length cs then (Some SendFailed, take k cs) else (None, cs)))"

text \<open>The client's receive loop: it stops at the chunk marked last, at the end, or at an error.\<close>

fun recvChunks :: "fetchError option \<Rightarrow> SnapshotChunk list \<Rightarrow> bytes \<Rightarrow> bytes option" where
  "recvChunks err [] buf = (case err of None \<Rightarrow> Some buf | Some _ \<Rightarrow> None)"
| "recvChunks err (c # cs) buf = (if scIsLast c then Some (buf @ scData c) else recvChunks err cs (buf @ scData c))"

definition clientFetchSnapshot :: "fetchError option \<times> SnapshotChunk list \<Rightarrow> File option" where
  "clientFetchSnapshot stream =
     (case recvChunks (fst stream) (snd stream) [] of None \<Rightarrow> None | Some data \<Rightarrow> Decode data)"

section \<open>The replica follows the log\<close>

text \<open>The contents after the first \<open>k\<close> entries of a log, and the checkpoint of that moment.\<close>

definition replayed :: "(bytes \<Rightarrow> KVCommand option) \<Rightarrow> LogEntry list \<Rightarrow> nat \<Rightarrow> KV" where
  "replayed um es k = applyCommands um (map Command (take k es)) New"

definition checkpoint :: "(bytes \<Rightarrow> KVCommand option) \<Rightarrow> LogEntry list \<Rightarrow> nat \<Rightarrow> File" where
  "checkpoint um es k = \<lparr>State = kvData (replayed um es k), LastIncludedIndex = k, LastIncludedTerm = Term (es ! (k - 1))\<rparr>"

lemma storeApply_ok:
  "\<forall>e \<in> set es. um (peCommand e) \<noteq> None \<Longrightarrow>
    storeApply um es s = (True, s\<lparr>storeState := applyCommands um (map peCommand es) (storeState s)\<rparr>)"
  by (induction es arbitrary: s) (auto simp: applyCommands_def applyCommand_def)

lemma storeApply_fields [simp]:
  "storeIndex (snd (storeApply um es s)) = storeIndex s" "storeAvailable (snd (storeApply um es s)) = storeAvailable s"
  "storeDir (snd (storeApply um es s)) = storeDir s" "storePath (snd (storeApply um es s)) = storePath s"
  by (induction es arbitrary: s) (simp_all split: option.split)

text \<open>Replaying from a point already passed ends where a replay without the detour ends.\<close>

lemma replayed_again:
  assumes "s \<le> k" "k \<le> t"
  shows "applyCommands um (map Command (drop s (take t es))) (replayed um es k) = replayed um es t"
proof -
  have split: "take t es = take s es @ drop s (take t es)" if "s \<le> t" for s t
    using that by (metis append_take_drop_id min.absorb1 take_take)
  have "drop s (take t es) = drop s (take k es @ drop k (take t es))" using split [OF assms(2)] by simp
  also have "\<dots> = drop s (take k es) @ drop k (take t es)"
    using assms by (cases "k \<le> length es") (simp_all add: drop_append)
  finally have k: "drop s (take t es) = drop s (take k es) @ drop k (take t es)" .
  have r: "replayed um es k = applyCommands um (map Command (drop s (take k es))) (replayed um es s)"
    using split [OF assms(1)] by (metis applyCommands_append map_append replayed_def)
  have "applyCommands um (map Command (drop s (take t es))) (replayed um es k)
      = applyCommands um (map Command (drop s (take t es))) (replayed um es s)"
    unfolding k r map_append by (simp add: applyCommands_def wire.replay_absorbs)
  also have "\<dots> = replayed um es t"
    using split [of s t] assms by (metis applyCommands_append map_append replayed_def order.trans)
  finally show ?thesis .
qed

text \<open>The leader answers a range request behind index \<open>b\<close> with that part of the log, or not at all.\<close>

definition serves :: "uint64 \<Rightarrow> LogEntry list \<Rightarrow> (LogRangeRequest \<Rightarrow> PbLogEntry list option) \<Rightarrow> bool" where
  "serves b es streamed \<longleftrightarrow>
     (\<forall>req. b < lrFromIndex req \<and> lrToIndex req \<le> length es \<longrightarrow> streamed req = None \<or> streamed req = Some (map pbOfEntry (drop (lrFromIndex req - 1) (take (lrToIndex req) es))))"

lemma last_range: "positional 0 es \<Longrightarrow> s < t \<Longrightarrow> t \<le> length es \<Longrightarrow>
    last (map pbOfEntry (drop s (take t es))) = pbOfEntry (es ! (t - 1)) \<and> Index (es ! (t - 1)) = t"
  by (auto simp: last_map last_drop last_conv_nth positional_def)

lemma storeCommit_cases:
  obtains d where "storeCommit flt rm xs i t s = (None, s\<lparr>storeDir := d\<rparr>)"
    | d where "storeCommit flt rm xs i t s = (Some \<lparr>State = Snapshot (storeState s), LastIncludedIndex = i, LastIncludedTerm = t\<rparr>,
        s\<lparr>storePath := FileName i, storeIndex := i, storeTerm := t, storeAvailable := True, storeDir := d\<rparr>)"
proof (cases "fst (storeCommit flt rm xs i t s)")
  case None
  then show thesis by (intro that(1) [of "storeDir (snd (storeCommit flt rm xs i t s))"])
      (cases flt, auto simp: storeCommit_def WriteFile_def Let_def)
next
  case (Some f)
  then show thesis by (intro that(2) [of "storeDir (snd (storeCommit flt rm xs i t s))"])
      (cases flt, auto simp: storeCommit_def WriteFile_def Let_def)
qed

lemma cycle_run:
  assumes "positional 0 es" "\<forall>e \<in> set es. um (Command e) \<noteq> None" "length es < 2 ^ 64 - 1"
    "storeState s = replayed um es k" "storeIndex s \<le> k" "k \<le> lsLastIndex status" "lsLastIndex status \<le> length es"
    "lsFirstIndex status \<le> storeIndex s + 1" "serves (storeIndex s) es streamed"
  defines "t \<equiv> lsLastIndex status" and "req \<equiv> \<lparr>lrFromIndex = storeIndex s + 1, lrToIndex = lsLastIndex status\<rparr>"
  shows "runCycle um flt rm xs ys leader status streamed view s =
    (if t \<le> storeIndex s \<or> streamed req = None then (None, s)
     else if view \<noteq> Some leader then (None, s\<lparr>storeState := replayed um es t\<rparr>)
     else (case storeCommit flt rm xs t (Term (es ! (t - 1))) (s\<lparr>storeState := replayed um es t\<rparr>) of
             (None, s2) \<Rightarrow> (None, s2)
           | (Some file, s2) \<Rightarrow> (Some \<lparr>caTruncatedUpToIndex = t, caStateMachineSnapshot = Encode ys file\<rparr>, s2)))"
proof -
  let ?i = "storeIndex s"
  let ?es = "map pbOfEntry (drop ?i (take t es))"
  have u: "u64 (?i + 1) = ?i + 1" using assms(3,5-7) by (intro u64_id) simp
  have range: "cycleRange status s = (if t \<le> ?i then None else Some req)"
    unfolding cycleRange_def storeLatest_def Let_def fst_conv u t_def req_def using assms(8) by simp
  have um: "\<forall>e \<in> set ?es. um (peCommand e) \<noteq> None" using assms(2) by (auto simp: pbOfEntry_def dest!: in_set_dropD in_set_takeD)
  have cmds: "map peCommand ?es = map Command (drop ?i (take t es))" by (simp add: pbOfEntry_def)
  have ap: "storeApply um ?es s = (True, s\<lparr>storeState := replayed um es t\<rparr>)"
    unfolding storeApply_ok [OF um] cmds assms(4) using replayed_again [OF assms(5,6)] by (simp add: t_def)
  show ?thesis
  proof (cases "t \<le> ?i \<or> streamed req = None")
    case True
    then show ?thesis by (auto simp: runCycle_def range)
  next
    case False
    then have st: "streamed req = Some ?es" using assms(7) spec [OF assms(9) [unfolded serves_def], of req] by (auto simp: req_def t_def)
    have r: "cycleRange status s = Some req" using range False by simp
    have ne: "(?es = []) = False" using False assms(7) by (simp add: t_def)
    have l: "peIndex (last ?es) = t" "peTerm (last ?es) = Term (es ! (t - 1))"
      using last_range [OF assms(1), of ?i t] False assms(7) by (simp_all add: pbOfEntry_def t_def)
    have f: "(t \<le> ?i \<or> streamed req = None) = False" using False by simp
    show ?thesis unfolding f if_False unfolding runCycle_def r by (simp only: option.case st ne if_False ap prod.case bool.case l)
  qed
qed

text \<open>The ways a cycle can end when the leader serves the log \<open>es\<close>.\<close>

lemma cycle_cases:
  assumes "positional 0 es" "\<forall>e \<in> set es. um (Command e) \<noteq> None" "length es < 2 ^ 64 - 1"
    "storeState s = replayed um es k" "storeIndex s \<le> k" "k \<le> lsLastIndex status" "lsLastIndex status \<le> length es"
    "lsFirstIndex status \<le> storeIndex s + 1" "serves (storeIndex s) es streamed"
    "runCycle um flt rm xs ys leader status streamed view s = (conf, s')"
  obtains "conf = None" "s' = s"
    | d where "conf = None" "s' = s\<lparr>storeState := replayed um es (lsLastIndex status), storeDir := d\<rparr>" "storeIndex s < lsLastIndex status"
    | d where "storeIndex s < lsLastIndex status"
        "conf = Some \<lparr>caTruncatedUpToIndex = lsLastIndex status,
          caStateMachineSnapshot = Encode ys (checkpoint um es (lsLastIndex status))\<rparr>"
        "s' = s\<lparr>storeState := replayed um es (lsLastIndex status), storePath := FileName (lsLastIndex status),
          storeIndex := lsLastIndex status, storeTerm := Term (es ! (lsLastIndex status - 1)), storeAvailable := True, storeDir := d\<rparr>"
proof -
  let ?t = "lsLastIndex status" and ?req = "\<lparr>lrFromIndex = storeIndex s + 1, lrToIndex = lsLastIndex status\<rparr>"
  let ?s1 = "s\<lparr>storeState := replayed um es ?t\<rparr>"
  note run = assms(10) [unfolded cycle_run [OF assms(1-9)]]
  consider "?t \<le> storeIndex s \<or> streamed ?req = None" | "storeIndex s < ?t" "streamed ?req \<noteq> None" "view \<noteq> Some leader"
    | d where "storeIndex s < ?t" "streamed ?req \<noteq> None" "view = Some leader"
        "storeCommit flt rm xs ?t (Term (es ! (?t - 1))) ?s1 = (None, ?s1\<lparr>storeDir := d\<rparr>)"
    | d where "storeIndex s < ?t" "streamed ?req \<noteq> None" "view = Some leader"
        "storeCommit flt rm xs ?t (Term (es ! (?t - 1))) ?s1 = (Some (checkpoint um es ?t),
          ?s1\<lparr>storePath := FileName ?t, storeIndex := ?t, storeTerm := Term (es ! (?t - 1)), storeAvailable := True, storeDir := d\<rparr>)"
    using storeCommit_cases [of flt rm xs ?t "Term (es ! (?t - 1))" ?s1 thesis]
    by (cases "?t \<le> storeIndex s") (auto simp: checkpoint_def Snapshot_def)
  then show thesis
  proof cases
    case 1
    then show thesis using run by (intro that(1)) (auto split: if_splits)
  next
    case 2
    then show thesis using run by (intro that(2) [of "storeDir s"]) auto
  next
    case 3
    then show thesis using run by (intro that(2)) auto
  next
    case 4
    then show thesis using run by (intro that(3)) auto
  qed
qed

text \<open>Whatever ends a cycle, the replica stays a replay of the log.\<close>

lemma cycle_tracks:
  assumes "positional 0 es" "\<forall>e \<in> set es. um (Command e) \<noteq> None" "length es < 2 ^ 64 - 1"
    "storeState s = replayed um es k" "storeIndex s \<le> k" "k \<le> lsLastIndex status" "lsLastIndex status \<le> length es"
    "lsFirstIndex status \<le> storeIndex s + 1" "serves (storeIndex s) es streamed"
    "runCycle um flt rm xs ys leader status streamed view s = (conf, s')"
  shows "(\<exists>k'. k \<le> k' \<and> k' \<le> lsLastIndex status \<and> storeState s' = replayed um es k' \<and> storeIndex s' \<le> k')"
    "conf = Some a \<Longrightarrow> storeIndex s < lsLastIndex status \<and> storeIndex s' = lsLastIndex status \<and>
      storeFile s' = Some (checkpoint um es (lsLastIndex status)) \<and>
      a = \<lparr>caTruncatedUpToIndex = lsLastIndex status, caStateMachineSnapshot = Encode ys (checkpoint um es (lsLastIndex status))\<rparr>"
proof -
  show "(\<exists>k'. k \<le> k' \<and> k' \<le> lsLastIndex status \<and> storeState s' = replayed um es k' \<and> storeIndex s' \<le> k')"
    using assms(4-6) by (cases rule: cycle_cases [OF assms]) auto
  show "storeIndex s < lsLastIndex status \<and> storeIndex s' = lsLastIndex status \<and>
      storeFile s' = Some (checkpoint um es (lsLastIndex status)) \<and>
      a = \<lparr>caTruncatedUpToIndex = lsLastIndex status, caStateMachineSnapshot = Encode ys (checkpoint um es (lsLastIndex status))\<rparr>"
    if "conf = Some a"
    using that by (cases rule: cycle_cases [OF assms]) (simp_all add: storeFile_def checkpoint_def Snapshot_def)
qed

section \<open>The chunks of a snapshot\<close>

lemma chunks_received: "i < length data \<Longrightarrow> recvChunks err (chunks data i) buf = Some (buf @ drop i data)"
proof (induction data i arbitrary: buf rule: chunks.induct)
  case (1 data i)
  show ?case
  proof (cases "length data \<le> i + chunkSize")
    case True
    then show ?thesis using 1(2) by (subst chunks.simps) (auto simp: Let_def)
  next
    case False
    have "drop i (take (i + chunkSize) data) @ drop (i + chunkSize) data = drop i data"
      by (metis append_take_drop_id drop_drop add.commute take_drop)
    with False show ?thesis using 1 by (subst chunks.simps) (auto simp: Let_def)
  qed
qed

lemma chunks_bounded: "c \<in> set (chunks data i) \<Longrightarrow> length (scData c) \<le> chunkSize \<and> scData c \<noteq> []"
proof (induction data i rule: chunks.induct)
  case (1 data i)
  from 1(2) have i: "i < length data" by (subst (asm) chunks.simps) (auto split: if_splits)
  have "0 < chunkSize" by (simp add: chunkSize_def)
  with 1(2) i 1(1) [OF i refl] show ?case by (subst (asm) chunks.simps) (auto simp: Let_def split: if_splits)
qed

lemma fetched:
  assumes "storeFile s = Some f" "file_ok xs f"
  shows "clientFetchSnapshot (catalogFetch xs None s) = Some f \<and>
    (\<forall>c. c \<in> set (snd (catalogFetch xs None s)) \<longrightarrow> scData c \<noteq> [] \<and> length (scData c) \<le> chunkSize)"
proof -
  have "Encode xs f \<noteq> []" by (simp add: Encode_def fileTypeDef_def gobUint_def Let_def)
  then show ?thesis
    using assms chunks_received [of 0 "Encode xs f" None "[]"] chunks_bounded [of _ "Encode xs f" 0]
    by (auto simp: catalogFetch_def clientFetchSnapshot_def Decode_Encode [OF assms(2)] Let_def)
qed

text \<open>
  C28: A snapshot crosses the catalog unchanged. Every chunk is non-empty and at most \<open>chunkSize\<close> bytes, and
  what the client decodes from the chunks is exactly the store's checkpoint.
\<close>

theorem fetch_roundtrip:
  assumes "storeFile s = Some f" "file_ok xs f"
  shows "clientFetchSnapshot (catalogFetch xs None s) = Some f \<and>
    (\<forall>c. c \<in> set (snd (catalogFetch xs None s)) \<longrightarrow> scData c \<noteq> [] \<and> length (scData c) \<le> chunkSize)"
  by (rule fetched [OF assms])

theorem fetch_roundtrip_witness:
  "clientFetchSnapshot (catalogFetch [(''k'', ''v'')] None
     \<lparr>storeDir = demoDir, storeState = \<lparr>kvData = [''k'' \<mapsto> ''v'']\<rparr>, storeIndex = 2, storeTerm = 1, storeAvailable = True, storePath = ''''\<rparr>)
   = Some demoFile"
  using fetch_roundtrip [of "\<lparr>storeDir = demoDir, storeState = \<lparr>kvData = [''k'' \<mapsto> ''v'']\<rparr>, storeIndex = 2, storeTerm = 1,
      storeAvailable = True, storePath = ''''\<rparr>" demoFile "[(''k'', ''v'')]"] file_ok_demoFile
  by (simp add: storeFile_def demoFile_def Snapshot_def)

section \<open>Properties of the cycle\<close>

text \<open>
  C19: The replica follows the leader's log. If it is the replay of a prefix that reaches at least to its boundary, it
  still is after any cycle, also after one that was aborted in the middle and replays entries it had
  already applied; and a confirmation is sent only with the checkpoint of the log at the index it names.
\<close>

theorem backup_replays_log:
  assumes "positional 0 es" "\<forall>e \<in> set es. unmarshal (Command e) \<noteq> None" "length es < 2 ^ 64 - 1"
    "storeState s = replayed unmarshal es k" "storeIndex s \<le> k" "k \<le> lsLastIndex status" "lsLastIndex status \<le> length es"
    "lsFirstIndex status \<le> storeIndex s + 1" "serves (storeIndex s) es streamed"
    "runCycle unmarshal flt rm xs ys leader status streamed view s = (conf, s')"
  shows "(\<exists>k'. k \<le> k' \<and> k' \<le> lsLastIndex status \<and> storeState s' = replayed unmarshal es k' \<and> storeIndex s' \<le> k') \<and>
    (conf \<noteq> None \<longrightarrow> storeFile s' = Some (checkpoint unmarshal es (lsLastIndex status)) \<and>
       conf = Some \<lparr>caTruncatedUpToIndex = lsLastIndex status,
         caStateMachineSnapshot = Encode ys (checkpoint unmarshal es (lsLastIndex status))\<rparr>)"
  using cycle_tracks [OF assms] by auto

section \<open>A cycle with its leader\<close>

text \<open>The range request as the leader \<open>n\<close> answers it over a connection that works.\<close>

definition leaderStream :: "node \<Rightarrow> LogRangeRequest \<Rightarrow> PbLogEntry list option" where
  "leaderStream n req = (case StreamLogRange req None n of None \<Rightarrow> None | Some r \<Rightarrow> recvEntries r)"

text \<open>The leader holds the entries of \<open>es\<close> behind index \<open>b\<close>.\<close>

definition holds_log :: "uint64 \<Rightarrow> LogEntry list \<Rightarrow> node \<Rightarrow> bool" where
  "holds_log b es n \<longleftrightarrow> logOffset n \<le> b \<and> drop (b - logOffset n) (log n) = drop b es \<and> lastLogIndexLocked n = length es"

lemma leader_serves:
  assumes "holds_log b es n" "length es < 2 ^ 64 - 1"
  shows "serves b es (leaderStream n)" "lrToIndex req \<le> length es \<Longrightarrow> leaderStream n req \<noteq> None"
proof -
  have eq: "drop (lrFromIndex req - logOffset n - 1) (take (lrToIndex req - logOffset n) (log n))
      = drop (lrFromIndex req - 1) (take (lrToIndex req) es)" if "b < lrFromIndex req" for req
  proof -
    let ?f = "lrFromIndex req - 1"
    have f: "b \<le> ?f" "logOffset n \<le> ?f" using that assms(1) by (auto simp: holds_log_def)
    have "?f - logOffset n = (?f - b) + (b - logOffset n)" using f assms(1) by (simp add: holds_log_def)
    then have "drop (?f - logOffset n) (log n) = drop (?f - b) (drop (b - logOffset n) (log n))" by simp
    also have "\<dots> = drop ?f es" using f(1) assms(1) unfolding holds_log_def by (simp only: drop_drop le_add_diff_inverse2)
    finally have "drop (?f - logOffset n) (log n) = drop ?f es" .
    moreover have "lrFromIndex req - logOffset n - 1 = ?f - logOffset n" by simp
    moreover have "lrToIndex req - logOffset n - (?f - logOffset n) = lrToIndex req - ?f" using f by simp
    ultimately show ?thesis by (simp only: drop_take)
  qed
  have st: "leaderStream n req = Some (map pbOfEntry (drop (lrFromIndex req - logOffset n - 1) (take (lrToIndex req - logOffset n) (log n))))"
    if "lrToIndex req \<le> length es" for req
    using that assms(2) by (simp add: leaderStream_def stream_range recvEntries_def)
  show "serves b es (leaderStream n)" unfolding serves_def by (metis st eq)
  show "leaderStream n req \<noteq> None" if "lrToIndex req \<le> length es" using st [OF that] by simp
qed

lemma status_of_leader:
  assumes "holds_log b es n"
  shows "lsLastIndex (GetLogStatus n) = length es" "lsFirstIndex (GetLogStatus n) \<le> b + 1"
  using assms by (auto simp: GetLogStatus_def holds_log_def Let_def)

text \<open>A cycle against a leader that answers ends with the checkpoint of its whole log.\<close>

lemma cycle_completes:
  assumes "positional 0 es" "\<forall>e \<in> set es. um (Command e) \<noteq> None" "length es < 2 ^ 64 - 1"
    "storeState s = replayed um es k" "storeIndex s \<le> k" "k \<le> length es" "holds_log (storeIndex s) es n" "storeIndex s < length es"
  shows "\<exists>s'. runCycle um NoFault rm xs ys leader (GetLogStatus n) (leaderStream n) (Some leader) s
      = (Some \<lparr>caTruncatedUpToIndex = length es, caStateMachineSnapshot = Encode ys (checkpoint um es (length es))\<rparr>, s') \<and>
    storeFile s' = Some (checkpoint um es (length es)) \<and>
    catalogInfo s' = \<lparr>siLastIncludedIndex = length es, siLastIncludedTerm = Term (es ! (length es - 1)), siAvailable = True\<rparr>"
proof -
  note st = status_of_leader [OF assms(7)] and sv = leader_serves [OF assms(7,3)]
  have "k \<le> lsLastIndex (GetLogStatus n)" "lsLastIndex (GetLogStatus n) \<le> length es" using st assms(6) by simp_all
  note run = cycle_run [OF assms(1-5) this st(2) sv(1)]
  show ?thesis unfolding run using assms(8) sv(2)
    by (simp add: st storeCommit_def WriteFile_def Let_def checkpoint_def Snapshot_def storeFile_def catalogInfo_def storeLatest_def)
qed

lemma confirm_restart:
  assumes "file_ok ys f" "file_ok zs f" "healthy ev" "healthy ev'" "node_wf n" "snapshots_below (LastIncludedIndex f) n"
    "logOffset n + 1 < LastIncludedIndex f" "LastIncludedIndex f \<le> lastApplied n" "LastIncludedIndex f \<le> lastLogIndexLocked n"
    "entry_ok (anchorOf f)" "LoadState NoFault (dir n) = Inr (t, v)"
  shows "\<exists>n' b. ConfirmCompaction ev zs \<lparr>caTruncatedUpToIndex = LastIncludedIndex f, caStateMachineSnapshot = Encode ys f\<rparr> n = (None, n') \<and>
    log n' = anchorOf f # drop (LastIncludedIndex f - logOffset n) (log n) \<and>
    bootNode ev' cfg (dir n') = Inr b \<and> smOps b = [RestoreState (State f)] \<and> lastApplied b = LastIncludedIndex f"
proof -
  let ?i = "LastIncludedIndex f" and ?n' = "snd (compactLocked ev zs f n)"
  have off: "logOffset n < ?i" using assms(7) by simp
  have c: "ConfirmCompaction ev zs \<lparr>caTruncatedUpToIndex = ?i, caStateMachineSnapshot = Encode ys f\<rparr> n = compactLocked ev zs f n"
    using assms(7,8) by (simp add: ConfirmCompaction_def Decode_Encode [OF assms(1)])
  note k = compact_ok [OF healthyD(5,6) [OF assms(3)] off assms(9), of zs]
  from compact_restart [OF assms(2) healthyD(5) [OF assms(3)] assms(5,6) off assms(9,10,11,4)]
  obtain b where "bootNode ev' cfg (dir ?n') = Inr b" "smOps b = [RestoreState (State f)]" "lastApplied b = ?i" by blast
  moreover have "compactLocked ev zs f n = (None, ?n')" using k(1) by (simp add: prod_eq_iff)
  ultimately show ?thesis using c k(2) by auto
qed

text \<open>
  C18: A whole backup cycle loses nothing. When the leader has applied its log, the cycle completes, the leader accepts
  the confirmation and cuts its log to the anchor, and a restart from its disk serves exactly the
  replay of the log.
\<close>

theorem backup_cycle_end_to_end:
  assumes "positional 0 es" "\<forall>e \<in> set es. unmarshal (Command e) \<noteq> None" "length es < 2 ^ 64 - 1"
    "storeState s = replayed unmarshal es k" "storeIndex s \<le> k" "k \<le> length es" "holds_log (storeIndex s) es n" "storeIndex s < length es"
    "node_wf n" "lastApplied n = length es" "logOffset n + 1 < length es" "snapshots_below (length es) n"
    "file_ok ys (checkpoint unmarshal es (length es))" "file_ok zs (checkpoint unmarshal es (length es))"
    "entry_ok (anchorOf (checkpoint unmarshal es (length es)))" "healthy ev" "healthy ev'" "LoadState NoFault (dir n) = Inr (t, v)"
  shows "\<exists>conf s' n' b. runCycle unmarshal NoFault rm xs ys leader (GetLogStatus n) (leaderStream n) (Some leader) s = (Some conf, s') \<and>
    ConfirmCompaction ev zs conf n = (None, n') \<and> length (log n') = 1 \<and>
    bootNode ev' cfg (dir n') = Inr b \<and> lastApplied b = length es \<and> machine unmarshal b = replayed unmarshal es (length es)"
proof -
  let ?f = "checkpoint unmarshal es (length es)"
  have i: "LastIncludedIndex ?f = length es" "State ?f = kvData (replayed unmarshal es (length es))" by (simp_all add: checkpoint_def)
  have last: "length es = lastLogIndexLocked n" using assms(7) by (simp add: holds_log_def)
  from confirm_restart [OF assms(13,14,16,17,9), of t v cfg] assms(10-12,15,18) last obtain n' b where
    c: "ConfirmCompaction ev zs \<lparr>caTruncatedUpToIndex = length es, caStateMachineSnapshot = Encode ys ?f\<rparr> n = (None, n')"
    and l: "log n' = anchorOf ?f # drop (length es - logOffset n) (log n)"
    and b: "bootNode ev' cfg (dir n') = Inr b" "smOps b = [RestoreState (State ?f)]" "lastApplied b = length es"
    unfolding i by auto
  have "length (log n') = 1" using l last by (simp add: lastLogIndexLocked_def)
  moreover have "machine unmarshal b = replayed unmarshal es (length es)"
    by (simp add: machine_def b(2) runOp_def Restore_def i)
  ultimately show ?thesis using cycle_completes [OF assms(1-8), of rm xs ys leader] c b by blast
qed

text \<open>
  C39: The backup makes uncommitted entries committed. The range a cycle downloads ends at the leader's last entry, committed or
  not. The leader refuses the confirmation of entries it has not applied, but the catalog offers the
  checkpoint all the same, and at its next poll the leader takes it over: its commit index
  jumps to the end of its log without a single acknowledgement.
\<close>

theorem backup_commits_uncommitted:
  assumes "positional 0 es" "\<forall>e \<in> set es. unmarshal (Command e) \<noteq> None" "length es < 2 ^ 64 - 1"
    "storeState s = replayed unmarshal es k" "storeIndex s \<le> k" "k \<le> length es" "holds_log (storeIndex s) es n" "storeIndex s < length es"
    "commitIndex n < length es" "lastApplied n \<le> commitIndex n" "logOffset n + 1 < length es" "healthy ev"
    "file_ok ws (checkpoint unmarshal es (length es))"
  shows "\<exists>conf s' n'. runCycle unmarshal NoFault rm xs ys leader (GetLogStatus n) (leaderStream n) (Some leader) s = (Some conf, s') \<and>
    ConfirmCompaction ev zs conf n = (Some (ErrNotApplied (length es)), n) \<and>
    snapshotPollOnce ev zs (Some (catalogInfo s')) (clientFetchSnapshot (catalogFetch ws None s')) n = n' \<and>
    commitIndex n' = length es \<and> lastApplied n' = length es"
proof -
  let ?f = "checkpoint unmarshal es (length es)"
  from cycle_completes [OF assms(1-8), of rm xs ys leader] obtain s' where
    r: "runCycle unmarshal NoFault rm xs ys leader (GetLogStatus n) (leaderStream n) (Some leader) s
      = (Some \<lparr>caTruncatedUpToIndex = length es, caStateMachineSnapshot = Encode ys ?f\<rparr>, s')" and f: "storeFile s' = Some ?f"
    and i: "catalogInfo s' = \<lparr>siLastIncludedIndex = length es, siLastIncludedTerm = Term (es ! (length es - 1)), siAvailable = True\<rparr>"
    by blast
  have fetch: "clientFetchSnapshot (catalogFetch ws None s') = Some ?f" using fetched [OF f assms(13)] by simp
  have "snapshotPollOnce ev zs (Some (catalogInfo s')) (Some ?f) n = catchUpFromSnapshot ev zs (Some ?f) n"
    unfolding i using assms(9,10) by (intro poll_catches_up) simp_all
  moreover note catchup_ok(3,4) [OF assms(12) _ refl, of ?f zs n]
  moreover have "LastIncludedIndex ?f = length es" by (simp add: checkpoint_def)
  moreover have "0 < length es" by (rule le_less_trans [OF le0 assms(8)])
  ultimately show ?thesis using r fetch assms(9-11) by (auto simp: ConfirmCompaction_def)
qed

section \<open>Concrete runs\<close>

definition demoStore :: Store where
  "demoStore = \<lparr>storeDir = \<lparr>logFile = None, stateJson = NoState, files = []\<rparr>, storeState = New, storeIndex = 0, storeTerm = 0,
     storeAvailable = False, storePath = ''''\<rparr>"

definition demoCheckpoint :: File where
  "demoCheckpoint = \<lparr>State = [''k'' \<mapsto> ''v''], LastIncludedIndex = 3, LastIncludedTerm = 1\<rparr>"

lemma demoLog_facts:
  "positional 0 demoLog" "\<forall>e \<in> set demoLog. demoUnmarshal (Command e) \<noteq> None" "length demoLog < 2 ^ 64 - 1" "length demoLog = 3"
  by (auto simp: positional_def demoLog_def demoEntry_def demoUnmarshal_def less_Suc_eq numeral_3_eq_3)

lemma demoStore_facts:
  "storeState demoStore = replayed demoUnmarshal demoLog 0" "storeIndex demoStore = 0" "storeIndex demoStore \<le> 0"
  by (simp_all add: demoStore_def replayed_def)

lemma demo_checkpoint: "checkpoint demoUnmarshal demoLog 3 = demoCheckpoint"
  by (simp add: checkpoint_def demoCheckpoint_def replayed_def demoLog_def demoEntry_def applyCommands_def applyCommand_def
      demoUnmarshal_def Apply_def New_def)

lemma file_ok_demoCheckpoint: "file_ok [(''k'', ''v'')] demoCheckpoint"
  by (simp add: file_ok_def iteration_def demoCheckpoint_def Encode_def fileTypeDef_def fileValue_def gobUint_def gobString_def
      gobField_def asciiBytes_def encUintField_def Let_def)

lemma anchor_demoCheckpoint: "entry_ok (anchorOf demoCheckpoint)"
  by (simp add: anchorOf_def demoCheckpoint_def entry_ok_def gobEncode_def gobValue_def typeDef_def gobUint_def gobString_def
      gobField_def asciiBytes_def encUintField_def encBytesField_def Let_def)

lemma demo_holds: "holds_log (storeIndex demoStore) demoLog demoReplica"
  by (simp add: holds_log_def demoStore_def demoReplica_eq lastLogIndexLocked_def)

theorem backup_replays_log_witness:
  "\<exists>k. k \<le> 3 \<and> storeState (snd (runCycle demoUnmarshal NoFault NoFault [(''k'', ''v'')] [(''k'', ''v'')] ''a:1'' (GetLogStatus demoReplica)
     (leaderStream demoReplica) (Some ''b:2'') demoStore)) = replayed demoUnmarshal demoLog k"
proof -
  note st = status_of_leader [OF demo_holds] and sv = leader_serves(1) [OF demo_holds demoLog_facts(3)]
  have "0 \<le> lsLastIndex (GetLogStatus demoReplica)" "lsLastIndex (GetLogStatus demoReplica) \<le> length demoLog" using st by simp_all
  from backup_replays_log [OF demoLog_facts(1-3) demoStore_facts(1,3) this st(2) sv surjective_pairing,
      of NoFault NoFault "[(''k'', ''v'')]" "[(''k'', ''v'')]" "''a:1''" "Some ''b:2''"]
  show ?thesis unfolding st(1) demoLog_facts(4) by blast
qed

theorem backup_cycle_end_to_end_witness:
  "\<exists>conf s' n' b. runCycle demoUnmarshal NoFault NoFault [(''k'', ''v'')] [(''k'', ''v'')] ''a:1'' (GetLogStatus demoReplica) (leaderStream demoReplica)
      (Some ''a:1'') demoStore = (Some conf, s') \<and>
    ConfirmCompaction calm [(''k'', ''v'')] conf demoReplica = (None, n') \<and> length (log n') = 1 \<and>
    bootNode calm demoCfg (dir n') = Inr b \<and> lastApplied b = 3 \<and> machine demoUnmarshal b = \<lparr>kvData = [''k'' \<mapsto> ''v'']\<rparr>"
proof -
  have d: "lastApplied demoReplica = length demoLog" "logOffset demoReplica + 1 < length demoLog" "LoadState NoFault (dir demoReplica) = Inr (1, ''a'')"
    by (simp_all add: demoReplica_eq demoLog_def demoDir_def LoadState_def)
  have b: "snapshots_below 3 demoReplica" by (simp add: snapshots_below_def demoReplica_eq demoDir_def FileName_def)
  have r: "replayed demoUnmarshal demoLog 3 = \<lparr>kvData = [''k'' \<mapsto> ''v'']\<rparr>"
    using arg_cong [OF demo_checkpoint, of State] by (simp add: checkpoint_def demoCheckpoint_def)
  show ?thesis
    using backup_cycle_end_to_end [OF demoLog_facts(1-3) demoStore_facts(1,3) _ demo_holds _ demoReplica_wf d(1,2) _ _ _ _ healthy_calm healthy_calm d(3),
        of "[(''k'', ''v'')]" "[(''k'', ''v'')]" NoFault "[(''k'', ''v'')]" "''a:1''" demoCfg]
      b file_ok_demoCheckpoint anchor_demoCheckpoint
    unfolding demoLog_facts(4) demo_checkpoint r by (simp add: demoStore_facts(2))
qed

theorem backup_commits_uncommitted_witness:
  "let n = demoReplica\<lparr>role := Leader, commitIndex := 1, lastApplied := 1\<rparr> in
   \<exists>conf s' n'. runCycle demoUnmarshal NoFault NoFault [(''k'', ''v'')] [(''k'', ''v'')] ''a:1'' (GetLogStatus n) (leaderStream n)
      (Some ''a:1'') demoStore = (Some conf, s') \<and>
    ConfirmCompaction calm [(''k'', ''v'')] conf n = (Some (ErrNotApplied 3), n) \<and>
    snapshotPollOnce calm [(''k'', ''v'')] (Some (catalogInfo s')) (clientFetchSnapshot (catalogFetch [(''k'', ''v'')] None s')) n = n' \<and>
    commitIndex n' = 3 \<and> lastApplied n' = 3"
proof -
  let ?n = "demoReplica\<lparr>role := Leader, commitIndex := 1, lastApplied := 1\<rparr>"
  have h: "holds_log (storeIndex demoStore) demoLog ?n" using demo_holds by (simp add: holds_log_def lastLogIndexLocked_def)
  have o: "logOffset demoReplica = 0" by (simp add: demoReplica_eq)
  show ?thesis
    using backup_commits_uncommitted [OF demoLog_facts(1-3) demoStore_facts(1,3) _ h _ _ _ _ healthy_calm,
        of "[(''k'', ''v'')]" NoFault "[(''k'', ''v'')]" "[(''k'', ''v'')]" "''a:1''" "[(''k'', ''v'')]"]
      file_ok_demoCheckpoint
    unfolding demoLog_facts(4) demo_checkpoint Let_def by (simp add: demoStore_facts(2) o)
qed

definition ghostUnmarshal :: "bytes \<Rightarrow> KVCommand option" where
  "ghostUnmarshal bs = (if bs = [1] then Some \<lparr>cmdOp = PUT, cmdKey = ''ghost'', cmdValue = ''x''\<rparr>
     else Some \<lparr>cmdOp = PUT, cmdKey = ''k'', cmdValue = ''v''\<rparr>)"

text \<open>
  An aborted cycle leaves its traces in every later snapshot. The entries are applied to the replica before
  the leadership is checked again; when the old leader's entries were never committed, the next cycle, against the
  new leader, publishes a checkpoint with a key no log contains.
\<close>

theorem aborted_cycle_leaves_ghost:
  "let old = [\<lparr>Term = 1, Index = 1, Command = [1]\<rparr>]; new = [\<lparr>Term = 2, Index = 1, Command = [2]\<rparr>];
       status = \<lparr>lsTotalEntries = 1, lsOccupancyPercent = 50, lsFirstIndex = 1, lsLastIndex = 1\<rparr>;
       (conf1, s1) = runCycle ghostUnmarshal NoFault rm [] [] ''a:1'' status (\<lambda>_. Some (map pbOfEntry old)) (Some ''b:2'') demoStore;
       (conf2, s2) = runCycle ghostUnmarshal NoFault rm xs ys ''b:2'' status (\<lambda>_. Some (map pbOfEntry new)) (Some ''b:2'') s1
   in conf1 = None \<and> storeIndex s1 = 0 \<and> conf2 \<noteq> None \<and>
      map_option (\<lambda>f. (State f ''ghost'', LastIncludedIndex f, LastIncludedTerm f)) (storeFile s2) = Some (Some ''x'', 1, 2) \<and>
      kvData (replayed ghostUnmarshal new 1) ''ghost'' = None"
  by (simp add: runCycle_def cycleRange_def storeLatest_def demoStore_def Let_def ghostUnmarshal_def pbOfEntry_def Apply_def New_def
      storeCommit_def WriteFile_def storeFile_def Snapshot_def replayed_def applyCommands_def applyCommand_def)

definition blankUnmarshal :: "bytes \<Rightarrow> KVCommand option" where
  "blankUnmarshal bs = (if bs = [] then Some \<lparr>cmdOp = PUT, cmdKey = '''', cmdValue = ''''\<rparr>
     else Some \<lparr>cmdOp = PUT, cmdKey = ''m'', cmdValue = ''w''\<rparr>)"

definition demoCompacted :: node where
  "demoCompacted = snd (compactLocked calm [(''k'', ''v'')] demoFile demoReplica)"

definition blankCheckpoint :: File where
  "blankCheckpoint = \<lparr>State = [('''' :: string) \<mapsto> '''', ''m'' \<mapsto> ''w''], LastIncludedIndex = 3, LastIncludedTerm = 1\<rparr>"

lemma demoCompacted_eq:
  "demoCompacted = demoReplica\<lparr>log := [anchorOf demoFile, demoEntry 3], logOffset := 1, currentSnapshotPath := FileName 2,
     dir := \<lparr>logFile = Some (records [anchorOf demoFile, demoEntry 3]), stateJson = SavedState 1 ''a'',
       files = [(FileName 2, Encode [(''k'', ''v'')] demoFile)]\<rparr>\<rparr>"
  by (simp add: demoCompacted_def compactLocked_def demoReplica_eq demoLog_def entryAtLocked_def demoFile_def WriteFile_def
      replaceSnapshotFileLocked_def RewriteLog_def calm_def demoDir_def Let_def gm_del_def)

lemma blank_cycle:
  "\<exists>s'. runCycle blankUnmarshal NoFault rm xs ys ''a:1'' (GetLogStatus demoCompacted) (leaderStream demoCompacted) (Some ''a:1'') demoStore
    = (Some \<lparr>caTruncatedUpToIndex = 3, caStateMachineSnapshot = Encode ys blankCheckpoint\<rparr>, s')"
proof -
  have st: "leaderStream demoCompacted \<lparr>lrFromIndex = 2, lrToIndex = 3\<rparr> = Some [pbOfEntry (anchorOf demoFile), pbOfEntry (demoEntry 3)]"
    by (simp add: leaderStream_def stream_range recvEntries_def demoCompacted_eq)
  have g: "lsFirstIndex (GetLogStatus demoCompacted) = 2" "lsLastIndex (GetLogStatus demoCompacted) = 3"
    by (simp_all add: GetLogStatus_def demoCompacted_eq lastLogIndexLocked_def)
  show ?thesis
    by (simp add: runCycle_def cycleRange_def storeLatest_def g st demoStore_def storeCommit_def WriteFile_def Let_def
        blankUnmarshal_def pbOfEntry_def anchorOf_def demoEntry_def demoFile_def Apply_def New_def Snapshot_def blankCheckpoint_def)
qed

text \<open>
  A backup process that starts without its data directory erases the state behind the leader's snapshot. It is
  sent the log from the leader's anchor on, takes the anchor for a command, builds a checkpoint without anything the anchor
  stands for, and the leader accepts it: before, a restart of the leader finds the key, after it does not.
\<close>

theorem fresh_instance_loses_state:
  "\<exists>b0 conf s' n' b. bootNode calm demoCfg (dir demoCompacted) = Inr b0 \<and> Get (machine blankUnmarshal b0) ''k'' = (''v'', True) \<and>
    runCycle blankUnmarshal NoFault rm xs [('''', ''''), (''m'', ''w'')] ''a:1'' (GetLogStatus demoCompacted) (leaderStream demoCompacted)
      (Some ''a:1'') demoStore = (Some conf, s') \<and>
    ConfirmCompaction calm [('''', ''''), (''m'', ''w'')] conf demoCompacted = (None, n') \<and>
    bootNode calm demoCfg (dir n') = Inr b \<and> Get (machine blankUnmarshal b) ''k'' = ('''', False)"
proof -
  let ?ys = "[('''' :: string, '''' :: string), (''m'', ''w'')]"
  have off: "logOffset demoReplica < LastIncludedIndex demoFile" "LastIncludedIndex demoFile \<le> lastLogIndexLocked demoReplica"
    "LoadState NoFault (dir demoReplica) = Inr (1, ''a'')" "snapshots_below (LastIncludedIndex demoFile) demoReplica"
    by (simp_all add: demoReplica_eq demoFile_def lastLogIndexLocked_def demoLog_def demoDir_def LoadState_def snapshots_below_def FileName_def)
  have io: "ioSnapshot calm = NoFault" "ioRewrite calm = NoFault" by (simp_all add: calm_def)
  from compact_restart [OF file_ok_demoFile io(1) demoReplica_wf off(4,1,2) anchor_demoFile(2) off(3) healthy_calm, of demoCfg]
  obtain b0 where b0: "bootNode calm demoCfg (dir demoCompacted) = Inr b0" "smOps b0 = [RestoreState [''k'' \<mapsto> ''v'']]"
    unfolding demoCompacted_def by (auto simp: demoFile_def)
  have wf: "node_wf demoCompacted"
    unfolding demoCompacted_def by (rule compact_wf(1) [OF io off(1,2) demoReplica_wf anchor_demoFile(2)])
  have ok: "file_ok ?ys blankCheckpoint"
    by (simp add: file_ok_def iteration_def blankCheckpoint_def Encode_def fileTypeDef_def fileValue_def gobUint_def gobString_def
      gobField_def asciiBytes_def encUintField_def Let_def fun_upd_twist)
  have an: "entry_ok (anchorOf blankCheckpoint)" using anchor_demoCheckpoint by (simp add: anchorOf_def demoCheckpoint_def blankCheckpoint_def)
  have below: "snapshots_below 3 demoCompacted"
    using FileName_inj [of 2 3] by (auto simp: snapshots_below_def demoCompacted_eq)
  have c: "LastIncludedIndex blankCheckpoint = 3" "State blankCheckpoint = [('''' :: string) \<mapsto> '''', ''m'' \<mapsto> ''w'']"
    by (simp_all add: blankCheckpoint_def)
  have d: "logOffset demoCompacted = 1" "lastApplied demoCompacted = 3" "lastLogIndexLocked demoCompacted = 3"
    "LoadState NoFault (dir demoCompacted) = Inr (1, ''a'')"
    by (simp_all add: demoCompacted_eq lastLogIndexLocked_def LoadState_def) (simp add: demoReplica_eq)
  from confirm_restart [OF ok ok healthy_calm healthy_calm wf, of 1 "''a''" demoCfg] below d an obtain n' b where
    "ConfirmCompaction calm ?ys \<lparr>caTruncatedUpToIndex = 3, caStateMachineSnapshot = Encode ?ys blankCheckpoint\<rparr> demoCompacted = (None, n')"
    "bootNode calm demoCfg (dir n') = Inr b" "smOps b = [RestoreState [('''' :: string) \<mapsto> '''', ''m'' \<mapsto> ''w'']]"
    unfolding c by auto
  then show ?thesis using b0 blank_cycle [of rm xs ?ys] by (fastforce simp: machine_def runOp_def Restore_def Get_def)
qed

text \<open>
  When a tick starts a cycle. It does so exactly when the leader is known and answers, its occupancy lies between the
  threshold and the guard, and no cycle of this process is running. At or above the guard it never
  does, and since only a cycle shortens the log, a log that has once reached the guard keeps growing.
\<close>

theorem tick_guard:
  assumes "length (log n) * 100 < 2 ^ 64" "statusOf leader = Some (GetLogStatus n)" "leader \<noteq> ''''"
    "Tick unmarshal flt rm xs ys (Some leader) statusOf streamOf view' c = (conf, c')"
  shows "(fst (tickBegin (Some leader) statusOf c) \<noteq> None \<longleftrightarrow>
       CompactionThresholdPercent (compactorCfg c) \<le> length (log n) * 100 div logCapacity n \<and>
       length (log n) * 100 div logCapacity n < ConcurrencyGuardPercent (compactorCfg c) \<and> \<not> compacting c) \<and>
    (ConcurrencyGuardPercent (compactorCfg c) * logCapacity n \<le> length (log n) * 100 \<and> 0 < logCapacity n \<longrightarrow> conf = None \<and> c' = c) \<and>
    (\<not> compacting c \<longrightarrow> \<not> compacting c')"
proof -
  have o: "lsOccupancyPercent (GetLogStatus n) = length (log n) * 100 div logCapacity n"
    using assms(1) by (simp add: GetLogStatus_def Let_def u64_id)
  have "ConcurrencyGuardPercent (compactorCfg c) \<le> length (log n) * 100 div logCapacity n"
    if "ConcurrencyGuardPercent (compactorCfg c) * logCapacity n \<le> length (log n) * 100" "0 < logCapacity n"
    using that by (simp add: less_eq_div_iff_mult_less_eq)
  then show ?thesis using assms(2-4) o
    by (auto simp: Tick_def tickBegin_def split: prod.splits if_splits)
qed

theorem tick_guard_witness:
  "let c = \<lparr>store = demoStore, compactorCfg = \<lparr>PollInterval = 5000, RPCTimeout = 2000, CompactionThresholdPercent = 30,
          ConcurrencyGuardPercent = 90\<rparr>, compacting = False\<rparr>;
       n = demoReplica\<lparr>logCapacity := 3\<rparr>
   in Tick demoUnmarshal NoFault NoFault [] [] (Some ''a:1'') (\<lambda>_. Some (GetLogStatus n)) (\<lambda>_. leaderStream n) (Some ''a:1'') c = (None, c)"
proof -
  let ?c = "\<lparr>store = demoStore, compactorCfg = \<lparr>PollInterval = 5000, RPCTimeout = 2000, CompactionThresholdPercent = 30,
          ConcurrencyGuardPercent = 90\<rparr>, compacting = False\<rparr>" and ?n = "demoReplica\<lparr>logCapacity := 3\<rparr>"
  have l: "length (log ?n) = 3" by (simp add: demoReplica_eq demoLog_def)
  from tick_guard [of ?n "\<lambda>_. Some (GetLogStatus ?n)" "''a:1''" demoUnmarshal NoFault NoFault "[]" "[]" "\<lambda>_. leaderStream ?n" "Some ''a:1''" ?c,
      OF _ refl _ surjective_pairing] l
  show ?thesis by (simp add: Let_def prod_eq_iff)
qed

end
