(* ===== verification/Settings.thy ===== *)
theory Settings
  imports Snapshot_Service Proxy
begin

text \<open>
  The configuration of the processes from environment variables: the timing and snapshot settings of a consensus node
  (\<open>internal/raft/node.go\<close>, \<open>snapshotconfig.go\<close>), those of the backup service, the discovery service and the proxy
  (\<open>config.go\<close> of each package), and the parsing of the shared peer list (\<open>cmd/consensus-node/main.go\<close>).

  The environment is a function from names to texts, an unset variable being the empty text. A
  duration is a signed 64-bit number of nanoseconds: converting milliseconds can wrap around.
\<close>

section \<open>Reading variables\<close>

type_synonym environment = "string \<Rightarrow> string"

datatype configError = InvalidNumber string string | MustExceed string int string int | MustStayBelow string int string int | MustBePositive string int

definition swrap64 :: "int \<Rightarrow> int" where
  "swrap64 x = (x + 2 ^ 63) mod 2 ^ 64 - 2 ^ 63"

lemma swrap64_id: "- (2 ^ 63) \<le> x \<Longrightarrow> x < 2 ^ 63 \<Longrightarrow> swrap64 x = x"
  by (simp add: swrap64_def)

definition millis :: "int \<Rightarrow> duration" where
  "millis n = swrap64 (n * 1000000)"

definition toUint64 :: "int \<Rightarrow> uint64" where
  "toUint64 n = nat (n mod 2 ^ 64)"

definition envIntDefault :: "environment \<Rightarrow> string \<Rightarrow> int \<Rightarrow> configError + int" where
  "envIntDefault getenv key def =
     (let v = getenv key
      in if v = '''' then Inr def
         else (case Atoi v of None \<Rightarrow> Inl (InvalidNumber key v) | Some n \<Rightarrow> Inr n))"

definition envDurationMS :: "environment \<Rightarrow> string \<Rightarrow> duration \<Rightarrow> configError + duration" where
  "envDurationMS getenv key def =
     (let v = getenv key
      in if v = '''' then Inr def
         else (case Atoi v of
                 None \<Rightarrow> Inl (InvalidNumber key v)
               | Some n \<Rightarrow> if n \<le> 0 then Inl (MustBePositive key n) else Inr (millis n)))"

section \<open>The consensus node\<close>

definition LoadTimingConfigFromEnv :: "environment \<Rightarrow> configError + TimingConfig" where
  "LoadTimingConfigFromEnv getenv =
     (case envIntDefault getenv ''ELECTION_TIMEOUT_MIN_MS'' 150 of Inl e \<Rightarrow> Inl e | Inr minMS \<Rightarrow>
     (case envIntDefault getenv ''ELECTION_TIMEOUT_MAX_MS'' 300 of Inl e \<Rightarrow> Inl e | Inr maxMS \<Rightarrow>
     (case envIntDefault getenv ''HEARTBEAT_INTERVAL_MS'' 50 of Inl e \<Rightarrow> Inl e | Inr heartbeatMS \<Rightarrow>
        if maxMS \<le> minMS then Inl (MustExceed ''ELECTION_TIMEOUT_MAX_MS'' maxMS ''ELECTION_TIMEOUT_MIN_MS'' minMS)
        else if minMS \<le> heartbeatMS then Inl (MustStayBelow ''HEARTBEAT_INTERVAL_MS'' heartbeatMS ''ELECTION_TIMEOUT_MIN_MS'' minMS)
        else Inr \<lparr>ElectionTimeoutMin = millis minMS, ElectionTimeoutMax = millis maxMS, HeartbeatInterval = millis heartbeatMS\<rparr>)))"

record SnapshotConfig =
  LogCapacityEntries :: uint64
  nodePollInterval :: duration

definition LoadSnapshotConfigFromEnv :: "environment \<Rightarrow> configError + SnapshotConfig" where
  "LoadSnapshotConfigFromEnv getenv =
     (case envIntDefault getenv ''LOG_CAPACITY_ENTRIES'' (int defaultLogCapacityEntries) of Inl e \<Rightarrow> Inl e | Inr capacity \<Rightarrow>
     (case envIntDefault getenv ''SNAPSHOT_POLL_INTERVAL_MS'' 5000 of Inl e \<Rightarrow> Inl e | Inr pollMS \<Rightarrow>
        Inr \<lparr>LogCapacityEntries = toUint64 capacity, nodePollInterval = millis pollMS\<rparr>))"

section \<open>The other processes\<close>

definition backupLoadConfigFromEnv :: "environment \<Rightarrow> configError + CompactorConfig" where
  "backupLoadConfigFromEnv getenv =
     (case envIntDefault getenv ''SNAPSHOT_BACKUP_POLL_INTERVAL_MS'' 5000 of Inl e \<Rightarrow> Inl e | Inr pollMS \<Rightarrow>
     (case envIntDefault getenv ''COMPACTION_THRESHOLD_PERCENT'' 30 of Inl e \<Rightarrow> Inl e | Inr threshold \<Rightarrow>
     (case envIntDefault getenv ''COMPACTION_CONCURRENCY_GUARD_PERCENT'' 90 of Inl e \<Rightarrow> Inl e | Inr guard \<Rightarrow>
        if guard \<le> threshold
        then Inl (MustExceed ''COMPACTION_CONCURRENCY_GUARD_PERCENT'' guard ''COMPACTION_THRESHOLD_PERCENT'' threshold)
        else (case envIntDefault getenv ''SNAPSHOT_BACKUP_RPC_TIMEOUT_MS'' 2000 of Inl e \<Rightarrow> Inl e | Inr rpcTimeoutMS \<Rightarrow>
                Inr \<lparr>PollInterval = millis pollMS, RPCTimeout = millis rpcTimeoutMS, CompactionThresholdPercent = toUint64 threshold,
                     ConcurrencyGuardPercent = toUint64 guard\<rparr>))))"

record DiscoveryConfig =
  dcPeers :: "addr list"
  dcPollInterval :: duration
  dcRPCTimeout :: duration

definition discoveryPeers :: "string \<Rightarrow> addr list" where
  "discoveryPeers peersEnv = filter (\<lambda>a. a \<noteq> '''') (map TrimSpace (splitOn CHR '','' peersEnv))"

definition discoveryLoadConfigFromEnv :: "environment \<Rightarrow> configError + DiscoveryConfig" where
  "discoveryLoadConfigFromEnv getenv =
     (let peers = discoveryPeers (getenv ''PEERS'');
          v = getenv ''DISCOVERY_POLL_INTERVAL_MS'';
          cfg = (\<lambda>intervalMS. \<lparr>dcPeers = peers, dcPollInterval = millis intervalMS, dcRPCTimeout = millis 500\<rparr>)
      in if v = '''' then Inr (cfg 2000)
         else (case Atoi v of
                 None \<Rightarrow> Inl (InvalidNumber ''DISCOVERY_POLL_INTERVAL_MS'' v)
               | Some n \<Rightarrow> if n \<le> 0 then Inl (MustBePositive ''DISCOVERY_POLL_INTERVAL_MS'' n) else Inr (cfg n)))"

record ProxyConfig =
  pcRefreshInterval :: duration
  pcRPCTimeout :: duration

definition proxyLoadConfigFromEnv :: "environment \<Rightarrow> configError + ProxyConfig" where
  "proxyLoadConfigFromEnv getenv =
     (case envDurationMS getenv ''PROXY_REFRESH_INTERVAL_MS'' (2 * second) of Inl e \<Rightarrow> Inl e | Inr refresh \<Rightarrow>
     (case envDurationMS getenv ''PROXY_RPC_TIMEOUT_MS'' (2 * second) of Inl e \<Rightarrow> Inl e | Inr rpcTimeout \<Rightarrow>
        Inr \<lparr>pcRefreshInterval = refresh, pcRPCTimeout = rpcTimeout\<rparr>))"

section \<open>The peer list\<close>

definition isOwn :: "string \<Rightarrow> addr \<Rightarrow> bool" where
  "isOwn ownPort a = (case SplitHostPort a of None \<Rightarrow> False | Some (_, p) \<Rightarrow> p = ownPort)"

fun peerLoop :: "string \<Rightarrow> string list \<Rightarrow> addr list \<Rightarrow> addr list" where
  "peerLoop ownPort [] out = out"
| "peerLoop ownPort (raw # raws) out =
     (let a = TrimSpace raw
      in if a = '''' then peerLoop ownPort raws out
         else if isOwn ownPort a then peerLoop ownPort raws out
         else peerLoop ownPort raws (out @ [a]))"

definition peerAddresses :: "string \<Rightarrow> string \<Rightarrow> addr list" where
  "peerAddresses peersEnv ownPort = peerLoop ownPort (splitOn CHR '','' peersEnv) []"

fun ownLoop :: "string \<Rightarrow> string list \<Rightarrow> addr" where
  "ownLoop ownPort [] = ''''"
| "ownLoop ownPort (raw # raws) =
     (let a = TrimSpace raw
      in if a = '''' then ownLoop ownPort raws else if isOwn ownPort a then a else ownLoop ownPort raws)"

definition ownAddress :: "string \<Rightarrow> string \<Rightarrow> addr" where
  "ownAddress peersEnv ownPort = ownLoop ownPort (splitOn CHR '','' peersEnv)"

section \<open>Properties\<close>

lemma peerLoop_filter: "peerLoop port raws out = out @ filter (\<lambda>a. a \<noteq> '''' \<and> \<not> isOwn port a) (map TrimSpace raws)"
  by (induction port raws out rule: peerLoop.induct) (auto simp: Let_def)

lemma ownLoop_find: "ownLoop port raws = (case List.find (\<lambda>a. a \<noteq> '''' \<and> isOwn port a) (map TrimSpace raws) of None \<Rightarrow> '''' | Some a \<Rightarrow> a)"
  by (induction port raws rule: ownLoop.induct) (auto simp: Let_def)

text \<open>A written list of addresses: no commas and no blanks in an entry, none empty.\<close>

definition plain_entries :: "addr list \<Rightarrow> bool" where
  "plain_entries as \<longleftrightarrow> as \<noteq> [] \<and> list_all (\<lambda>a. a \<noteq> '''' \<and> list_all (\<lambda>c. \<not> isSpace c \<and> c \<noteq> CHR '','') a) as"

lemma plain_split:
  assumes "plain_entries as"
  shows "map TrimSpace (splitOn CHR '','' (joinWith CHR '','' as)) = as" "filter (\<lambda>a. a \<noteq> '''') as = as"
proof -
  have "splitOn CHR '','' (joinWith CHR '','' as) = as" using assms by (intro splitOn_joinWith) (auto simp: plain_entries_def list_all_iff)
  moreover have "map TrimSpace as = as" using assms by (intro map_idI TrimSpace_id) (auto simp: plain_entries_def list_all_iff)
  ultimately show "map TrimSpace (splitOn CHR '','' (joinWith CHR '','' as)) = as" by simp
  show "filter (\<lambda>a. a \<noteq> '''') as = as" using assms by (auto simp: plain_entries_def list_all_iff filter_id_conv)
qed

lemma peer_list:
  assumes "plain_entries (xs @ own # ys)" "isOwn port own" "list_all (\<lambda>a. \<not> isOwn port a) (xs @ ys)"
    "env = joinWith CHR '','' (xs @ own # ys)"
  shows "ownAddress env port = own \<and> peerAddresses env port = xs @ ys \<and> discoveryPeers env = xs @ own # ys"
proof -
  note s = plain_split [OF assms(1)]
  have ne: "a \<noteq> ''''" if "a \<in> set (xs @ own # ys)" for a using that assms(1) by (auto simp: plain_entries_def list_all_iff)
  have "peerAddresses env port = filter (\<lambda>a. a \<noteq> '''' \<and> \<not> isOwn port a) (xs @ own # ys)"
    by (simp only: peerAddresses_def peerLoop_filter assms(4) s(1) append_Nil)
  also have "\<dots> = xs @ ys" using assms(2,3) ne by (auto simp: list_all_iff filter_id_conv)
  finally have p: "peerAddresses env port = xs @ ys" .
  have "List.find (\<lambda>a. a \<noteq> '''' \<and> isOwn port a) (xs @ own # ys) = Some own"
    using assms(2,3) ne by (induction xs) (auto simp: list_all_iff)
  then have "ownAddress env port = own" by (simp only: ownAddress_def ownLoop_find assms(4) s(1) option.case)
  moreover have "discoveryPeers env = xs @ own # ys" by (simp only: discoveryPeers_def assms(4) s)
  ultimately show ?thesis using p by simp
qed

text \<open>
  The shared peer list. From a well-formed list with one entry for its own port, a node takes that entry as
  its address and all the others, in order, as its peers; the discovery service, reading the same list, polls
  all of them.
\<close>

theorem peers_partition:
  assumes "plain_entries (xs @ own # ys)" "isOwn port own" "list_all (\<lambda>a. \<not> isOwn port a) (xs @ ys)"
    "env = joinWith CHR '','' (xs @ own # ys)"
  shows "ownAddress env port = own \<and> peerAddresses env port = xs @ ys \<and> discoveryPeers env = xs @ own # ys"
  by (rule peer_list [OF assms])

theorem peers_partition_witness:
  "ownAddress ''a:1,b:2,c:3'' ''2'' = ''b:2'' \<and> peerAddresses ''a:1,b:2,c:3'' ''2'' = [''a:1'', ''c:3''] \<and>
   discoveryPeers ''a:1,b:2,c:3'' = [''a:1'', ''b:2'', ''c:3'']"
  using peers_partition [of "[''a:1'']" "''b:2''" "[''c:3'']" "''2''" "''a:1,b:2,c:3''"]
  by (simp add: plain_entries_def isSpace_def isOwn_def SplitHostPort_def)

text \<open>
  Accepted timings. With values that do not overflow a duration and a positive heartbeat, the accepted
  configuration has the heartbeat below the shortest election timeout and that below the longest.
\<close>

theorem timing_config_ordered:
  assumes "LoadTimingConfigFromEnv getenv = Inr cfg"
    "envIntDefault getenv ''ELECTION_TIMEOUT_MAX_MS'' 300 = Inr maxMS" "maxMS < 2 ^ 63 div 1000000"
    "envIntDefault getenv ''HEARTBEAT_INTERVAL_MS'' 50 = Inr heartbeatMS" "0 < heartbeatMS"
  shows "0 < HeartbeatInterval cfg \<and> HeartbeatInterval cfg < ElectionTimeoutMin cfg \<and> ElectionTimeoutMin cfg < ElectionTimeoutMax cfg"
proof -
  obtain minMS where m: "minMS < maxMS" "heartbeatMS < minMS"
    "cfg = \<lparr>ElectionTimeoutMin = millis minMS, ElectionTimeoutMax = millis maxMS, HeartbeatInterval = millis heartbeatMS\<rparr>"
    using assms(1,2,4) by (auto simp: LoadTimingConfigFromEnv_def not_le split: sum.splits if_splits)
  have "millis n = n * 1000000" if "0 < n" "n \<le> maxMS" for n
    unfolding millis_def using that assms(3) by (intro swrap64_id) auto
  then show ?thesis using m assms(5) by simp
qed

theorem timing_config_ordered_witness:
  "LoadTimingConfigFromEnv (\<lambda>_. '''') = Inr \<lparr>ElectionTimeoutMin = 150000000, ElectionTimeoutMax = 300000000, HeartbeatInterval = 50000000\<rparr> \<and>
   (50000000 :: int) < 150000000"
proof -
  have c: "LoadTimingConfigFromEnv (\<lambda>_. '''') = Inr \<lparr>ElectionTimeoutMin = 150000000, ElectionTimeoutMax = 300000000, HeartbeatInterval = 50000000\<rparr>"
    by (simp add: LoadTimingConfigFromEnv_def envIntDefault_def millis_def swrap64_def)
  from timing_config_ordered [OF c, of 300 50] c show ?thesis by (simp add: envIntDefault_def)
qed

text \<open>
  What the configurations let through. A heartbeat interval of zero, for which the ticker panics, is accepted; so is a negative
  log capacity, which becomes an enormous one, so that the occupancy of any log a node can hold is zero and
  no compaction ever starts; and when all nodes listen on the same port, every entry of the peer list is taken for the node's own.
\<close>

theorem config_gaps:
  "map_sum id HeartbeatInterval (LoadTimingConfigFromEnv (\<lambda>k. if k = ''HEARTBEAT_INTERVAL_MS'' then ''0'' else '''')) = Inr 0 \<and>
   map_sum id LogCapacityEntries (LoadSnapshotConfigFromEnv (\<lambda>k. if k = ''LOG_CAPACITY_ENTRIES'' then ''-1'' else '''')) = Inr (2 ^ 64 - 1) \<and>
   peerAddresses ''a:9000,b:9000,c:9000'' ''9000'' = []"
proof -
  have a: "Atoi ''0'' = Some 0" "Atoi ''-1'' = Some (- 1)" by code_simp+
  show ?thesis
    by (simp add: LoadTimingConfigFromEnv_def LoadSnapshotConfigFromEnv_def envIntDefault_def a millis_def swrap64_def toUint64_def
        peerAddresses_def TrimSpace_def isSpace_def isOwn_def SplitHostPort_def)
qed

end
