(* ===== verification/Connections.thy ===== *)
theory Connections
  imports Snapshot_Service Proxy
begin

text \<open>
  The clients the processes reach each other with: the consensus transport
  (\<open>internal/raft/grpctransport/transport.go\<close>), the prober of the discovery service
  (\<open>internal/discovery/prober.go\<close>), the proxy's client factory (\<open>internal/proxy/client.go\<close>), the backup service's
  transfer client (\<open>internal/snapshot/transferclient.go\<close>), and the helper they dial with
  (\<open>internal/grpcutil/dial.go\<close>). The four keep one connection per address, under a mutex, and close them all at
  the end.

  gRPC itself is an argument: \<open>newClient\<close> is what \<open>grpc.NewClient\<close> answers for a target and options at that
  moment, \<open>closeConn\<close> what closing a connection answers, and \<open>rpc\<close> what a call on a connection answers, its flag
  telling whether the call waits for the connection to become ready. The state records, next to the map of
  connections, what the library was asked for: the dials, the connections opened and those closed.
\<close>

section \<open>Dialling\<close>

record ('c, 'o) pool =
  dialOpts :: "'o list"
  conns :: "(addr, 'c) gomap"
  dials :: "(string \<times> 'o list) list"
  opened :: "(addr \<times> 'c) list"
  closed :: "(addr \<times> 'c) list"

type_synonym ('c, 'o) newClient = "string \<Rightarrow> 'o list \<Rightarrow> string + 'c"

definition withDefault :: "'o \<Rightarrow> 'o list \<Rightarrow> 'o list" where
  "withDefault insecure opts = (if opts = [] then [insecure] else opts)"

definition passthrough :: "addr \<Rightarrow> string" where
  "passthrough a = ''passthrough:///'' @ a"

definition DialPassthrough :: "'o \<Rightarrow> ('c, 'o) newClient \<Rightarrow> addr \<Rightarrow> 'o list \<Rightarrow> string + 'c" where
  "DialPassthrough insecure newClient a opts = newClient (passthrough a) (withDefault insecure opts)"

definition emptyPool :: "'o list \<Rightarrow> ('c, 'o) pool" where
  "emptyPool opts = \<lparr>dialOpts = opts, conns = [], dials = [], opened = [], closed = []\<rparr>"

text \<open>A dial of \<open>target\<close> with \<open>opts\<close> that gave \<open>res\<close>, for an address that is not in the map.\<close>

definition dialled :: "addr \<Rightarrow> string \<Rightarrow> 'o list \<Rightarrow> string + 'c \<Rightarrow> ('c, 'o) pool \<Rightarrow> ('c, 'o) pool" where
  "dialled a target opts res p =
     (let p = p\<lparr>dials := dials p @ [(target, opts)]\<rparr>
      in case res of
           Inl _ \<Rightarrow> p
         | Inr c \<Rightarrow> p\<lparr>conns := gm_set a c (conns p), opened := opened p @ [(a, c)]\<rparr>)"

text \<open>
  The loop of \<open>Close\<close>: the entries of the map in the order the range statement visits them, the first error
  being kept.
\<close>

fun closeLoop :: "('c \<Rightarrow> string option) \<Rightarrow> (addr \<times> 'c) list \<Rightarrow> string option \<Rightarrow> ('c, 'o) pool \<Rightarrow> string option \<times> ('c, 'o) pool" where
  "closeLoop closeConn [] firstErr p = (firstErr, p)"
| "closeLoop closeConn ((a, c) # rest) firstErr p =
     (let err = closeConn c;
          firstErr = (if err \<noteq> None \<and> firstErr = None then err else firstErr)
      in closeLoop closeConn rest firstErr (p\<lparr>conns := gm_del a (conns p), closed := closed p @ [(a, c)]\<rparr>))"

section \<open>The consensus transport\<close>

definition NewTransport :: "'o \<Rightarrow> 'o list \<Rightarrow> ('c, 'o) pool" where
  "NewTransport insecure opts = emptyPool (withDefault insecure opts)"

definition Transport_clientFor :: "'o \<Rightarrow> ('c, 'o) newClient \<Rightarrow> addr \<Rightarrow> ('c, 'o) pool \<Rightarrow> (string + 'c) \<times> ('c, 'o) pool" where
  "Transport_clientFor insecure newClient a t =
     (case map_of (conns t) a of
        Some c \<Rightarrow> (Inr c, t)
      | None \<Rightarrow>
          (let res = DialPassthrough insecure newClient a (dialOpts t)
           in (res, dialled a (passthrough a) (withDefault insecure (dialOpts t)) res t)))"

definition SendRequestVote :: "'o \<Rightarrow> ('c, 'o) newClient \<Rightarrow> (bool \<Rightarrow> 'c \<Rightarrow> RequestVoteRequest \<Rightarrow> string + RequestVoteReply) \<Rightarrow>
    addr \<Rightarrow> RequestVoteRequest \<Rightarrow> ('c, 'o) pool \<Rightarrow> (string + RequestVoteReply) \<times> ('c, 'o) pool" where
  "SendRequestVote insecure newClient rpc peerID req t =
     (case Transport_clientFor insecure newClient peerID t of
        (Inl e, t1) \<Rightarrow> (Inl e, t1)
      | (Inr c, t1) \<Rightarrow> (rpc False c req, t1))"

definition SendAppendEntries :: "'o \<Rightarrow> ('c, 'o) newClient \<Rightarrow> (bool \<Rightarrow> 'c \<Rightarrow> AppendEntriesRequest \<Rightarrow> string + AppendEntriesReply) \<Rightarrow>
    addr \<Rightarrow> AppendEntriesRequest \<Rightarrow> ('c, 'o) pool \<Rightarrow> (string + AppendEntriesReply) \<times> ('c, 'o) pool" where
  "SendAppendEntries insecure newClient rpc peerID req t =
     (case Transport_clientFor insecure newClient peerID t of
        (Inl e, t1) \<Rightarrow> (Inl e, t1)
      | (Inr c, t1) \<Rightarrow> (rpc True c req, t1))"

definition SendReadIndex :: "'o \<Rightarrow> ('c, 'o) newClient \<Rightarrow> (bool \<Rightarrow> 'c \<Rightarrow> string + ReadIndexReply) \<Rightarrow>
    addr \<Rightarrow> ('c, 'o) pool \<Rightarrow> (string + ReadIndexReply) \<times> ('c, 'o) pool" where
  "SendReadIndex insecure newClient rpc peerID t =
     (case Transport_clientFor insecure newClient peerID t of
        (Inl e, t1) \<Rightarrow> (Inl e, t1)
      | (Inr c, t1) \<Rightarrow> (rpc True c, t1))"

definition Transport_Close :: "('c \<Rightarrow> string option) \<Rightarrow> (addr \<times> 'c) list \<Rightarrow> ('c, 'o) pool \<Rightarrow> string option \<times> ('c, 'o) pool" where
  "Transport_Close closeConn order t = closeLoop closeConn order None t"

section \<open>The prober of the discovery service\<close>

definition NewGRPCProber :: "'o \<Rightarrow> 'o list \<Rightarrow> ('c, 'o) pool" where
  "NewGRPCProber insecure opts = emptyPool (withDefault insecure opts)"

definition Prober_clientFor :: "('c, 'o) newClient \<Rightarrow> addr \<Rightarrow> ('c, 'o) pool \<Rightarrow> (string + 'c) \<times> ('c, 'o) pool" where
  "Prober_clientFor newClient a p =
     (case map_of (conns p) a of
        Some c \<Rightarrow> (Inr c, p)
      | None \<Rightarrow> (let res = newClient a (dialOpts p) in (res, dialled a a (dialOpts p) res p)))"

definition Prober_GetStatus :: "('c, 'o) newClient \<Rightarrow> (bool \<Rightarrow> 'c \<Rightarrow> string + GetStatusReply) \<Rightarrow>
    addr \<Rightarrow> ('c, 'o) pool \<Rightarrow> (string + GetStatusReply) \<times> ('c, 'o) pool" where
  "Prober_GetStatus newClient rpc a p =
     (case Prober_clientFor newClient a p of
        (Inl e, p1) \<Rightarrow> (Inl e, p1)
      | (Inr c, p1) \<Rightarrow> (rpc False c, p1))"

definition Prober_Close :: "('c \<Rightarrow> string option) \<Rightarrow> (addr \<times> 'c) list \<Rightarrow> ('c, 'o) pool \<Rightarrow> string option \<times> ('c, 'o) pool" where
  "Prober_Close closeConn order p = closeLoop closeConn order None p"

section \<open>The proxy's client factory\<close>

text \<open>\<open>KVClientFor\<close> never fails: a dial that does gives a client every call of which fails with that error.\<close>

datatype 'c kvClient = KVClient 'c | ErrClient string

definition NewGRPCClientFactory :: "'o \<Rightarrow> 'o list \<Rightarrow> ('c, 'o) pool" where
  "NewGRPCClientFactory insecure opts = emptyPool (withDefault insecure opts)"

definition KVClientFor :: "('c, 'o) newClient \<Rightarrow> addr \<Rightarrow> ('c, 'o) pool \<Rightarrow> 'c kvClient \<times> ('c, 'o) pool" where
  "KVClientFor newClient a f =
     (case map_of (conns f) a of
        Some c \<Rightarrow> (KVClient c, f)
      | None \<Rightarrow>
          (let res = newClient a (dialOpts f)
           in ((case res of Inl e \<Rightarrow> ErrClient e | Inr c \<Rightarrow> KVClient c), dialled a a (dialOpts f) res f)))"

definition kvClientGet :: "('c \<Rightarrow> GetRequest \<Rightarrow> string + GetReply) \<Rightarrow> 'c kvClient \<Rightarrow> GetRequest \<Rightarrow> string + GetReply" where
  "kvClientGet rpc cl req = (case cl of KVClient c \<Rightarrow> rpc c req | ErrClient e \<Rightarrow> Inl e)"

definition kvClientWrite :: "('c \<Rightarrow> kvCall \<Rightarrow> string + WriteReply) \<Rightarrow> 'c kvClient \<Rightarrow> kvCall \<Rightarrow> string + WriteReply" where
  "kvClientWrite rpc cl req = (case cl of KVClient c \<Rightarrow> rpc c req | ErrClient e \<Rightarrow> Inl e)"

definition Factory_Close :: "('c \<Rightarrow> string option) \<Rightarrow> (addr \<times> 'c) list \<Rightarrow> ('c, 'o) pool \<Rightarrow> string option \<times> ('c, 'o) pool" where
  "Factory_Close closeConn order f = closeLoop closeConn order None f"

section \<open>The backup service's transfer client\<close>

definition NewGRPCTransferClient :: "'o list \<Rightarrow> ('c, 'o) pool" where
  "NewGRPCTransferClient opts = emptyPool opts"

definition Transfer_clientFor :: "'o \<Rightarrow> ('c, 'o) newClient \<Rightarrow> addr \<Rightarrow> ('c, 'o) pool \<Rightarrow> (string + 'c) \<times> ('c, 'o) pool" where
  "Transfer_clientFor insecure newClient a t =
     (case map_of (conns t) a of
        Some c \<Rightarrow> (Inr c, t)
      | None \<Rightarrow>
          (let res = DialPassthrough insecure newClient a (dialOpts t)
           in (res, dialled a (passthrough a) (withDefault insecure (dialOpts t)) res t)))"

definition Transfer_GetLogStatus :: "'o \<Rightarrow> ('c, 'o) newClient \<Rightarrow> (bool \<Rightarrow> 'c \<Rightarrow> string + LogStatusReply) \<Rightarrow>
    addr \<Rightarrow> ('c, 'o) pool \<Rightarrow> (string + LogStatusReply) \<times> ('c, 'o) pool" where
  "Transfer_GetLogStatus insecure newClient rpc a t =
     (case Transfer_clientFor insecure newClient a t of
        (Inl e, t1) \<Rightarrow> (Inl e, t1)
      | (Inr c, t1) \<Rightarrow> (rpc False c, t1))"

text \<open>
  What a stream yields: its messages and then its end, which is \<open>io.EOF\<close> or an error. Opening it can fail as well.
\<close>

datatype 'm stream = Eof | StreamErr string | Msg 'm "'m stream"

fun recvLoop :: "'m stream \<Rightarrow> 'm list \<Rightarrow> string + 'm list" where
  "recvLoop Eof entries = Inr entries"
| "recvLoop (StreamErr e) entries = Inl e"
| "recvLoop (Msg m rest) entries = recvLoop rest (entries @ [m])"

definition Transfer_StreamLogRange :: "'o \<Rightarrow> ('c, 'o) newClient \<Rightarrow> (bool \<Rightarrow> 'c \<Rightarrow> LogRangeRequest \<Rightarrow> string + PbLogEntry stream) \<Rightarrow>
    addr \<Rightarrow> uint64 \<Rightarrow> uint64 \<Rightarrow> ('c, 'o) pool \<Rightarrow> (string + PbLogEntry list) \<times> ('c, 'o) pool" where
  "Transfer_StreamLogRange insecure newClient rpc a fromIndex toIndex t =
     (case Transfer_clientFor insecure newClient a t of
        (Inl e, t1) \<Rightarrow> (Inl e, t1)
      | (Inr c, t1) \<Rightarrow>
          (case rpc True c \<lparr>lrFromIndex = fromIndex, lrToIndex = toIndex\<rparr> of
             Inl e \<Rightarrow> (Inl e, t1)
           | Inr st \<Rightarrow> (recvLoop st [], t1)))"

definition Transfer_ConfirmCompaction :: "'o \<Rightarrow> ('c, 'o) newClient \<Rightarrow> (bool \<Rightarrow> 'c \<Rightarrow> CompactionAck \<Rightarrow> string option) \<Rightarrow>
    addr \<Rightarrow> uint64 \<Rightarrow> bytes \<Rightarrow> ('c, 'o) pool \<Rightarrow> string option \<times> ('c, 'o) pool" where
  "Transfer_ConfirmCompaction insecure newClient rpc a upTo snap t =
     (case Transfer_clientFor insecure newClient a t of
        (Inl e, t1) \<Rightarrow> (Some e, t1)
      | (Inr c, t1) \<Rightarrow> (rpc True c \<lparr>caTruncatedUpToIndex = upTo, caStateMachineSnapshot = snap\<rparr>, t1))"

definition Transfer_Close :: "('c \<Rightarrow> string option) \<Rightarrow> (addr \<times> 'c) list \<Rightarrow> ('c, 'o) pool \<Rightarrow> string option \<times> ('c, 'o) pool" where
  "Transfer_Close closeConn order t = closeLoop closeConn order None t"

section \<open>Clients with a single connection\<close>

text \<open>
  The clients of the discovery service (one in \<open>internal/proxy\<close>, one in \<open>internal/snapshot\<close>) and of the snapshot
  catalog (\<open>internal/raft/snapshotcatalogclient\<close>) hold one connection, dialled when they are built.
\<close>

definition NewGRPCDiscoveryClient :: "'o \<Rightarrow> ('c, 'o) newClient \<Rightarrow> addr \<Rightarrow> 'o list \<Rightarrow> string + 'c" where
  "NewGRPCDiscoveryClient insecure newClient a opts = newClient a (withDefault insecure opts)"

definition Snapshot_NewGRPCDiscoveryClient :: "'o \<Rightarrow> ('c, 'o) newClient \<Rightarrow> addr \<Rightarrow> 'o list \<Rightarrow> string + 'c" where
  "Snapshot_NewGRPCDiscoveryClient insecure newClient a opts = newClient a (withDefault insecure opts)"

definition NewCatalogClient :: "'o \<Rightarrow> ('c, 'o) newClient \<Rightarrow> addr \<Rightarrow> 'o list \<Rightarrow> string + 'c" where
  "NewCatalogClient insecure newClient a opts = DialPassthrough insecure newClient a opts"

section \<open>One connection per address\<close>

text \<open>A sequence of lookups: what the library would answer at each, and the address asked for.\<close>

fun lookups :: "(('c, 'o) newClient \<Rightarrow> addr \<Rightarrow> ('c, 'o) pool \<Rightarrow> (string + 'c) \<times> ('c, 'o) pool) \<Rightarrow>
    (('c, 'o) newClient \<times> addr) list \<Rightarrow> ('c, 'o) pool \<Rightarrow> ('c, 'o) pool" where
  "lookups lookup [] p = p"
| "lookups lookup ((newClient, a) # rest) p = lookups lookup rest (snd (lookup newClient a p))"

text \<open>The first error the connections report when they are closed in this order.\<close>

definition firstError :: "('c \<Rightarrow> string option) \<Rightarrow> (addr \<times> 'c) list \<Rightarrow> string option" where
  "firstError closeConn order = (case filter (\<lambda>e. e \<noteq> None) (map (closeConn \<circ> snd) order) of [] \<Rightarrow> None | e # _ \<Rightarrow> e)"

lemma closeLoop_effect:
  "closeLoop cl order err p =
     (if err = None then firstError cl order else err,
      p\<lparr>conns := filter (\<lambda>e. fst e \<notin> fst ` set order) (conns p), closed := closed p @ order\<rparr>)"
proof (induction cl order err p rule: closeLoop.induct)
  case (2 cl a c rest err p)
  have "filter (\<lambda>e. fst e \<notin> fst ` set rest) (gm_del a (conns p)) = filter (\<lambda>e. fst e \<notin> fst ` set ((a, c) # rest)) (conns p)"
    by (auto simp: gm_del_def case_prod_unfold intro!: filter_cong)
  then show ?case using 2 by (cases err) (auto simp: firstError_def Let_def)
qed (simp add: firstError_def)

text \<open>
  The contract the four clients share: a known address is answered from the map without touching the library, an
  unknown one is dialled once, and closing visits the entries it is given.
\<close>

locale conn_cache =
  fixes lookup :: "('c, 'o) newClient \<Rightarrow> addr \<Rightarrow> ('c, 'o) pool \<Rightarrow> (string + 'c) \<times> ('c, 'o) pool"
    and close :: "('c \<Rightarrow> string option) \<Rightarrow> (addr \<times> 'c) list \<Rightarrow> ('c, 'o) pool \<Rightarrow> string option \<times> ('c, 'o) pool"
    and target :: "addr \<Rightarrow> string"
    and options :: "'o list \<Rightarrow> 'o list"
  assumes hit: "map_of (conns p) a = Some c \<Longrightarrow> lookup nc a p = (Inr c, p)"
    and miss: "map_of (conns p) a = None \<Longrightarrow>
      lookup nc a p = (nc (target a) (options (dialOpts p)), dialled a (target a) (options (dialOpts p)) (nc (target a) (options (dialOpts p))) p)"
    and closes: "close cl order p = closeLoop cl order None p"
begin

text \<open>As long as nothing is closed, the map holds exactly what was opened, one connection per address.\<close>

definition settled :: "('c, 'o) pool \<Rightarrow> bool" where
  "settled p \<longleftrightarrow> conns p = opened p \<and> closed p = [] \<and> gm_wf (conns p) \<and>
     (\<forall>d \<in> set (dials p). \<exists>a. d = (target a, options (dialOpts p)))"

lemma settled_lookup: "settled p \<Longrightarrow> settled (snd (lookup nc a p)) \<and> dialOpts (snd (lookup nc a p)) = dialOpts p"
proof (cases "map_of (conns p) a")
  case None
  assume p: "settled p"
  have "gm_set a c m = m @ [(a, c)]" if "map_of m a = None" for c and m :: "(addr, 'c) gomap"
    using that by (induction m) (auto split: if_splits)
  then show ?thesis using p None gm_wf_set [of "conns p" a]
    by (auto simp: miss settled_def dialled_def Let_def split: sum.splits)
qed (simp add: hit)

lemma settled_lookups: "settled p \<Longrightarrow> settled (lookups lookup ops p) \<and> dialOpts (lookups lookup ops p) = dialOpts p"
proof (induction ops arbitrary: p)
  case (Cons x ops)
  then show ?case using settled_lookup [of p "fst x" "snd x"] by (cases x) auto
qed simp

lemma settled_empty: "settled (emptyPool opts)"
  by (simp add: settled_def emptyPool_def)

lemma known_stays: "map_of (conns p) a = Some c \<Longrightarrow> map_of (conns (lookups lookup ops p)) a = Some c"
proof (induction ops arbitrary: p)
  case (Cons x ops)
  obtain nc b where x: "x = (nc, b)" by force
  have "map_of (conns (snd (lookup nc b p))) a = Some c"
  proof (cases "map_of (conns p) b")
    case None
    then show ?thesis using Cons.prems by (auto simp: miss dialled_def Let_def split: sum.splits)
  qed (simp add: hit Cons.prems)
  then show ?case by (simp add: x Cons.IH)
qed simp

lemma one_connection:
  assumes "lookup nc a (lookups lookup ops (emptyPool opts)) = (Inr c, p)"
  shows "lookup nc' a (lookups lookup ops' p) = (Inr c, lookups lookup ops' p)"
proof -
  have "map_of (conns p) a = Some c"
    using assms by (cases "map_of (conns (lookups lookup ops (emptyPool opts))) a")
      (auto simp: hit miss dialled_def Let_def split: sum.splits)
  then show ?thesis by (intro hit known_stays)
qed

lemma none_leaks:
  fixes ops opts
  defines "p \<equiv> lookups lookup ops (emptyPool opts)"
  assumes order: "mset order = mset (conns p)" and c: "close cl order p = (err, q)"
  shows "conns q = []" "mset (closed q) = mset (opened q)" "distinct (map fst (opened q))" "err = firstError cl order"
proof -
  have s: "settled p"
    unfolding p_def using settled_lookups [OF settled_empty] by blast
  have "set order = set (conns p)" using order by (metis set_mset_mset)
  then show "conns q = []" "mset (closed q) = mset (opened q)" "distinct (map fst (opened q))" "err = firstError cl order"
    using s order c by (auto simp: closes closeLoop_effect settled_def gm_wf_def filter_empty_conv)
qed

end

lemmas cache_defs = DialPassthrough_def withDefault_def Let_def

interpretation transport: conn_cache "Transport_clientFor insecure" Transport_Close passthrough "withDefault insecure" for insecure
  by unfold_locales (simp_all add: Transport_clientFor_def Transport_Close_def cache_defs)

interpretation prober: conn_cache Prober_clientFor Prober_Close "\<lambda>a. a" "\<lambda>opts. opts"
  by unfold_locales (simp_all add: Prober_clientFor_def Prober_Close_def cache_defs)

interpretation transfer: conn_cache "Transfer_clientFor insecure" Transfer_Close passthrough "withDefault insecure" for insecure
  by unfold_locales (simp_all add: Transfer_clientFor_def Transfer_Close_def cache_defs)

text \<open>The factory answers with a client; the connection or the error is in it.\<close>

definition clientConn :: "'c kvClient \<Rightarrow> string + 'c" where
  "clientConn cl = (case cl of KVClient c \<Rightarrow> Inr c | ErrClient e \<Rightarrow> Inl e)"

definition Factory_lookup :: "('c, 'o) newClient \<Rightarrow> addr \<Rightarrow> ('c, 'o) pool \<Rightarrow> (string + 'c) \<times> ('c, 'o) pool" where
  "Factory_lookup newClient a f = (case KVClientFor newClient a f of (cl, f1) \<Rightarrow> (clientConn cl, f1))"

interpretation kvfactory: conn_cache Factory_lookup Factory_Close "\<lambda>a. a" "\<lambda>opts. opts"
  by unfold_locales (auto simp: Factory_lookup_def KVClientFor_def Factory_Close_def clientConn_def cache_defs split: sum.splits)

text \<open>
  What such a client promises from the moment it is built: an address that has been dialled keeps its connection
  whatever is asked for later and whatever the library would answer, and closing in any order leaves the map empty,
  closes exactly what was opened, one connection per address, and reports the first error.
\<close>

definition keeps_connections :: "(('c, 'o) newClient \<Rightarrow> addr \<Rightarrow> ('c, 'o) pool \<Rightarrow> (string + 'c) \<times> ('c, 'o) pool) \<Rightarrow>
    (('c \<Rightarrow> string option) \<Rightarrow> (addr \<times> 'c) list \<Rightarrow> ('c, 'o) pool \<Rightarrow> string option \<times> ('c, 'o) pool) \<Rightarrow> ('c, 'o) pool \<Rightarrow> bool" where
  "keeps_connections lookup close p0 \<longleftrightarrow>
     (\<forall>ops nc a c p. lookup nc a (lookups lookup ops p0) = (Inr c, p) \<longrightarrow>
        (\<forall>nc' ops'. lookup nc' a (lookups lookup ops' p) = (Inr c, lookups lookup ops' p))) \<and>
     (\<forall>ops order cl err q. mset order = mset (conns (lookups lookup ops p0)) \<longrightarrow> close cl order (lookups lookup ops p0) = (err, q) \<longrightarrow>
        conns q = [] \<and> mset (closed q) = mset (opened q) \<and> distinct (map fst (opened q)) \<and> err = firstError cl order)"

context conn_cache
begin

lemma keeps: "keeps_connections lookup close (emptyPool opts)"
  unfolding keeps_connections_def by (intro conjI allI impI) (erule one_connection, (erule none_leaks, assumption)+)

end

text \<open>
  C32: The four clients of the processes keep one connection per address and leak none: the connection an address was
  first given is the one every later call uses, however the library would answer, and \<open>Close\<close>, in whatever order it
  visits the map, closes each connection that was opened exactly once and returns the first error.
\<close>

theorem connections_kept:
  "keeps_connections (Transport_clientFor insecure) Transport_Close (NewTransport insecure opts) \<and>
   keeps_connections Prober_clientFor Prober_Close (NewGRPCProber insecure opts) \<and>
   keeps_connections Factory_lookup Factory_Close (NewGRPCClientFactory insecure opts) \<and>
   keeps_connections (Transfer_clientFor insecure) Transfer_Close (NewGRPCTransferClient opts)"
  by (simp add: NewTransport_def NewGRPCProber_def NewGRPCClientFactory_def NewGRPCTransferClient_def
      transport.keeps prober.keeps kvfactory.keeps transfer.keeps)

section \<open>Who dials how\<close>

text \<open>
  Calls between consensus nodes and those of the backup service go through \<open>DialPassthrough\<close>; the prober and the
  proxy, which also call consensus nodes, hand the bare address to \<open>grpc.NewClient\<close>.
\<close>

lemma first_dial:
  "dials (snd (Transport_clientFor insecure nc a (NewTransport insecure opts))) = [(''passthrough:///'' @ a, withDefault insecure opts)]"
  "dials (snd (Transfer_clientFor insecure nc a (NewGRPCTransferClient opts))) = [(''passthrough:///'' @ a, withDefault insecure opts)]"
  "dials (snd (Prober_clientFor nc a (NewGRPCProber insecure opts))) = [(a, withDefault insecure opts)]"
  "dials (snd (KVClientFor nc a (NewGRPCClientFactory insecure opts))) = [(a, withDefault insecure opts)]"
  by (auto simp: Transport_clientFor_def Transfer_clientFor_def Prober_clientFor_def KVClientFor_def emptyPool_def dialled_def
      NewTransport_def NewGRPCProber_def NewGRPCClientFactory_def NewGRPCTransferClient_def passthrough_def cache_defs split: sum.splits)

section \<open>Calls over the connections\<close>

text \<open>
  The entries of a stream that ends are all received, in order; one that breaks gives its error and nothing else.
\<close>

fun streamOf :: "string option \<Rightarrow> 'm list \<Rightarrow> 'm stream" where
  "streamOf None [] = Eof"
| "streamOf (Some e) [] = StreamErr e"
| "streamOf end' (m # ms) = Msg m (streamOf end' ms)"

lemma recvLoop_streamOf: "recvLoop (streamOf end' ms) acc = (case end' of None \<Rightarrow> Inr (acc @ ms) | Some e \<Rightarrow> Inl e)"
  by (induction end' ms arbitrary: acc rule: streamOf.induct) (auto split: option.splits)

text \<open>A node's range of entries as the transfer client sees it: what \<open>recvEntries\<close> gives.\<close>

lemma transfer_stream:
  assumes "Transfer_clientFor insecure nc a t = (Inr c, t1)"
    and "rpc True c \<lparr>lrFromIndex = i, lrToIndex = j\<rparr> = Inr (streamOf (map_option (\<lambda>_. msg) (fst sent)) (snd sent))"
  shows "Transfer_StreamLogRange insecure nc rpc a i j t =
    (case recvEntries sent of Some es \<Rightarrow> Inr es | None \<Rightarrow> Inl msg, t1)"
  using assms by (auto simp: Transfer_StreamLogRange_def recvLoop_streamOf recvEntries_def split: option.splits)

text \<open>A request of the proxy to an address that cannot be dialled fails as a call does, and the next one dials again.\<close>

lemma undialable_call_fails:
  assumes "map_of (conns f) a = None" "nc a (dialOpts f) = Inl e" "KVClientFor nc a f = (cl, f1)"
  shows "kvClientWrite rpc cl req = Inl e" "kvClientGet rpc' cl req' = Inl e" "conns f1 = conns f"
  using assms by (auto simp: KVClientFor_def kvClientWrite_def kvClientGet_def dialled_def Let_def)

end
