(* ===== verification/Harness.thy ===== *)
theory Harness
  imports Raft_Safety Raft_ReadIndex Go_Text "HOL-Library.Multiset"
begin

text \<open>
  The in-process test harness (\<open>internal/raft/harness\<close>): the fake network with its delivery filters
  (\<open>network.go\<close>) and the cluster built over it (\<open>cluster.go\<close>), and that what it runs is the cluster of
  \<open>Raft_Cluster\<close>: every state the harness reaches, whatever the filters drop and delay, has the nodes of a reachable
  cluster state, so the safety theorems speak about its tests.

  The nodes are objects on a heap, and the network's and the cluster's maps hold references to them; the node
  of an identifier is allocated at the reference of that name. A
  call is one function from the heap to the heap; whether the timer or the context comes first in a delayed call is
  an argument.
\<close>

section \<open>The network\<close>

datatype MessageKind = KindRequestVote | KindAppendEntries | KindReadIndex

text \<open>Drop the request, drop the reply, and how long to hold the message.\<close>

type_synonym Filter = "string \<Rightarrow> string \<Rightarrow> MessageKind \<Rightarrow> bool \<times> bool \<times> duration"

type_synonym nref = addr
type_synonym heap = "nref \<Rightarrow> node"

datatype harnessError = errDropped | errContext | errHandler raftError

record Network =
  netNodes :: "(string, nref) gomap"
  netFilter :: "Filter option"

definition NewNetwork :: Network where
  "NewNetwork = \<lparr>netNodes = [], netFilter = None\<rparr>"

definition Register :: "string \<Rightarrow> nref \<Rightarrow> Network \<Rightarrow> Network" where
  "Register i n net = net\<lparr>netNodes := gm_set i n (netNodes net)\<rparr>"

definition SetFilter :: "Filter option \<Rightarrow> Network \<Rightarrow> Network" where
  "SetFilter f net = net\<lparr>netFilter := f\<rparr>"

definition route :: "string \<Rightarrow> Network \<Rightarrow> nref option \<times> Filter option" where
  "route to net = (map_of (netNodes net) to, netFilter net)"

text \<open>What \<open>check\<close> decides about a message: the node it is for, whether it or its reply is dropped, and its delay.\<close>

type_synonym checked = "nref option \<times> bool \<times> bool \<times> duration"

definition check :: "Network \<Rightarrow> string \<Rightarrow> string \<Rightarrow> MessageKind \<Rightarrow> checked" where
  "check net frm peerID kind =
     (case route peerID net of
        (None, _) \<Rightarrow> (None, True, False, 0)
      | (Some n, None) \<Rightarrow> (Some n, False, False, 0)
      | (Some n, Some flt) \<Rightarrow> (case flt frm peerID kind of (dropReq, dropReply, delay) \<Rightarrow> (Some n, dropReq, dropReply, delay)))"

text \<open>\<open>wait\<close>: whether the timer fires before the context ends.\<close>

definition waitFor :: "bool \<Rightarrow> harnessError option" where
  "waitFor timerFirst = (if timerFirst then None else Some errContext)"

definition replyOf :: "bool \<Rightarrow> raftError + 'r \<Rightarrow> harnessError + 'r" where
  "replyOf dropReply reply =
     (if dropReply then Inl errDropped else (case reply of Inl e \<Rightarrow> Inl (errHandler e) | Inr r \<Rightarrow> Inr r))"

text \<open>
  A call is checked when it is made and delivered when its delay is over; by then the filter may be another one and the nodes
  have moved on. \<open>deliverVote\<close> and \<open>deliverAppend\<close> are what follows \<open>check\<close>.
\<close>

definition deliverVote :: "env \<Rightarrow> bool \<Rightarrow> checked \<Rightarrow> RequestVoteRequest \<Rightarrow> heap \<Rightarrow> (harnessError + RequestVoteReply) \<times> heap" where
  "deliverVote ev timerFirst checked req H =
     (case checked of
        (None, _) \<Rightarrow> (Inl errDropped, H)
      | (Some n, dropReq, dropReply, delay) \<Rightarrow>
          if dropReq then (Inl errDropped, H)
          else (case (if 0 < delay then waitFor timerFirst else None) of
                  Some e \<Rightarrow> (Inl e, H)
                | None \<Rightarrow>
                    (case RequestVote ev req (H n) of
                       (reply, n') \<Rightarrow> (replyOf dropReply reply, H(n := n')))))"

definition Fake_SendRequestVote :: "env \<Rightarrow> Network \<Rightarrow> string \<Rightarrow> bool \<Rightarrow> string \<Rightarrow> RequestVoteRequest \<Rightarrow> heap \<Rightarrow>
    (harnessError + RequestVoteReply) \<times> heap" where
  "Fake_SendRequestVote ev net frm timerFirst peerID req H = deliverVote ev timerFirst (check net frm peerID KindRequestVote) req H"

definition deliverAppend :: "env \<Rightarrow> bool \<Rightarrow> checked \<Rightarrow> AppendEntriesRequest \<Rightarrow> heap \<Rightarrow> (harnessError + AppendEntriesReply) \<times> heap" where
  "deliverAppend ev timerFirst checked req H =
     (case checked of
        (None, _) \<Rightarrow> (Inl errDropped, H)
      | (Some n, dropReq, dropReply, delay) \<Rightarrow>
          if dropReq then (Inl errDropped, H)
          else (case (if 0 < delay then waitFor timerFirst else None) of
                  Some e \<Rightarrow> (Inl e, H)
                | None \<Rightarrow>
                    (case AppendEntries ev req (H n) of
                       (reply, n') \<Rightarrow> (replyOf dropReply reply, H(n := n')))))"

definition Fake_SendAppendEntries :: "env \<Rightarrow> Network \<Rightarrow> string \<Rightarrow> bool \<Rightarrow> string \<Rightarrow> AppendEntriesRequest \<Rightarrow> heap \<Rightarrow>
    (harnessError + AppendEntriesReply) \<times> heap" where
  "Fake_SendAppendEntries ev net frm timerFirst peerID req H = deliverAppend ev timerFirst (check net frm peerID KindAppendEntries) req H"

text \<open>
  A Read-Index call does not change the node it reaches, but runs while others do: the heaps are those at
  the three moments it takes the node's lock (see \<open>RequestReadIndex\<close>), and it may not have returned yet.
\<close>

definition Fake_SendReadIndex :: "Network \<Rightarrow> string \<Rightarrow> bool \<Rightarrow> string \<Rightarrow> heap \<Rightarrow> heap \<Rightarrow> ackEvent list \<Rightarrow> heap \<Rightarrow>
    (harnessError + ReadIndexReply) option" where
  "Fake_SendReadIndex net frm timerFirst peerID H0 H1 evs H2 =
     (case check net frm peerID KindReadIndex of
        (None, _) \<Rightarrow> Some (Inl errDropped)
      | (Some n, dropReq, dropReply, delay) \<Rightarrow>
          if dropReq then Some (Inl errDropped)
          else (case (if 0 < delay then waitFor timerFirst else None) of
                  Some e \<Rightarrow> Some (Inl e)
                | None \<Rightarrow> map_option (replyOf dropReply) (RequestReadIndex (H0 n) (H1 n) evs (H2 n))))"

definition Disconnected :: "string list \<Rightarrow> Filter" where
  "Disconnected ids = (\<lambda>frm to _. (frm \<in> set ids \<or> to \<in> set ids, False, 0))"

definition DropReplyFrom :: "string \<Rightarrow> Filter" where
  "DropReplyFrom i = (\<lambda>frm _ _. (False, frm = i, 0))"

section \<open>The cluster\<close>

definition FastTiming :: TimingConfig where
  "FastTiming = \<lparr>ElectionTimeoutMin = 60000000, ElectionTimeoutMax = 120000000, HeartbeatInterval = 15000000\<rparr>"

record Cluster =
  Net :: Network
  IDs :: "string list"
  Nodes :: "(string, nref) gomap"
  nodeHeap :: heap

definition peersOf :: "string \<Rightarrow> string list \<Rightarrow> string list" where
  "peersOf i ids = filter (\<lambda>other. other \<noteq> i) ids"

definition harnessConfig :: "string list \<Rightarrow> TimingConfig \<Rightarrow> string \<Rightarrow> Config" where
  "harnessConfig ids tc i =
     \<lparr>cfgID = i, cfgAddress = i, cfgPeers = peersOf i ids, cfgTiming = tc, cfgLogCapacity = 0, cfgLocalSnapshot = None\<rparr>"

definition addNode :: "env \<Rightarrow> string \<Rightarrow> datadir \<Rightarrow> TimingConfig \<Rightarrow> Cluster \<Rightarrow> raftError + Cluster" where
  "addNode ev i d tc c =
     (case NewNode ev (harnessConfig (IDs c) tc i) d of
        Inl e \<Rightarrow> Inl e
      | Inr n \<Rightarrow> Inr (c\<lparr>nodeHeap := (nodeHeap c)(i := n), Net := Register i i (Net c), Nodes := gm_set i i (Nodes c)\<rparr>))"

fun addNodes :: "(string \<Rightarrow> env) \<Rightarrow> string list \<Rightarrow> (string \<Rightarrow> datadir) \<Rightarrow> TimingConfig \<Rightarrow> Cluster \<Rightarrow> raftError + Cluster" where
  "addNodes ev [] dataDir tc c = Inr c"
| "addNodes ev (i # ids) dataDir tc c =
     (case addNode (ev i) i (dataDir i) tc c of Inl e \<Rightarrow> Inl e | Inr c1 \<Rightarrow> addNodes ev ids dataDir tc c1)"

definition clusterIDs :: "nat \<Rightarrow> string list" where
  "clusterIDs n = map (\<lambda>i. ''node-'' @ showNat (i + 1)) [0..<n]"

definition NewCluster :: "(string \<Rightarrow> env) \<Rightarrow> nat \<Rightarrow> (string \<Rightarrow> datadir) \<Rightarrow> TimingConfig \<Rightarrow> heap \<Rightarrow> raftError + Cluster" where
  "NewCluster ev n dataDir tc H =
     addNodes ev (clusterIDs n) dataDir tc \<lparr>Net = NewNetwork, IDs = clusterIDs n, Nodes = [], nodeHeap = H\<rparr>"

text \<open>What \<open>Applied\<close> returns: the messages the node's \<open>ApplyFn\<close> has been called with, in order.\<close>

definition Applied :: "string \<Rightarrow> Cluster \<Rightarrow> ApplyMsg list" where
  "Applied i c =
     (case map_of (Nodes c) i of
        None \<Rightarrow> []
      | Some r \<Rightarrow> concat (map (\<lambda>op. case op of ApplyFn m \<Rightarrow> [m] | RestoreState _ \<Rightarrow> []) (smOps (nodeHeap c r))))"

text \<open>
  \<open>Leaders\<close> asks the nodes one after the other, each under its own lock: a reading is the identifier and the heap
  at that moment. The result is a map from identifiers to terms.
\<close>

definition Leaders :: "(string \<times> heap) list \<Rightarrow> (string, uint64) gomap" where
  "Leaders readings =
     fold (\<lambda>(i, H) out. if role (H i) = Leader then gm_set i (currentTerm (H i)) out else out) readings []"

text \<open>\<open>WaitForLeader\<close>: the results of \<open>Leaders\<close> that come in before the deadline.\<close>

fun WaitForLeader :: "(string, uint64) gomap list \<Rightarrow> (string \<times> uint64) option" where
  "WaitForLeader [] = None"
| "WaitForLeader (leaders # polls) = (if length leaders = 1 then Some (hd leaders) else WaitForLeader polls)"

section \<open>What the filters do\<close>

lemmas fake_vote_defs = Fake_SendRequestVote_def deliverVote_def
lemmas fake_append_defs = Fake_SendAppendEntries_def deliverAppend_def

lemma disconnected_drops:
  assumes "netFilter net = Some (Disconnected ids)" "frm \<in> set ids \<or> to \<in> set ids"
  shows "Fake_SendRequestVote ev net frm tf to rv H = (Inl errDropped, H)"
    "Fake_SendAppendEntries ev net frm tf to ae H = (Inl errDropped, H)"
    "Fake_SendReadIndex net frm tf to H H1 evs H2 = Some (Inl errDropped)"
  using assms
  by (auto simp: fake_vote_defs fake_append_defs Fake_SendReadIndex_def check_def route_def Disconnected_def
      split: option.splits)

lemma connected_delivers:
  assumes "map_of (netNodes net) to = Some r" "netFilter net = None \<or> netFilter net = Some (Disconnected ids) \<and> frm \<notin> set ids \<and> to \<notin> set ids"
  shows "Fake_SendRequestVote ev net frm tf to rv H = (let (reply, n) = RequestVote ev rv (H r) in (replyOf False reply, H(r := n)))"
    "Fake_SendAppendEntries ev net frm tf to ae H = (let (reply, n) = AppendEntries ev ae (H r) in (replyOf False reply, H(r := n)))"
  using assms
  by (auto simp: fake_vote_defs fake_append_defs check_def route_def Disconnected_def Let_def split: prod.splits)

lemma dropped_reply_delivers:
  assumes "map_of (netNodes net) to = Some r" "netFilter net = Some (DropReplyFrom frm)"
  shows "Fake_SendRequestVote ev net frm tf to rv H = (Inl errDropped, H(r := snd (RequestVote ev rv (H r))))"
    "Fake_SendAppendEntries ev net frm tf to ae H = (Inl errDropped, H(r := snd (AppendEntries ev ae (H r))))"
  using assms
  by (auto simp: fake_vote_defs fake_append_defs check_def route_def DropReplyFrom_def replyOf_def
      split: prod.splits)

text \<open>With the disk working, no handler fails.\<close>

lemma vote_answers: "healthy ev \<Longrightarrow> \<exists>reply n'. RequestVote ev req n = (Inr reply, n')"
  by (auto simp: RequestVote_def grantVote_healthy observe_healthy Let_def split: if_splits)

lemma append_answers: "healthy ev \<Longrightarrow> \<exists>reply n'. AppendEntries ev req n = (Inr reply, n')"
proof -
  assume ev: "healthy ev"
  have m: "\<exists>n'. mergeEntriesLocked ev p es n = (None, n')" for p es n
    using healthyD [OF ev]
    by (auto simp: mergeEntriesLocked_def truncateAt_def TruncateLogFrom_def ReadAllLogEntries_def RewriteLog_def appendToLog_def
        AppendLogEntries_def Let_def split: prod.splits option.splits)
  have a: "\<exists>reply n'. acceptAppend ev req n = (Inr reply, n')" for n
    using m [of "aePrevLogIndex req" "aeEntries req" "n\<lparr>lastAppendEntriesAt := Some (now ev)\<rparr>"]
    by (cases "aeEntries req = []") (auto simp: acceptAppend_def Let_def)
  have f: "\<exists>reply n'. appendAsFollower ev req n = (Inr reply, n')" for n
    using a by (auto simp: appendAsFollower_def Let_def split: option.splits)
  have "\<exists>reply n'. appendAtTerm ev req n = (Inr reply, n')" for n
    using f by (auto simp: appendAtTerm_def)
  then show ?thesis using ev by (auto simp: AppendEntries_def observe_healthy)
qed

text \<open>A call changes nothing, or exactly the node it reaches, as its handler does.\<close>

lemma deliver_vote_cases:
  assumes "deliverVote ev tf (r, dropReq, dropReply, delay) req H = (res, H')" "healthy ev"
  obtains "H' = H" "isl res"
  | p reply n' where "r = Some p" "RequestVote ev req (H p) = (Inr reply, n')" "H' = H(p := n')" "res = replyOf dropReply (Inr reply)"
proof (cases "r = None \<or> dropReq \<or> 0 < delay \<and> \<not> tf")
  case True
  then show ?thesis using assms(1) that(1) by (cases r; cases dropReq) (auto simp: deliverVote_def waitFor_def)
next
  case False
  then obtain p where p: "r = Some p" "\<not> dropReq" "0 < delay \<longrightarrow> tf" by auto
  obtain reply n' where a: "RequestVote ev req (H p) = (Inr reply, n')" using vote_answers [OF assms(2)] by blast
  have "H' = H(p := n')" "res = replyOf dropReply (Inr reply)"
    using assms(1) p a by (cases "0 < delay"; simp add: deliverVote_def waitFor_def)+
  then show ?thesis using that(2) p(1) a by blast
qed

lemma deliver_append_cases:
  assumes "deliverAppend ev tf (r, dropReq, dropReply, delay) req H = (res, H')" "healthy ev"
  obtains "H' = H" "isl res"
  | p reply n' where "r = Some p" "AppendEntries ev req (H p) = (Inr reply, n')" "H' = H(p := n')" "res = replyOf dropReply (Inr reply)"
proof (cases "r = None \<or> dropReq \<or> 0 < delay \<and> \<not> tf")
  case True
  then show ?thesis using assms(1) that(1) by (cases r; cases dropReq) (auto simp: deliverAppend_def waitFor_def)
next
  case False
  then obtain p where p: "r = Some p" "\<not> dropReq" "0 < delay \<longrightarrow> tf" by auto
  obtain reply n' where a: "AppendEntries ev req (H p) = (Inr reply, n')" using append_answers [OF assms(2)] by blast
  have "H' = H(p := n')" "res = replyOf dropReply (Inr reply)"
    using assms(1) p a by (cases "0 < delay"; simp add: deliverAppend_def waitFor_def)+
  then show ?thesis using that(2) p(1) a by blast
qed

section \<open>A new cluster\<close>

lemma clusterIDs_distinct: "distinct (clusterIDs n)"
  by (auto simp: clusterIDs_def distinct_map inj_on_def dest: showNat_inj)

lemma clusterIDs_nonempty: "i \<in> set (clusterIDs n) \<Longrightarrow> i \<noteq> ''''"
  by (auto simp: clusterIDs_def)

lemma harness_cluster_ok: "cluster_ok (clusterIDs n) (harnessConfig (clusterIDs n) tc)"
  using clusterIDs_distinct [of n] clusterIDs_nonempty [of _ n]
  by (auto simp: cluster_ok_def harnessConfig_def peersOf_def inj_on_def)

definition freshNode :: "env \<Rightarrow> Config \<Rightarrow> node" where
  "freshNode ev cfg = projr (NewNode ev cfg emptyDir)"

lemma new_node_empty: "healthy ev \<Longrightarrow> NewNode ev cfg emptyDir = Inr (freshNode ev cfg)"
  by (auto simp: freshNode_def NewNode_def LoadState_def ReadAllLogEntries_def emptyDir_def logBytes_def healthy_def Let_def
      split: prod.splits)

lemma addNodes_fresh:
  assumes "\<forall>i. healthy (ev i)" "\<forall>i \<in> set ids. dataDir i = emptyDir" "distinct ids"
  shows "\<exists>c'. addNodes ev ids dataDir tc c = Inr c' \<and> IDs c' = IDs c \<and> netFilter (Net c') = netFilter (Net c) \<and>
    (\<forall>i. map_of (Nodes c') i = (if i \<in> set ids then Some i else map_of (Nodes c) i)) \<and>
    (\<forall>i. map_of (netNodes (Net c')) i = (if i \<in> set ids then Some i else map_of (netNodes (Net c)) i)) \<and>
    (\<forall>i. nodeHeap c' i = (if i \<in> set ids then freshNode (ev i) (harnessConfig (IDs c) tc i) else nodeHeap c i))"
  using assms
proof (induction ids arbitrary: c)
  case (Cons i ids)
  obtain c1 where c1: "addNode (ev i) i (dataDir i) tc c = Inr c1"
    and e: "c1 = c\<lparr>nodeHeap := (nodeHeap c)(i := freshNode (ev i) (harnessConfig (IDs c) tc i)), Net := Register i i (Net c), Nodes := gm_set i i (Nodes c)\<rparr>"
    using Cons.prems new_node_empty [of "ev i"] by (simp add: addNode_def)
  obtain c' where "addNodes ev ids dataDir tc c1 = Inr c'" "IDs c' = IDs c1" "netFilter (Net c') = netFilter (Net c1)"
    "\<forall>i. map_of (Nodes c') i = (if i \<in> set ids then Some i else map_of (Nodes c1) i)"
    "\<forall>i. map_of (netNodes (Net c')) i = (if i \<in> set ids then Some i else map_of (netNodes (Net c1)) i)"
    "\<forall>i. nodeHeap c' i = (if i \<in> set ids then freshNode (ev i) (harnessConfig (IDs c1) tc i) else nodeHeap c1 i)"
    using Cons.IH [of c1] Cons.prems by auto
  then show ?case using Cons.prems(3) by (intro exI [of _ c']) (auto simp: c1 e Register_def)
qed simp

text \<open>The cluster state of \<open>Raft_Cluster\<close> that a heap of freshly started nodes is.\<close>

definition startedCluster :: "heap \<Rightarrow> cluster" where
  "startedCluster H = \<lparr>nodeAt = H, elections = (\<lambda>_ _. None), rvCalls = {}, rvReplies = {}, aeCalls = {}, aeReplies = {}\<rparr>"

lemma new_cluster_nodes:
  assumes "\<forall>i. healthy (ev i)" "\<forall>i \<in> set (clusterIDs n). dataDir i = emptyDir"
  shows "\<exists>c. NewCluster ev n dataDir tc H = Inr c \<and> IDs c = clusterIDs n \<and>
    (\<forall>i. map_of (netNodes (Net c)) i = (if i \<in> set (clusterIDs n) then Some i else None)) \<and>
    (\<forall>i. map_of (Nodes c) i = (if i \<in> set (clusterIDs n) then Some i else None)) \<and>
    (\<forall>i \<in> set (clusterIDs n). nodeHeap c i = freshNode (ev i) (harnessConfig (clusterIDs n) tc i))"
  using addNodes_fresh [OF assms clusterIDs_distinct, of tc "\<lparr>Net = NewNetwork, IDs = clusterIDs n, Nodes = [], nodeHeap = H\<rparr>"]
  by (auto simp: NewCluster_def NewNetwork_def)

lemma new_cluster_started:
  assumes "\<forall>i. healthy (ev i)" "NewCluster ev n (\<lambda>_. emptyDir) tc H = Inr c"
  shows "cluster_start (clusterIDs n) (harnessConfig (clusterIDs n) tc) (startedCluster (nodeHeap c))"
  using new_cluster_nodes [OF assms(1), of n "\<lambda>_. emptyDir" tc H] assms new_node_empty
  by (auto simp: cluster_start_def startedCluster_def)

section \<open>A cluster at work\<close>

text \<open>
  The goroutines that talk to peers, each at one of its moments: about to call its transport (\<open>Voting\<close>, \<open>Appending\<close>), in the call
  with the message checked (\<open>VoteSent\<close>, \<open>AppendSent\<close>), and back with the result (\<open>Voted\<close>, \<open>Appended\<close>). The first
  field is the node the transport belongs to. A goroutine whose vote call fails ends.
\<close>

datatype goroutine =
    Voting string string RequestVoteRequest
  | VoteSent string string RequestVoteRequest checked
  | Voted string string uint64 RequestVoteReply
  | Appending string outgoingAppendEntries
  | AppendSent string outgoingAppendEntries checked
  | Appended string outgoingAppendEntries "harnessError + AppendEntriesReply"

text \<open>The cluster of a test with its goroutines, and the elections they share (the variables of \<open>startElection\<close>).\<close>

record harness =
  hCl :: Cluster
  ballots :: "string \<Rightarrow> uint64 \<Rightarrow> election option"
  running :: "goroutine multiset"

definition startedHarness :: "Cluster \<Rightarrow> harness" where
  "startedHarness cl = \<lparr>hCl = cl, ballots = (\<lambda>_ _. None), running = {#}\<rparr>"

definition putNode :: "nref \<Rightarrow> node \<Rightarrow> harness \<Rightarrow> harness" where
  "putNode r n h = h\<lparr>hCl := (hCl h)\<lparr>nodeHeap := (nodeHeap (hCl h))(r := n)\<rparr>\<rparr>"

abbreviation nodeOf :: "harness \<Rightarrow> nref \<Rightarrow> node" where
  "nodeOf h \<equiv> nodeHeap (hCl h)"

abbreviation named :: "harness \<Rightarrow> string \<Rightarrow> nref \<Rightarrow> bool" where
  "named h i r \<equiv> map_of (Nodes (hCl h)) i = Some r"

text \<open>
  A step of the harness: a critical section of a node of the cluster, a goroutine entering or leaving a call of the
  fake network, a call of a test to a node, or a test changing the filter. Where a message goes and whether it is dropped is decided by \<open>check\<close> on the cluster's
  own network, at the moment it is sent; the harness stops nodes but has no operation that restarts one. Timers are not
  restricted, the disk works, and proposals fit a record, as in \<open>cstep\<close>.
\<close>

inductive hstep :: "harness \<Rightarrow> harness \<Rightarrow> bool" where
  Timeout: "named h i r \<Longrightarrow> healthy ev \<Longrightarrow> currentTerm (nodeOf h r) + 1 < 2 ^ 64 \<Longrightarrow>
     startElection ev (nodeOf h r) = (Some el, n') \<Longrightarrow>
     hstep h ((putNode r n' h)\<lparr>ballots := (ballots h)(i := (ballots h i)(elTerm el := Some el)),
        running := running h + image_mset (\<lambda>p. Voting i p (elReq el)) (mset (peers n'))\<rparr>)"
| SelfElect: "named h i r \<Longrightarrow> ballots h i t = Some el \<Longrightarrow> hstep h (putNode r (selfElect el (nodeOf h r)) h)"
| SendVote: "running h = add_mset (Voting i p req) G \<Longrightarrow>
     hstep h (h\<lparr>running := add_mset (VoteSent i p req (check (Net (hCl h)) i p KindRequestVote)) G\<rparr>)"
| CallVote: "running h = add_mset (VoteSent i p req checked) G \<Longrightarrow> healthy ev \<Longrightarrow>
     deliverVote ev timerFirst checked req (nodeHeap (hCl h)) = (res, H) \<Longrightarrow>
     hstep h (h\<lparr>hCl := (hCl h)\<lparr>nodeHeap := H\<rparr>,
        running := (case res of Inl e \<Rightarrow> G | Inr reply \<Rightarrow> add_mset (Voted i p (rvTerm req) reply) G)\<rparr>)"
| VoteReply: "running h = add_mset (Voted i p t reply) G \<Longrightarrow> named h i r \<Longrightarrow> healthy ev \<Longrightarrow> ballots h i t = Some el \<Longrightarrow>
     handleVoteReply ev reply el (nodeOf h r) = (el', n') \<Longrightarrow>
     hstep h ((putNode r n' h)\<lparr>ballots := (ballots h)(i := (ballots h i)(t := Some el')), running := G\<rparr>)"
| Broadcast: "named h i r \<Longrightarrow> broadcastAppendEntries (nodeOf h r) = Some (t, reqs) \<Longrightarrow>
     hstep h (h\<lparr>running := running h + image_mset (Appending i) (mset reqs)\<rparr>)"
| SendAppend: "running h = add_mset (Appending i m) G \<Longrightarrow>
     hstep h (h\<lparr>running := add_mset (AppendSent i m (check (Net (hCl h)) i (oaPeer m) KindAppendEntries)) G\<rparr>)"
| CallAppend: "running h = add_mset (AppendSent i m checked) G \<Longrightarrow> healthy ev \<Longrightarrow>
     deliverAppend ev timerFirst checked (oaReq m) (nodeHeap (hCl h)) = (res, H) \<Longrightarrow>
     hstep h (h\<lparr>hCl := (hCl h)\<lparr>nodeHeap := H\<rparr>, running := add_mset (Appended i m res) G\<rparr>)"
| AppendReply: "running h = add_mset (Appended i m res) G \<Longrightarrow> named h i r \<Longrightarrow> healthy ev \<Longrightarrow>
     handleSendReply ev (aeTerm (oaReq m)) m (case res of Inl e \<Rightarrow> None | Inr reply \<Rightarrow> Some reply) (nodeOf h r) = (ok, n') \<Longrightarrow>
     hstep h ((putNode r n' h)\<lparr>running := G\<rparr>)"
| TestPropose: "named h i r \<Longrightarrow> healthy ev \<Longrightarrow> fits cmd (nodeOf h r) \<Longrightarrow> Propose ev cmd (nodeOf h r) = (res', n') \<Longrightarrow>
     hstep h (putNode r n' h)"
| TestProposeSync: "named h i r \<Longrightarrow> healthy ev \<Longrightarrow> fits cmd (nodeOf h r) \<Longrightarrow> proposeBegin ev cmd (nodeOf h r) = (begun, n') \<Longrightarrow>
     hstep h (putNode r n' h)"
| TestReceive: "named h i r \<Longrightarrow> proposeReceive ch (nodeOf h r) = (v, n') \<Longrightarrow> hstep h (putNode r n' h)"
| TestCancel: "named h i r \<Longrightarrow> hstep h (putNode r (proposeCancel j (nodeOf h r)) h)"
| TestFilter: "hstep h (h\<lparr>hCl := (hCl h)\<lparr>Net := SetFilter f (Net (hCl h))\<rparr>\<rparr>)"

section \<open>The harness runs the cluster of \<open>Raft_Cluster\<close>\<close>

text \<open>\<open>NewCluster\<close> connects every identifier to the node of that name.\<close>

definition wired :: "string list \<Rightarrow> Cluster \<Rightarrow> bool" where
  "wired ids cl \<longleftrightarrow> (\<forall>i. map_of (Nodes cl) i = (if i \<in> set ids then Some i else None)) \<and>
     (\<forall>i. map_of (netNodes (Net cl)) i = (if i \<in> set ids then Some i else None))"

lemma new_cluster_wired:
  assumes "\<forall>i. healthy (ev i)" "NewCluster ev n (\<lambda>_. emptyDir) tc H = Inr cl"
  shows "wired (clusterIDs n) cl"
  using new_cluster_nodes [OF assms(1), of n "\<lambda>_. emptyDir" tc H] assms(2) by (auto simp: wired_def)

lemma check_wired: "wired ids cl \<Longrightarrow> fst (check (Net cl) i p k) = Some r \<Longrightarrow> r = p"
  by (auto simp: wired_def check_def route_def split: if_splits option.splits prod.splits)

text \<open>
  The simulation: the same nodes and elections; what a goroutine has in hand is a call or a reply that the cluster's
  network holds (a dropped message stays there undelivered), and no vote of a term is asked for, or answered, by two goroutines.
\<close>

fun held :: "cluster \<Rightarrow> goroutine \<Rightarrow> bool" where
  "held d (Voting i p req) \<longleftrightarrow> (i, p, req) \<in> rvCalls d"
| "held d (VoteSent i p req checked) \<longleftrightarrow> (i, p, req) \<in> rvCalls d \<and> (\<forall>r. fst checked = Some r \<longrightarrow> r = p)"
| "held d (Voted i p t reply) \<longleftrightarrow> (i, p, t, reply) \<in> rvReplies d"
| "held d (Appending i m) \<longleftrightarrow> (i, m) \<in> aeCalls d"
| "held d (AppendSent i m checked) \<longleftrightarrow> (i, m) \<in> aeCalls d \<and> (\<forall>r. fst checked = Some r \<longrightarrow> r = oaPeer m)"
| "held d (Appended i m res) \<longleftrightarrow> (\<forall>reply. res = Inr reply \<longrightarrow> (i, m, reply) \<in> aeReplies d)"

fun ballot :: "goroutine \<Rightarrow> (string \<times> string \<times> uint64) option" where
  "ballot (Voting i p req) = Some (i, p, rvTerm req)"
| "ballot (VoteSent i p req checked) = Some (i, p, rvTerm req)"
| "ballot (Voted i p t reply) = Some (i, p, t)"
| "ballot _ = None"

definition single :: "goroutine multiset \<Rightarrow> bool" where
  "single G \<longleftrightarrow> (\<forall>k. size {#g \<in># G. ballot g = Some k#} \<le> 1)"

definition below :: "string list \<Rightarrow> harness \<Rightarrow> cluster \<Rightarrow> bool" where
  "below M h d \<longleftrightarrow> nodeHeap (hCl h) = nodeAt d \<and> ballots h = elections d \<and> wired M (hCl h) \<and>
     (\<forall>g \<in># running h. held d g) \<and> single (running h)"

lemma belowD:
  assumes "below M h d"
  shows "nodeHeap (hCl h) = nodeAt d" "ballots h = elections d" "wired M (hCl h)" "g \<in># running h \<Longrightarrow> held d g" "single (running h)"
    "named h i r \<Longrightarrow> r = i \<and> i \<in> set M"
  using assms by (auto simp: below_def wired_def split: if_splits)

lemma single_add:
  "single (add_mset g G) \<longleftrightarrow> single G \<and> (\<forall>k. ballot g = Some k \<longrightarrow> (\<forall>g' \<in># G. ballot g' \<noteq> Some k))"
proof -
  have "size {#x \<in># G. ballot x = Some k#} = 0 \<longleftrightarrow> (\<forall>g' \<in># G. ballot g' \<noteq> Some k)" for k
    by (induction G) auto
  then have none: "size {#x \<in># G. ballot x = Some k#} \<le> 0 \<longleftrightarrow> (\<forall>g' \<in># G. ballot g' \<noteq> Some k)" for k by simp
  have "size {#x \<in># add_mset g G. ballot x = Some k#} \<le> 1 \<longleftrightarrow>
      size {#x \<in># G. ballot x = Some k#} \<le> 1 \<and> (ballot g = Some k \<longrightarrow> (\<forall>g' \<in># G. ballot g' \<noteq> Some k))" for k
    using none [of k] by (cases "ballot g = Some k") (simp_all del: size_eq_0_iff_empty, linarith)
  then show ?thesis unfolding single_def by blast
qed

lemma single_plus:
  assumes "single G" "single G'" "\<forall>g \<in># G. \<forall>g' \<in># G'. ballot g = ballot g' \<longrightarrow> ballot g = None"
  shows "single (G + G')"
  using assms by (induction G) (auto simp: single_add)

lemma held_mono:
  assumes "held d g" "rvCalls d \<subseteq> rvCalls d'" "rvReplies d \<subseteq> rvReplies d'" "aeCalls d \<subseteq> aeCalls d'" "aeReplies d \<subseteq> aeReplies d'"
  shows "held d' g"
  using assms by (cases g) auto

lemma held_setNode [simp]: "held (setNode a n d) g = held d g"
  by (cases g) (simp_all add: setNode_def)

text \<open>Delivering a vote request, or its reply, concerns no other goroutine.\<close>

lemma held_call:
  assumes "held d g" "ballot g \<noteq> Some (i, p, rvTerm req)"
    "rvCalls d' = rvCalls d - {(i, p, req)}" "rvReplies d \<subseteq> rvReplies d'" "aeCalls d' = aeCalls d" "aeReplies d' = aeReplies d"
  shows "held d' g"
  using assms by (cases g) auto

lemma held_reply:
  assumes "held d g" "ballot g \<noteq> Some (i, p, t)"
    "rvCalls d' = rvCalls d" "rvReplies d' = rvReplies d - {(i, p, t, reply)}" "aeCalls d' = aeCalls d" "aeReplies d' = aeReplies d"
  shows "held d' g"
  using assms by (cases g) auto

lemma below_put: "below M h d \<Longrightarrow> below M (putNode i n h) (setNode i n d)"
  by (simp add: below_def putNode_def wired_def) (simp add: setNode_def)

text \<open>The votes of a new election are for a term in which the candidate has asked for none.\<close>

lemma election_fresh:
  assumes ok: "cluster_ok M C" and d: "creach M C d" and i: "i \<in> set M" and ev: "healthy ev" "currentTerm (nodeAt d i) + 1 < 2 ^ 64"
    and st: "startElection ev (nodeAt d i) = (Some el, n')"
  shows "distinct (peers n')" "(i, p, req) \<in> rvCalls d \<Longrightarrow> rvTerm req \<noteq> rvTerm (elReq el)"
    "(i, p, t, reply) \<in> rvReplies d \<Longrightarrow> t \<noteq> rvTerm (elReq el)"
proof -
  obtain s where s: "sim M C d s" using sim_two [OF ok d rtranclp.rtrancl_refl] by blast
  note D = simD [OF ok s]
  obtain s' where s': "node_rel C s' i n'" "avote s i (elTerm el) = None" "rvTerm (elReq el) = elTerm el"
    using sim_stand [OF D(1,3) ev(1) i ev(2) st, OF i] by blast
  show "distinct (peers n')" using peers_members(1) [OF ok i node_relD(3) [OF s'(1)]] .
  show "(i, p, req) \<in> rvCalls d \<Longrightarrow> rvTerm req \<noteq> rvTerm (elReq el)" using D(4) [of i p req] s'(2,3) by (auto simp: rv_rel_def)
  show "(i, p, t, reply) \<in> rvReplies d \<Longrightarrow> t \<noteq> rvTerm (elReq el)" using D(5) [of i p t reply] s'(2,3) by (auto simp: rvr_rel_def)
qed

lemma single_votes: "distinct ps \<Longrightarrow> single (image_mset (\<lambda>p. Voting i p req) (mset ps))"
  by (induction ps) (auto simp: single_add single_def [of "{#}"])

lemma single_appends: "single G \<Longrightarrow> single (G + image_mset (Appending i) G')"
  by (rule single_plus) (induction G'; auto simp: single_add single_def [of "{#}"])+

lemma below_timeout:
  assumes "named h i r" "healthy ev" "currentTerm (nodeOf h r) + 1 < 2 ^ 64" "startElection ev (nodeOf h r) = (Some el, n')"
    and "cluster_ok M C" "creach M C d" "below M h d"
  shows "\<exists>d'. (cstep M C)\<^sup>*\<^sup>* d d' \<and> below M ((putNode r n' h)\<lparr>ballots := (ballots h)(i := (ballots h i)(elTerm el := Some el)), running := running h + image_mset (\<lambda>p. Voting i p (elReq el)) (mset (peers n'))\<rparr>) d'"
proof -
  note B = belowD [OF assms(7)]
  have i: "r = i" "i \<in> set M" using B(6) assms(1) by auto
  have st: "currentTerm (nodeAt d i) + 1 < 2 ^ 64" "startElection ev (nodeAt d i) = (Some el, n')" using assms(3,4) B(1) i(1) by auto
  note f = election_fresh [OF assms(5,6) i(2) assms(2) st]
  let ?d = "(setNode i n' d)\<lparr>elections := (elections d)(i := (elections d i)(elTerm el := Some el)),
        rvCalls := rvCalls d \<union> {(i, p, elReq el) | p. p \<in> set (peers n')}\<rparr>"
  have "ballot g \<noteq> Some (i, p, rvTerm (elReq el))" if "g \<in># running h" for g p
    using B(4) [OF that] f(2,3) by (cases g) fastforce+
  then have sg: "single (running h + image_mset (\<lambda>p. Voting i p (elReq el)) (mset (peers n')))"
    using single_plus [OF B(5) single_votes [OF f(1)], of i "elReq el"] by auto
  have "held ?d g" if "g \<in># running h" for g using B(4) [OF that] by (rule held_mono) (auto simp: setNode_def)
  then have "below M ((putNode i n' h)\<lparr>ballots := (ballots h)(i := (ballots h i)(elTerm el := Some el)),
      running := running h + image_mset (\<lambda>p. Voting i p (elReq el)) (mset (peers n'))\<rparr>) ?d"
    using B(1-3) sg unfolding below_def by (auto simp: putNode_def setNode_def wired_def)
  then show ?thesis using cstep.Timeout [OF i(2) assms(2) st] i(1) by blast
qed

lemma below_call_vote:
  assumes "running h = add_mset (VoteSent i p req checked) G" "healthy ev" "deliverVote ev timerFirst checked req (nodeHeap (hCl h)) = (res, H)"
    and "cluster_ok M C" "creach M C d" "below M h d"
  shows "\<exists>d'. (cstep M C)\<^sup>*\<^sup>* d d' \<and> below M (h\<lparr>hCl := (hCl h)\<lparr>nodeHeap := H\<rparr>, running := (case res of Inl e \<Rightarrow> G | Inr reply \<Rightarrow> add_mset (Voted i p (rvTerm req) reply) G)\<rparr>) d'"
proof -
  note B = belowD [OF assms(6)]
  obtain r dq dr dl where ch: "checked = (r, dq, dr, dl)" by (cases checked) auto
  have c: "(i, p, req) \<in> rvCalls d" "\<And>r'. r = Some r' \<Longrightarrow> r' = p" using B(4) [of "VoteSent i p req checked"] assms(1) ch by auto
  have G: "\<And>g. g \<in># G \<Longrightarrow> held d g \<and> ballot g \<noteq> Some (i, p, rvTerm req)" "single G"
    using B(4,5) assms(1) by (auto simp: single_add)
  from assms(3) [unfolded ch] assms(2) show ?thesis
  proof (cases rule: deliver_vote_cases)
    case 1
    then show ?thesis using B(1-3) G by (intro exI [of _ d]) (auto simp: below_def wired_def split: sum.splits)
  next
    case (2 p' reply n')
    then have p': "p' = p" using c(2) by simp
    let ?d = "(setNode p n' d)\<lparr>rvCalls := rvCalls d - {(i, p, req)}, rvReplies := insert (i, p, rvTerm req, reply) (rvReplies d)\<rparr>"
    have st: "cstep M C d ?d" using cstep.DeliverVote [OF c(1) assms(2)] 2(2) B(1) p' by simp
    have "held ?d g" if "g \<in># G" for g
      by (rule held_call [of d g i p req]) (use G that in \<open>auto simp: setNode_def\<close>)
    moreover have "single (add_mset (Voted i p (rvTerm req) reply) G)" using G by (auto simp: single_add)
    ultimately have "below M (h\<lparr>hCl := (hCl h)\<lparr>nodeHeap := H\<rparr>,
        running := (case res of Inl e \<Rightarrow> G | Inr reply \<Rightarrow> add_mset (Voted i p (rvTerm req) reply) G)\<rparr>) ?d"
      using B(1-3) G(2) 2(3,4) p' by (auto simp: below_def wired_def replyOf_def setNode_def)
    then show ?thesis using st by blast
  qed
qed

lemma below_vote_reply:
  assumes "running h = add_mset (Voted i p t reply) G" "named h i r" "healthy ev" "ballots h i t = Some el" "handleVoteReply ev reply el (nodeOf h r) = (el', n')"
    and "cluster_ok M C" "creach M C d" "below M h d"
  shows "\<exists>d'. (cstep M C)\<^sup>*\<^sup>* d d' \<and> below M ((putNode r n' h)\<lparr>ballots := (ballots h)(i := (ballots h i)(t := Some el')), running := G\<rparr>) d'"
proof -
  note B = belowD [OF assms(8)]
  have i: "r = i" "i \<in> set M" using B(6) assms(2) by auto
  let ?d = "(setNode i n' d)\<lparr>elections := (elections d)(i := (elections d i)(t := Some el')), rvReplies := rvReplies d - {(i, p, t, reply)}\<rparr>"
  have "(i, p, t, reply) \<in> rvReplies d" using B(4) [of "Voted i p t reply"] assms(1) by simp
  then have st: "cstep M C d ?d" using cstep.VoteReply [of i p t reply d ev el el' n' M C] assms(3-5) B(1,2) i(1) by simp
  have G: "\<And>g. g \<in># G \<Longrightarrow> held d g \<and> ballot g \<noteq> Some (i, p, t)" "single G" using B(4,5) assms(1) by (auto simp: single_add)
  have "held ?d g" if "g \<in># G" for g by (rule held_reply [of d g i p t]) (use G that in \<open>auto simp: setNode_def\<close>)
  then have "below M ((putNode r n' h)\<lparr>ballots := (ballots h)(i := (ballots h i)(t := Some el')), running := G\<rparr>) ?d"
    using B(1-3) G(2) i(1) by (auto simp: below_def wired_def putNode_def setNode_def)
  then show ?thesis using st by blast
qed

lemma below_broadcast:
  assumes "named h i r" "broadcastAppendEntries (nodeOf h r) = Some (t, reqs)"
    and "cluster_ok M C" "creach M C d" "below M h d"
  shows "\<exists>d'. (cstep M C)\<^sup>*\<^sup>* d d' \<and> below M (h\<lparr>running := running h + image_mset (Appending i) (mset reqs)\<rparr>) d'"
proof -
  note B = belowD [OF assms(5)]
  have i: "r = i" "i \<in> set M" using B(6) assms(1) by auto
  let ?d = "d\<lparr>aeCalls := aeCalls d \<union> {(i, m) | m. m \<in> set reqs}\<rparr>"
  have st: "cstep M C d ?d" using cstep.Broadcast [OF i(2), of d t reqs] assms(2) B(1) i(1) by simp
  have "held ?d g" if "g \<in># running h" for g using B(4) [OF that] by (rule held_mono) auto
  then have "below M (h\<lparr>running := running h + image_mset (Appending i) (mset reqs)\<rparr>) ?d"
    using B(1-3) single_appends [OF B(5)] by (auto simp: below_def)
  then show ?thesis using st by blast
qed

lemma below_call_append:
  assumes "running h = add_mset (AppendSent i m checked) G" "healthy ev" "deliverAppend ev timerFirst checked (oaReq m) (nodeHeap (hCl h)) = (res, H)"
    and "cluster_ok M C" "creach M C d" "below M h d"
  shows "\<exists>d'. (cstep M C)\<^sup>*\<^sup>* d d' \<and> below M (h\<lparr>hCl := (hCl h)\<lparr>nodeHeap := H\<rparr>, running := add_mset (Appended i m res) G\<rparr>) d'"
proof -
  note B = belowD [OF assms(6)]
  obtain r dq dr dl where ch: "checked = (r, dq, dr, dl)" by (cases checked) auto
  have c: "(i, m) \<in> aeCalls d" "\<And>r'. r = Some r' \<Longrightarrow> r' = oaPeer m" using B(4) [of "AppendSent i m checked"] assms(1) ch by auto
  have G: "\<And>g. g \<in># G \<Longrightarrow> held d g" "single (add_mset (Appended i m res) G)" using B(4,5) assms(1) by (auto simp: single_add)
  from assms(3) [unfolded ch] assms(2) show ?thesis
  proof (cases rule: deliver_append_cases)
    case 1
    then show ?thesis using B(1-3) G by (intro exI [of _ d]) (auto simp: below_def wired_def)
  next
    case (2 p' reply n')
    then have p': "p' = oaPeer m" using c(2) by simp
    let ?d = "(setNode p' n' d)\<lparr>aeReplies := insert (i, m, reply) (aeReplies d)\<rparr>"
    have st: "cstep M C d ?d" using cstep.DeliverAppend [OF c(1) assms(2)] 2(2) B(1) p' by simp
    have "held ?d g" if "g \<in># G" for g using G(1) [OF that] by (rule held_mono) (auto simp: setNode_def)
    then have "below M (h\<lparr>hCl := (hCl h)\<lparr>nodeHeap := H\<rparr>, running := add_mset (Appended i m res) G\<rparr>) ?d"
      using B(1-3) G(2) 2(3,4) by (auto simp: below_def wired_def replyOf_def setNode_def)
    then show ?thesis using st by blast
  qed
qed

lemma below_append_reply:
  assumes "running h = add_mset (Appended i m res) G" "named h i r" "healthy ev" "handleSendReply ev (aeTerm (oaReq m)) m (case res of Inl e \<Rightarrow> None | Inr reply \<Rightarrow> Some reply) (nodeOf h r) = (ok, n')"
    and "cluster_ok M C" "creach M C d" "below M h d"
  shows "\<exists>d'. (cstep M C)\<^sup>*\<^sup>* d d' \<and> below M ((putNode r n' h)\<lparr>running := G\<rparr>) d'"
proof -
  note B = belowD [OF assms(7)]
  have i: "r = i" "i \<in> set M" using B(6) assms(2) by auto
  have G: "\<And>g. g \<in># G \<Longrightarrow> held d g" "single G" using B(4,5) assms(1) by (auto simp: single_add)
  have b: "below M ((putNode r n' h)\<lparr>running := G\<rparr>) (setNode i n' d)"
    using B(1-3) G i(1) by (auto simp: below_def wired_def putNode_def) (simp_all add: setNode_def)
  show ?thesis
  proof (cases res)
    case (Inl e)
    then have "setNode i n' d = d" using assms(4) B(1) i(1) by (auto simp: handleSendReply_def setNode_def)
    then show ?thesis using b by auto
  next
    case (Inr reply)
    then have "(i, m, reply) \<in> aeReplies d" using B(4) [of "Appended i m res"] assms(1) by simp
    then have "cstep M C d (setNode i n' d)"
      using cstep.AppendReply [of i m reply d ev ok n' M C] assms(3,4) Inr B(1) i(1) by simp
    then show ?thesis using b by blast
  qed
qed

lemma hstep_below:
  assumes "hstep h h'" "cluster_ok M C" "creach M C d" "below M h d"
  shows "\<exists>d'. (cstep M C)\<^sup>*\<^sup>* d d' \<and> below M h' d'"
  using assms
proof (induction rule: hstep.induct)
  case (Timeout h i r ev el n')
  show ?case by (rule below_timeout [OF Timeout(1-7)])
next
  case (SelfElect h i r t el)
  note B = belowD [OF SelfElect(5)]
  have "cstep M C d (setNode i (selfElect el (nodeAt d i)) d)" using B(2,6) SelfElect(1,2) by (intro cstep.SelfElect [of _ _ _ t]) auto
  then show ?case using below_put [OF SelfElect(5)] B(1,6) SelfElect(1) by (metis r_into_rtranclp)
next
  case (SendVote h i p req G)
  note B = belowD [OF SendVote(4)]
  have "held d g" if "g \<in># G" for g using B(4) SendVote(1) that by auto
  moreover have "(i, p, req) \<in> rvCalls d" using B(4) [of "Voting i p req"] SendVote(1) by simp
  ultimately show ?case using B(1-3,5) check_wired [OF B(3)] SendVote(1)
    by (intro exI [of _ d]) (auto simp: below_def single_add)
next
  case (CallVote h i p req checked G ev timerFirst res H)
  show ?case by (rule below_call_vote [OF CallVote(1-6)])
next
  case (VoteReply h i p t reply G r ev el el' n')
  show ?case by (rule below_vote_reply [OF VoteReply(1-8)])
next
  case (Broadcast h i r t reqs)
  show ?case by (rule below_broadcast [OF Broadcast(1-5)])
next
  case (SendAppend h i m G)
  note B = belowD [OF SendAppend(4)]
  have "held d g" if "g \<in># G" for g using B(4) SendAppend(1) that by auto
  moreover have "(i, m) \<in> aeCalls d" using B(4) [of "Appending i m"] SendAppend(1) by simp
  ultimately show ?case using B(1-3,5) check_wired [OF B(3)] SendAppend(1)
    by (intro exI [of _ d]) (auto simp: below_def single_add)
next
  case (CallAppend h i m checked G ev timerFirst res H)
  show ?case by (rule below_call_append [OF CallAppend(1-6)])
next
  case (AppendReply h i m res G r ev ok n')
  show ?case by (rule below_append_reply [OF AppendReply(1-7)])
next
  case (TestPropose h i r ev cmd res' n')
  note B = belowD [OF TestPropose(7)]
  have "cstep M C d (setNode i n' d)" using B(1,6) TestPropose(1-4) by (intro cstep.ClientPropose [of _ _ ev cmd _ res']) auto
  then show ?case using below_put [OF TestPropose(7)] B(6) TestPropose(1) by (metis r_into_rtranclp)
next
  case (TestProposeSync h i r ev cmd begun n')
  note B = belowD [OF TestProposeSync(7)]
  have "cstep M C d (setNode i n' d)" using B(1,6) TestProposeSync(1-4) by (intro cstep.ClientProposeSync [of _ _ ev cmd _ begun]) auto
  then show ?case using below_put [OF TestProposeSync(7)] B(6) TestProposeSync(1) by (metis r_into_rtranclp)
next
  case (TestReceive h i r ch v n')
  note B = belowD [OF TestReceive(5)]
  have "cstep M C d (setNode i n' d)" using B(1,6) TestReceive(1,2) by (intro cstep.ClientReceive [of _ _ ch _ v]) auto
  then show ?case using below_put [OF TestReceive(5)] B(6) TestReceive(1) by (metis r_into_rtranclp)
next
  case (TestCancel h i r j)
  note B = belowD [OF TestCancel(4)]
  have "cstep M C d (setNode i (proposeCancel j (nodeAt d i)) d)" using B(6) TestCancel(1) by (intro cstep.ClientCancel) auto
  then show ?case using below_put [OF TestCancel(4)] B(1,6) TestCancel(1) by (metis r_into_rtranclp)
next
  case (TestFilter h f)
  then show ?case by (intro exI [of _ d]) (auto simp: below_def wired_def SetFilter_def)
qed

lemma hsteps_below:
  assumes "hstep\<^sup>*\<^sup>* h h'" "cluster_ok M C" "creach M C d" "below M h d"
  shows "\<exists>d'. (cstep M C)\<^sup>*\<^sup>* d d' \<and> creach M C d' \<and> below M h' d'"
  using assms
proof (induction rule: rtranclp_induct)
  case (step h1 h2)
  then obtain d1 where d1: "(cstep M C)\<^sup>*\<^sup>* d d1" "creach M C d1" "below M h1 d1" by blast
  then obtain d2 where "(cstep M C)\<^sup>*\<^sup>* d1 d2" "below M h2 d2" using hstep_below [OF step(2,4)] by blast
  then show ?case using d1 unfolding creach_def by (meson rtranclp_trans)
qed blast

lemma started_below:
  assumes "\<forall>i. healthy (ev i)" "NewCluster ev n (\<lambda>_. emptyDir) tc H = Inr cl"
  shows "creach (clusterIDs n) (harnessConfig (clusterIDs n) tc) (startedCluster (nodeHeap cl))"
    "below (clusterIDs n) (startedHarness cl) (startedCluster (nodeHeap cl))"
  using new_cluster_started [OF assms] new_cluster_wired [OF assms]
  by (auto simp: creach_def below_def startedHarness_def startedCluster_def single_def)


text \<open>
  Three nodes, the third cut off: the first stands, its request for the second goes through the network and
  the one for the third is dropped, and it is leader with the second's vote.
\<close>

lemma clusterIDs_3: "clusterIDs 3 = [''node-1'', ''node-2'', ''node-3'']"
  by code_simp

abbreviation "testNode \<equiv> \<lambda>i. freshNode calm (harnessConfig (clusterIDs 3) FastTiming i)"

lemmas demo_ballot_defs = freshNode_def NewNode_def harnessConfig_def peersOf_def clusterIDs_3 emptyDir_def LoadState_def ReadAllLogEntries_def
  logBytes_def baseline_def fallbackBaseline_def resetElectionDeadlineLocked_def calm_def setRoleLocked_def persistStateLocked_ok
  isLogAtLeastAsUpToDate_def lastLogTermLocked_def lastLogIndexLocked_def quorumSize_def observeTermLocked_def

lemma test_ballot:
  obtains el n1 n2 el' l1 where "startElection calm (testNode ''node-1'') = (Some el, n1)" "peers n1 = [''node-2'', ''node-3'']" "elTerm el = 1"
    "rvTerm (elReq el) = 1" "RequestVote calm (elReq el) (testNode ''node-2'') = (Inr \<lparr>rvrTerm = 1, rvrVoteGranted = True\<rparr>, n2)" "votedFor n2 = ''node-1''"
    "handleVoteReply calm \<lparr>rvrTerm = 1, rvrVoteGranted = True\<rparr> el n1 = (el', l1)" "role l1 = Leader" "currentTerm l1 = 1"
    "currentTerm (testNode ''node-1'') = 0" "currentTerm (testNode ''node-3'') = 0"
proof -
  let ?el = "the (fst (startElection calm (testNode ''node-1'')))" and ?n1 = "snd (startElection calm (testNode ''node-1''))"
  show ?thesis
    by (rule that [of ?el ?n1 "snd (RequestVote calm (elReq ?el) (testNode ''node-2''))"
          "fst (handleVoteReply calm \<lparr>rvrTerm = 1, rvrVoteGranted = True\<rparr> ?el ?n1)" "snd (handleVoteReply calm \<lparr>rvrTerm = 1, rvrVoteGranted = True\<rparr> ?el ?n1)"])
      (simp_all add: demo_ballot_defs election_defs)
qed

lemma test_election:
  assumes w: "wired (clusterIDs 3) cl" and H: "\<forall>i \<in> set (clusterIDs 3). nodeHeap cl i = testNode i"
  obtains h where "hstep\<^sup>*\<^sup>* (startedHarness cl) h" "role (nodeOf h ''node-1'') = Leader" "currentTerm (nodeOf h ''node-1'') = 1"
    "votedFor (nodeOf h ''node-2'') = ''node-1''" "currentTerm (nodeOf h ''node-3'') = 0"
proof -
  obtain el n1 n2 el' l1 where e: "startElection calm (testNode ''node-1'') = (Some el, n1)" "peers n1 = [''node-2'', ''node-3'']" "elTerm el = 1"
    "rvTerm (elReq el) = 1" "RequestVote calm (elReq el) (testNode ''node-2'') = (Inr \<lparr>rvrTerm = 1, rvrVoteGranted = True\<rparr>, n2)" "votedFor n2 = ''node-1''"
    "handleVoteReply calm \<lparr>rvrTerm = 1, rvrVoteGranted = True\<rparr> el n1 = (el', l1)" "role l1 = Leader" "currentTerm l1 = 1"
    "currentTerm (testNode ''node-1'') = 0" "currentTerm (testNode ''node-3'') = 0" by (rule test_ballot)
  let ?net = "SetFilter (Some (Disconnected [''node-3''])) (Net cl)" and ?H1 = "(nodeHeap cl)(''node-1'' := n1)"
  let ?H2 = "?H1(''node-2'' := n2)" and ?b = "(\<lambda>_ _. None)(''node-1'' := (\<lambda>_. None)(1 := Some el))"
  let ?s2 = "VoteSent ''node-1'' ''node-2'' (elReq el) (Some ''node-2'', False, False, 0)" and ?s3 = "VoteSent ''node-1'' ''node-3'' (elReq el) (Some ''node-3'', True, False, 0)"
  let ?v2 = "Voting ''node-1'' ''node-2'' (elReq el)" and ?v3 = "Voting ''node-1'' ''node-3'' (elReq el)"
  let ?h = "\<lambda>H b G. \<lparr>hCl = cl\<lparr>Net := ?net, nodeHeap := H\<rparr>, ballots = b, running = G\<rparr>"
  have nm: "map_of (Nodes cl) ''node-1'' = Some ''node-1''" using w by (simp add: wired_def clusterIDs_3)
  have ck: "check ?net ''node-1'' ''node-2'' KindRequestVote = (Some ''node-2'', False, False, 0)"
    "check ?net ''node-1'' ''node-3'' KindRequestVote = (Some ''node-3'', True, False, 0)"
    using w by (simp_all add: wired_def clusterIDs_3 check_def route_def SetFilter_def Disconnected_def)
  have f: "nodeHeap cl ''node-1'' = testNode ''node-1''" "nodeHeap cl ''node-2'' = testNode ''node-2''" "nodeHeap cl ''node-3'' = testNode ''node-3''"
    using H by (simp_all add: clusterIDs_3)
  note [trans] = rtranclp.rtrancl_into_rtrancl
  have "hstep\<^sup>*\<^sup>* (startedHarness cl) (?h (nodeHeap cl) (\<lambda>_ _. None) {#})"
    using hstep.TestFilter [of "startedHarness cl" "Some (Disconnected [''node-3''])"] by (simp add: startedHarness_def r_into_rtranclp)
  also have "hstep (?h (nodeHeap cl) (\<lambda>_ _. None) {#}) (?h ?H1 ?b {#?v2, ?v3#})"
    using hstep.Timeout [of "?h (nodeHeap cl) (\<lambda>_ _. None) {#}" "''node-1''" "''node-1''" calm el n1] nm f e by (simp add: putNode_def)
  also have "hstep (?h ?H1 ?b {#?v2, ?v3#}) (?h ?H1 ?b {#?s2, ?v3#})"
    using hstep.SendVote [of "?h ?H1 ?b {#?v2, ?v3#}" "''node-1''" "''node-2''" "elReq el" "{#?v3#}"] ck by simp
  also have "hstep (?h ?H1 ?b {#?s2, ?v3#}) (?h ?H1 ?b {#?s3, ?s2#})"
    using hstep.SendVote [of "?h ?H1 ?b {#?s2, ?v3#}" "''node-1''" "''node-3''" "elReq el" "{#?s2#}"] ck by (simp add: add_mset_commute)
  also have "hstep (?h ?H1 ?b {#?s3, ?s2#}) (?h ?H1 ?b {#?s2#})"
    using hstep.CallVote [of "?h ?H1 ?b {#?s3, ?s2#}" "''node-1''" "''node-3''" "elReq el" "(Some ''node-3'', True, False, 0)" "{#?s2#}" calm False] by (simp add: deliverVote_def)
  also have "hstep (?h ?H1 ?b {#?s2#}) (?h ?H2 ?b {#Voted ''node-1'' ''node-2'' 1 \<lparr>rvrTerm = 1, rvrVoteGranted = True\<rparr>#})"
    using hstep.CallVote [of "?h ?H1 ?b {#?s2#}" "''node-1''" "''node-2''" "elReq el" "(Some ''node-2'', False, False, 0)" "{#}" calm False] e f by (simp add: deliverVote_def replyOf_def)
  also have "hstep (?h ?H2 ?b {#Voted ''node-1'' ''node-2'' 1 \<lparr>rvrTerm = 1, rvrVoteGranted = True\<rparr>#})
      (?h (?H2(''node-1'' := l1)) (?b(''node-1'' := (?b ''node-1'')(1 := Some el'))) {#})"
    using hstep.VoteReply [of "?h ?H2 ?b {#Voted ''node-1'' ''node-2'' 1 \<lparr>rvrTerm = 1, rvrVoteGranted = True\<rparr>#}" "''node-1''" "''node-2''" 1 _ "{#}" "''node-1''" calm el el' l1] nm e
    by (simp add: putNode_def)
  finally have "hstep\<^sup>*\<^sup>* (startedHarness cl) (?h (?H2(''node-1'' := l1)) (?b(''node-1'' := (?b ''node-1'')(1 := Some el'))) {#})" .
  then show ?thesis using e f by (intro that) auto
qed


section \<open>What the tests look at\<close>

lemma sorted_wrt_distinct: "sorted_wrt (\<lambda>x y. f x \<noteq> f y) xs \<Longrightarrow> distinct (map f xs)"
  by (induction xs) auto

lemma Leaders_entries:
  assumes "distinct (map fst readings)"
  shows "Leaders readings = map (\<lambda>(i, H). (i, currentTerm (H i))) (filter (\<lambda>(i, H). role (H i) = Leader) readings)"
proof -
  have "gm_set i v m = m @ [(i, v)]" if "i \<notin> fst ` set m" for i and v :: uint64 and m :: "(string, uint64) gomap"
    using that by (induction m) auto
  then have "fold (\<lambda>(i, H) out. if role (H i) = Leader then gm_set i (currentTerm (H i)) out else out) rs out =
      out @ map (\<lambda>(i, H). (i, currentTerm (H i))) (filter (\<lambda>(i, H). role (H i) = Leader) rs)"
    if "distinct (map fst rs)" "fst ` set rs \<inter> fst ` set out = {}" for rs :: "(string \<times> heap) list" and out
    using that by (induction rs arbitrary: out) (auto simp: image_iff)
  from this [OF assms, of "[]"] show ?thesis by (simp add: Leaders_def)
qed

text \<open>
  The leaders a poll reports have different terms, although the nodes are asked at different moments of the run:
  the readings are in the order they are taken.
\<close>

lemma polled_leaders_differ:
  assumes ok: "cluster_ok M C" and r0: "creach M C d0" "below M h0 d0"
    and rd: "\<forall>(i, h) \<in> set readings. i \<in> set M \<and> hstep\<^sup>*\<^sup>* h0 h"
    and srt: "sorted_wrt (\<lambda>(_, h) (_, h'). hstep\<^sup>*\<^sup>* h h') readings" and di: "distinct (map fst readings)"
  shows "distinct (map snd (Leaders (map (\<lambda>(i, h). (i, nodeHeap (hCl h))) readings)))"
proof -
  let ?leads = "\<lambda>(i, h). role (nodeOf h i) = Leader"
  have tm: "currentTerm (nodeOf h i) \<noteq> currentTerm (nodeOf h' i')"
    if m: "i \<in> set M" "i' \<in> set M" and st: "hstep\<^sup>*\<^sup>* h0 h" "hstep\<^sup>*\<^sup>* h h'" and ne: "i \<noteq> i'"
      and l: "role (nodeOf h i) = Leader" "role (nodeOf h' i') = Leader" for i i' h h'
  proof -
    obtain d where d: "creach M C d" "below M h d" using hsteps_below [OF st(1) ok r0] by blast
    obtain d' where d': "(cstep M C)\<^sup>*\<^sup>* d d'" "below M h' d'" using hsteps_below [OF st(2) ok d] by blast
    from one_leader [OF ok d(1) d'(1) m] l ne belowD(1) [OF d(2)] belowD(1) [OF d'(2)] show ?thesis by auto
  qed
  let ?t = "\<lambda>x. currentTerm (nodeOf (snd x) (fst x))"
  have s1: "sorted_wrt (\<lambda>x y. hstep\<^sup>*\<^sup>* (snd x) (snd y)) readings" using srt by (simp add: case_prod_unfold)
  have s2: "sorted_wrt (\<lambda>x y. fst x \<noteq> fst y) readings" using di by (induction readings) auto
  have s: "sorted_wrt (\<lambda>x y. hstep\<^sup>*\<^sup>* (snd x) (snd y) \<and> fst x \<noteq> fst y) (filter ?leads readings)"
    by (rule sorted_wrt_filter) (use s1 s2 in \<open>induction readings; simp\<close>)
  have "sorted_wrt (\<lambda>x y. ?t x \<noteq> ?t y) (filter ?leads readings)"
    by (rule sorted_wrt_mono_rel [OF _ s]) (use rd tm in \<open>fastforce\<close>)
  then have "distinct (map ?t (filter ?leads readings))" by (rule sorted_wrt_distinct)
  moreover have "distinct (map fst (map (\<lambda>(i, h). (i, nodeHeap (hCl h))) readings))" using di by (simp add: comp_def case_prod_unfold)
  ultimately show ?thesis
    by (simp add: Leaders_entries filter_map comp_def case_prod_unfold)
qed

text \<open>
  \<open>WaitForLeader\<close> returns when one node alone says it leads. It does not compare the terms of the others, as its
  comment says: a deposed leader is returned while another node is already in a later term.
\<close>

lemma wait_returns_deposed_leader:
  assumes "role (H ''node-1'') = Leader" "currentTerm (H ''node-1'') = 1" "role (H ''node-2'') = Candidate" "currentTerm (H ''node-2'') = 2"
  shows "WaitForLeader [Leaders [(''node-1'', H), (''node-2'', H)]] = Some (''node-1'', 1)"
  using assms by (simp add: Leaders_def)

section \<open>The fake snapshot catalog\<close>

record FakeSnapshotCatalog =
  fcAvailable :: bool
  fcFile :: File
  fcFetchErr :: "string option"
  fcInfoErr :: "string option"

definition SetSnapshot :: "File \<Rightarrow> FakeSnapshotCatalog \<Rightarrow> FakeSnapshotCatalog" where
  "SetSnapshot file f = f\<lparr>fcFile := file, fcAvailable := True\<rparr>"

definition SetFetchErr :: "string option \<Rightarrow> FakeSnapshotCatalog \<Rightarrow> FakeSnapshotCatalog" where
  "SetFetchErr err f = f\<lparr>fcFetchErr := err\<rparr>"

definition Fake_GetLatestSnapshotInfo :: "FakeSnapshotCatalog \<Rightarrow> string + SnapshotInfo" where
  "Fake_GetLatestSnapshotInfo f =
     (case fcInfoErr f of
        Some e \<Rightarrow> Inl e
      | None \<Rightarrow> Inr \<lparr>siLastIncludedIndex = LastIncludedIndex (fcFile f), siLastIncludedTerm = LastIncludedTerm (fcFile f), siAvailable = fcAvailable f\<rparr>)"

definition Fake_FetchSnapshot :: "FakeSnapshotCatalog \<Rightarrow> string + File" where
  "Fake_FetchSnapshot f = (case fcFetchErr f of Some e \<Rightarrow> Inl e | None \<Rightarrow> Inr (fcFile f))"

end
