(* ===== verification/Catalog.thy ===== *)
theory Catalog
  imports Snapshot_Service Harness
begin

text \<open>
  The contract between a consensus node's poll loop and the snapshot catalog it polls (the interface
  \<open>SnapshotCatalogClient\<close> of \<open>internal/raft/snapshotcatchup.go\<close>), and what the loop does against any catalog
  that keeps it: the catalog of the backup service as seen through its client, and the fake one of the test
  harness.
\<close>

section \<open>The contract\<close>

text \<open>
  The two calls of the interface as functions of the catalog's state, \<open>None\<close> being an error. What is fetched is the
  snapshot that was announced. The state is the same for both calls here; when the catalog moves on between them the
  node compares the index and tries again at the next poll.
\<close>

text \<open>
  A node that has adopted the checkpoint \<open>f\<close>, which replaces what it held, and one that already had applied so much and has
  cut its log at it, which keeps all it held.
\<close>

definition adopted :: "(string \<times> string) list \<Rightarrow> File \<Rightarrow> node \<Rightarrow> node \<Rightarrow> bool" where
  "adopted xs f n n' \<longleftrightarrow>
     smOps n' = smOps n @ [RestoreState (State f)] \<and> log n' = [anchorOf f] \<and> logOffset n' = LastIncludedIndex f - 1 \<and>
     lastApplied n' = LastIncludedIndex f \<and> commitIndex n' = max (commitIndex n) (LastIncludedIndex f) \<and>
     map_of (files (dir n')) (FileName (LastIncludedIndex f)) = Some (Encode xs f) \<and> logFile (dir n') = Some (records [anchorOf f])"

definition cutAt :: "(string \<times> string) list \<Rightarrow> File \<Rightarrow> node \<Rightarrow> node \<Rightarrow> bool" where
  "cutAt xs f n n' \<longleftrightarrow>
     (let kept = anchorOf f # drop (LastIncludedIndex f - logOffset n) (log n)
      in smOps n' = smOps n \<and> log n' = kept \<and> logOffset n' = LastIncludedIndex f - 1 \<and>
         lastApplied n' = lastApplied n \<and> commitIndex n' = commitIndex n \<and>
         map_of (files (dir n')) (FileName (LastIncludedIndex f)) = Some (Encode xs f) \<and> logFile (dir n') = Some (records kept))"

lemma catchup_adopts:
  assumes "healthy ev" "lastApplied n < LastIncludedIndex f"
  shows "adopted xs f n (catchUpFromSnapshot ev xs (Some f) n)"
proof -
  have "map_of (files (dir (catchUpFromSnapshot ev xs (Some f) n))) (FileName (LastIncludedIndex f)) = Some (Encode xs f)"
    using assms by (simp add: catchUpFromSnapshot_def catchUpWrite_def WriteFile_def Let_def catchUpRewrite_def RewriteLog_def
        catchUpAdopt_def catchUpRestore_def healthyD replaceSnapshotFileLocked_def removeFile_def)
  then show ?thesis using catchup_ok [OF assms(1) _ refl, of f xs n] assms(2) by (simp add: adopted_def max_def)
qed

lemma compact_cuts:
  assumes "healthy ev" "logOffset n < LastIncludedIndex f" "LastIncludedIndex f \<le> lastLogIndexLocked n"
  shows "cutAt xs f n (snd (compactLocked ev xs f n))"
proof -
  note io = assms(1) [THEN healthyD(5)] assms(1) [THEN healthyD(6)]
  obtain e where e: "entryAtLocked n (LastIncludedIndex f) = Some e"
    using assms(2,3) entryAt_None [of n "LastIncludedIndex f"] by (cases "entryAtLocked n (LastIncludedIndex f)") auto
  have "map_of (files (dir (snd (compactLocked ev xs f n)))) (FileName (LastIncludedIndex f)) = Some (Encode xs f)"
    "smOps (snd (compactLocked ev xs f n)) = smOps n"
    using e io by (simp_all add: compactLocked_def Let_def WriteFile_def RewriteLog_def replaceSnapshotFileLocked_def removeFile_def)
  then show ?thesis using compact_ok [OF io assms(2,3), of xs] by (simp add: cutAt_def Let_def)
qed

locale snapshot_catalog =
  fixes good :: "'s \<Rightarrow> bool" and info :: "'s \<Rightarrow> SnapshotInfo option" and fetch :: "'s \<Rightarrow> File option"
  assumes announced: "good s \<Longrightarrow> info s = Some i \<Longrightarrow> siAvailable i \<Longrightarrow> fetch s = Some f \<Longrightarrow>
    LastIncludedIndex f = siLastIncludedIndex i \<and> LastIncludedTerm f = siLastIncludedTerm i"
begin

text \<open>One poll that can fetch and write makes a node that is behind adopt the announced checkpoint, and another one cut its log.\<close>

lemma poll_reaches:
  assumes "healthy ev" "good s" "info s = Some i" "siAvailable i" "fetch s = Some f" "lastApplied n \<le> lastLogIndexLocked n"
    and n': "n' = snapshotPollOnce ev xs (info s) (fetch s) n"
  shows "if lastApplied n < LastIncludedIndex f then adopted xs f n n'
    else if logOffset n + 1 < LastIncludedIndex f then cutAt xs f n n' else n' = n"
proof -
  have f: "siLastIncludedIndex i = LastIncludedIndex f" using announced assms(2-5) by simp
  consider "lastApplied n < LastIncludedIndex f" | "LastIncludedIndex f \<le> lastApplied n" "logOffset n + 1 < LastIncludedIndex f"
    | "LastIncludedIndex f \<le> lastApplied n" "LastIncludedIndex f \<le> logOffset n + 1" by linarith
  then show ?thesis
  proof cases
    case 1
    then have "n' = catchUpFromSnapshot ev xs (Some f) n" using assms f poll_catches_up [of i n ev xs "Some f"] by simp
    then show ?thesis using catchup_adopts [OF assms(1) 1] 1 by simp
  next
    case 2
    then have "n' = snd (compactLocked ev xs f n)"
      using assms f by (simp add: snapshotPollOnce_def pollDecide_def pollCompact_def Let_def)
    then show ?thesis using compact_cuts [of ev n f xs] assms(1,6) 2 by simp
  next
    case 3
    then show ?thesis using assms f by (simp add: snapshotPollOnce_def pollDecide_def Let_def)
  qed
qed

text \<open>At the announced index the loop is at rest: it neither fetches nor writes, whatever the disk would do.\<close>

lemma poll_rests:
  assumes "info s = Some i" "siLastIncludedIndex i \<le> lastApplied n" "siLastIncludedIndex i \<le> logOffset n + 1"
  shows "snapshotPollOnce ev xs (info s) fetched n = n"
  using assms by (simp add: snapshotPollOnce_def pollDecide_def Let_def)

end

text \<open>No poll moves the node back, whatever the catalog answers and whichever write fails.\<close>

lemma poll_monotone:
  assumes "n' = snapshotPollOnce ev xs i fetched n"
  shows "lastApplied n \<le> lastApplied n' \<and> commitIndex n \<le> commitIndex n' \<and> currentTerm n' = currentTerm n \<and> votedFor n' = votedFor n"
  unfolding assms
  by (auto simp: snapshotPollOnce_def pollCompact_def catchUpFromSnapshot_def catchUpWrite_def catchUpRewrite_def catchUpAdopt_def
      catchUpRestore_def compactLocked_def Let_def replaceSnapshotFileLocked_def
      split: pollAction.splits option.splits sum.splits prod.splits if_splits bool.splits)

section \<open>The two catalogs\<close>

text \<open>
  The catalog of the backup service: its store, and the order in which it encodes the map. The index of an available
  store is that of its checkpoint.
\<close>

definition servedInfo :: "(string \<times> string) list \<times> Store \<Rightarrow> SnapshotInfo option" where
  "servedInfo = (\<lambda>(ys, s). Some (catalogInfo s))"

definition servedFile :: "(string \<times> string) list \<times> Store \<Rightarrow> File option" where
  "servedFile = (\<lambda>(ys, s). clientFetchSnapshot (catalogFetch ys None s))"

definition encodes :: "(string \<times> string) list \<times> Store \<Rightarrow> bool" where
  "encodes = (\<lambda>(ys, s). \<forall>f. storeFile s = Some f \<longrightarrow> file_ok ys f)"

lemma storeFile_index: "storeFile s = Some f \<Longrightarrow> LastIncludedIndex f = storeIndex s \<and> LastIncludedTerm f = storeTerm s"
  by (auto simp: storeFile_def split: if_splits)

interpretation backup: snapshot_catalog encodes servedInfo servedFile
proof
  fix st i f
  assume a: "encodes st" "servedInfo st = Some i" "siAvailable i" "servedFile st = Some f"
  obtain ys s where st: "st = (ys, s)" by force
  have i: "i = catalogInfo s" using a(2) st by (simp add: servedInfo_def)
  then obtain g where g: "storeFile s = Some g" using a(3) by (auto simp: catalogInfo_def storeLatest_def storeFile_def)
  then have "servedFile st = Some g" using fetched [OF g] a(1) st by (simp add: servedFile_def encodes_def)
  then show "LastIncludedIndex f = siLastIncludedIndex i \<and> LastIncludedTerm f = siLastIncludedTerm i"
    using a(4) storeFile_index [OF g] i by (simp add: catalogInfo_def storeLatest_def)
qed

definition fakeInfo :: "FakeSnapshotCatalog \<Rightarrow> SnapshotInfo option" where
  "fakeInfo f = (case Fake_GetLatestSnapshotInfo f of Inl _ \<Rightarrow> None | Inr i \<Rightarrow> Some i)"

definition fakeFile :: "FakeSnapshotCatalog \<Rightarrow> File option" where
  "fakeFile f = (case Fake_FetchSnapshot f of Inl _ \<Rightarrow> None | Inr file \<Rightarrow> Some file)"

interpretation fake: snapshot_catalog "\<lambda>_. True" fakeInfo fakeFile
  by unfold_locales
    (auto simp: fakeInfo_def fakeFile_def Fake_GetLatestSnapshotInfo_def Fake_FetchSnapshot_def split: option.splits)

text \<open>
  C31: A node's poll of the backup service settles in one round. If the store has a checkpoint and the node can fetch
  and write it, then a node that is behind takes over the checkpoint: its state machine holds the store's contents, its log is the
  anchor alone, in memory and on disk, it counts as applied up to the store's index, and the checkpoint is in its directory. A node that had applied
  so much keeps its contents and cuts its log at the index. Every later poll of the same
  checkpoint leaves the node alone, even when fetching or writing would fail by then.
\<close>

theorem catalog_poll_settles:
  assumes "healthy ev" "storeFile s = Some f" "file_ok ys f" "lastApplied n \<le> lastLogIndexLocked n"
    and n': "n' = snapshotPollOnce ev xs (Some (catalogInfo s)) (clientFetchSnapshot (catalogFetch ys None s)) n"
  shows "(if lastApplied n < storeIndex s
      then machine unmarshal n' = storeState s \<and> lastApplied n' = storeIndex s \<and> commitIndex n' = max (commitIndex n) (storeIndex s) \<and>
        log n' = [anchorOf f] \<and> logOffset n' = storeIndex s - 1 \<and> logFile (dir n') = Some (records (log n')) \<and>
        map_of (files (dir n')) (FileName (storeIndex s)) = Some (Encode xs f)
      else machine unmarshal n' = machine unmarshal n \<and> lastApplied n' = lastApplied n \<and> commitIndex n' = commitIndex n \<and>
        (if storeIndex s \<le> logOffset n + 1 then n' = n
         else log n' = anchorOf f # drop (storeIndex s - logOffset n) (log n) \<and> logOffset n' = storeIndex s - 1 \<and>
           logFile (dir n') = Some (records (log n')) \<and> map_of (files (dir n')) (FileName (storeIndex s)) = Some (Encode xs f))) \<and>
    snapshotPollOnce ev' xs' (Some (catalogInfo s)) fetched n' = n'"
proof -
  have st: "encodes (ys, s)" "servedInfo (ys, s) = Some (catalogInfo s)" "siAvailable (catalogInfo s)" "servedFile (ys, s) = Some f"
    "siLastIncludedIndex (catalogInfo s) = storeIndex s" and f: "LastIncludedIndex f = storeIndex s" "State f = kvData (storeState s)"
    using assms(2,3) fetched [OF assms(2,3)]
    by (auto simp: encodes_def servedInfo_def servedFile_def catalogInfo_def storeLatest_def storeFile_def Snapshot_def split: if_splits)
  have "n' = snapshotPollOnce ev xs (servedInfo (ys, s)) (servedFile (ys, s)) n" using n' by (simp add: servedInfo_def servedFile_def)
  note r = backup.poll_reaches [OF assms(1) st(1-4) assms(4) this, unfolded f(1)]
  have m: "machine unmarshal n' = storeState s" if "smOps n' = smOps n @ [RestoreState (State f)]"
    using that by (simp add: machine_def runOp_def Restore_def f(2))
  have same: "machine unmarshal n' = machine unmarshal n" if "smOps n' = smOps n" using that by (simp add: machine_def)
  have "storeIndex s \<le> lastApplied n' \<and> storeIndex s \<le> logOffset n' + 1"
    using r by (auto simp: adopted_def cutAt_def Let_def f(1) split: if_splits)
  then have rest: "snapshotPollOnce ev' xs' (Some (catalogInfo s)) fetched n' = n'"
    using backup.poll_rests [OF st(2), unfolded st(2)] st(5) by simp
  consider "lastApplied n < storeIndex s" "adopted xs f n n'"
    | "\<not> lastApplied n < storeIndex s" "logOffset n + 1 < storeIndex s" "cutAt xs f n n'"
    | "\<not> lastApplied n < storeIndex s" "storeIndex s \<le> logOffset n + 1" "n' = n" using r by (auto split: if_splits)
  then show ?thesis
  proof cases
    case 1
    then show ?thesis using rest m by (simp add: adopted_def f(1))
  next
    case 2
    then show ?thesis using rest same by (simp add: cutAt_def f(1) Let_def)
  next
    case 3
    then show ?thesis using rest by simp
  qed
qed

definition demoCatalog :: Store where
  "demoCatalog = \<lparr>storeDir = demoDir, storeState = \<lparr>kvData = [''k'' \<mapsto> ''v'']\<rparr>, storeIndex = 2, storeTerm = 1, storeAvailable = True, storePath = ''''\<rparr>"

theorem catalog_poll_settles_witness:
  "let n' = snapshotPollOnce calm [(''k'', ''v'')] (Some (catalogInfo demoCatalog)) (clientFetchSnapshot (catalogFetch [(''k'', ''v'')] None demoCatalog)) demoBehind
   in storeFile demoCatalog = Some demoFile \<and> lastApplied demoBehind = 0 \<and> Get (machine demoUnmarshal demoBehind) ''k'' = ('''', False) \<and>
     Get (machine demoUnmarshal n') ''k'' = (''v'', True) \<and> lastApplied n' = 2 \<and>
     snapshotPollOnce calm [] (Some (catalogInfo demoCatalog)) None n' = n'"
proof -
  have d: "storeFile demoCatalog = Some demoFile" "lastApplied demoBehind = 0" "storeIndex demoCatalog = 2"
    "storeState demoCatalog = \<lparr>kvData = [''k'' \<mapsto> ''v'']\<rparr>" "smOps demoBehind = []"
    by (simp_all add: demoCatalog_def storeFile_def demoFile_def Snapshot_def demoBehind_def demoReplica_eq)
  have g: "Get (machine demoUnmarshal demoBehind) ''k'' = ('''', False)" by (simp add: machine_def d(5) New_def Get_def)
  have l: "lastApplied demoBehind \<le> lastLogIndexLocked demoBehind" using d(2) by simp
  from catalog_poll_settles [OF healthy_calm d(1) file_ok_demoFile l refl, where xs = "[(''k'', ''v'')]" and unmarshal = demoUnmarshal and ev' = calm and xs' = "[]" and fetched = None]
  show ?thesis unfolding Let_def using d g by (simp add: Get_def)
qed

end
