(* ===== verification/Processes.thy ===== *)
theory Processes
  imports Settings Connections Harness
begin

text \<open>
  The processes (\<open>cmd/*/main.go\<close>): what each reads from its environment, in which order it gives up, what it builds
  before it serves, and the loops it leaves running. Listening, serving and signals are the
  surroundings: whether a port can be bound is an argument, and a loop is driven by a list of events.

  A node's data directory is the one of its identifier below the base directory; the contents of the directories are an argument.
\<close>

section \<open>Loops\<close>

text \<open>
  A background loop selects between its ticker and the end of its context: each event is a tick, something others
  do to the shared state in between, or the end. \<open>time.NewTicker\<close> panics on an interval that is not positive; that
  is the result \<open>None\<close>. The flag tells whether the loop has returned.
\<close>

datatype ('e, 's) loopEvent = Ticked 'e | Meanwhile "'s \<Rightarrow> 's" | Stopped

fun selectLoop :: "('e \<Rightarrow> 's \<Rightarrow> 's) \<Rightarrow> ('e, 's) loopEvent list \<Rightarrow> 's \<Rightarrow> bool \<times> 's" where
  "selectLoop body [] s = (False, s)"
| "selectLoop body (Stopped # evs) s = (True, s)"
| "selectLoop body (Meanwhile f # evs) s = selectLoop body evs (f s)"
| "selectLoop body (Ticked e # evs) s = selectLoop body evs (body e s)"

definition withTicker :: "duration \<Rightarrow> (bool \<times> 's) \<Rightarrow> (bool \<times> 's) option" where
  "withTicker interval loop = (if interval \<le> 0 then None else Some loop)"

definition electionTicker :: "duration \<Rightarrow> (env, node) loopEvent list \<Rightarrow> node \<Rightarrow> (bool \<times> node) option" where
  "electionTicker tick evs n =
     withTicker tick (selectLoop (\<lambda>ev n. if electionDue (now ev) n then snd (startElection ev n) else n) evs n)"

text \<open>The requests the heartbeats of a leader build are collected next to the node.\<close>

definition heartbeatTicker :: "(unit, node \<times> outgoingAppendEntries list) loopEvent list \<Rightarrow> node \<Rightarrow>
    (bool \<times> node \<times> outgoingAppendEntries list) option" where
  "heartbeatTicker evs n =
     withTicker (HeartbeatInterval (timing n))
       (selectLoop (\<lambda>_ (n, sent). if heartbeatDue n
                        then (case broadcastAppendEntries n of None \<Rightarrow> (n, sent) | Some (_, reqs) \<Rightarrow> (n, sent @ reqs))
                        else (n, sent)) evs (n, []))"

definition snapshotPollLoop :: "duration \<Rightarrow> (env \<times> (string \<times> string) list \<times> SnapshotInfo option \<times> File option, node) loopEvent list \<Rightarrow>
    node \<Rightarrow> (bool \<times> node) option" where
  "snapshotPollLoop interval evs n =
     withTicker interval (selectLoop (\<lambda>(ev, xs, info, fetched) n. snapshotPollOnce ev xs info fetched n) evs n)"

datatype nodeLoop = ElectionTicker | HeartbeatTicker | SnapshotPollLoop

definition Start :: "bool \<Rightarrow> nodeLoop list" where
  "Start hasCatalog = [ElectionTicker, HeartbeatTicker] @ (if hasCatalog then [SnapshotPollLoop] else [])"

definition registryRun :: "probeResult list \<Rightarrow> duration \<Rightarrow> (probeResult list, Registry) loopEvent list \<Rightarrow> Registry \<Rightarrow> (bool \<times> Registry) option" where
  "registryRun first interval evs r =
     (let r1 = snd (PollOnce first r) in withTicker interval (selectLoop (\<lambda>results r. snd (PollOnce results r)) evs r1))"

definition proxyStart :: "ClusterView option \<Rightarrow> duration \<Rightarrow> (ClusterView option, 'b Proxy) loopEvent list \<Rightarrow> 'b Proxy \<Rightarrow> (bool \<times> 'b Proxy) option" where
  "proxyStart first interval evs p =
     (let p1 = refreshNow first p in withTicker interval (selectLoop refreshNow evs p1))"

text \<open>What one tick of the backup service sees: the disk, the encoding orders, and the answers of discovery and of the nodes.\<close>

record tickInput =
  tiFault :: "fault \<times> fault"
  tiOrders :: "(string \<times> string) list \<times> (string \<times> string) list"
  tiView :: "addr option"
  tiStatus :: "addr \<Rightarrow> LogStatusReply option"
  tiStream :: "addr \<Rightarrow> LogRangeRequest \<Rightarrow> PbLogEntry list option"
  tiViewAfter :: "addr option"

definition compactorRun :: "(bytes \<Rightarrow> KVCommand option) \<Rightarrow> (tickInput, Compactor) loopEvent list \<Rightarrow> Compactor \<Rightarrow> (bool \<times> Compactor) option" where
  "compactorRun unmarshal evs c =
     withTicker (PollInterval (compactorCfg c))
       (selectLoop (\<lambda>i c. snd (Tick unmarshal (fst (tiFault i)) (snd (tiFault i)) (fst (tiOrders i)) (snd (tiOrders i)) (tiView i) (tiStatus i) (tiStream i) (tiViewAfter i) c))
          evs c)"

section \<open>Starting up\<close>

datatype startError =
    Required string
  | BadConfig configError
  | BadSnapshot perror
  | CannotDial addr string
  | BadNode raftError
  | CannotListen string string

definition orDefault :: "string \<Rightarrow> string \<Rightarrow> string" where
  "orDefault v def = (if v = '''' then def else v)"

subsection \<open>The consensus node\<close>

record 'c consensusProcess =
  cpNode :: node
  cpPeers :: "addr list"
  cpPollInterval :: duration
  cpCatalog :: 'c
  cpLoops :: "nodeLoop list"

definition advertised :: "string \<Rightarrow> string \<Rightarrow> addr" where
  "advertised peersEnv port = (let own = ownAddress peersEnv port in if own = '''' then CHR '':'' # port else own)"

definition consensusConfig :: "environment \<Rightarrow> TimingConfig \<Rightarrow> SnapshotConfig \<Rightarrow> Config" where
  "consensusConfig getenv tc sc =
     (let port = orDefault (getenv ''CONSENSUS_PORT'') ''9000''
      in \<lparr>cfgID = getenv ''NODE_ID'', cfgAddress = advertised (getenv ''PEERS'') port, cfgPeers = peerAddresses (getenv ''PEERS'') port,
          cfgTiming = tc, cfgLogCapacity = LogCapacityEntries sc, cfgLocalSnapshot = None\<rparr>)"

text \<open>\<open>NewNode\<close> replaces a poll interval of zero by its default.\<close>

definition nodePoll :: "SnapshotConfig \<Rightarrow> duration" where
  "nodePoll sc = (if nodePollInterval sc = 0 then 5000000000 else nodePollInterval sc)"

definition consensusMain :: "environment \<Rightarrow> (string \<Rightarrow> string \<Rightarrow> datadir) \<Rightarrow> env \<Rightarrow> 'o \<Rightarrow> ('c, 'o) newClient \<Rightarrow> (string \<Rightarrow> string option) \<Rightarrow>
    startError + 'c consensusProcess" where
  "consensusMain getenv disk ev insecure newClient listen =
     (let nodeID = getenv ''NODE_ID'';
          port = orDefault (getenv ''CONSENSUS_PORT'') ''9000'';
          d = disk (orDefault (getenv ''DATA_DIR'') ''/data'') nodeID;
          snapshotAddr = getenv ''SNAPSHOT_ADDR''
      in if nodeID = '''' then Inl (Required ''NODE_ID'')
         else (case LoadTimingConfigFromEnv getenv of Inl e \<Rightarrow> Inl (BadConfig e) | Inr tc \<Rightarrow>
              (case LoadSnapshotConfigFromEnv getenv of Inl e \<Rightarrow> Inl (BadConfig e) | Inr sc \<Rightarrow>
              (case Latest d of Inl e \<Rightarrow> Inl (BadSnapshot e) | Inr _ \<Rightarrow>
                 if snapshotAddr = '''' then Inl (Required ''SNAPSHOT_ADDR'')
                 else (case NewCatalogClient insecure newClient snapshotAddr [] of Inl e \<Rightarrow> Inl (CannotDial snapshotAddr e) | Inr c \<Rightarrow>
                      (case bootNode ev (consensusConfig getenv tc sc) d of Inl e \<Rightarrow> Inl (BadNode e) | Inr n \<Rightarrow>
                      (case listen (CHR '':'' # port) of Some e \<Rightarrow> Inl (CannotListen port e) | None \<Rightarrow>
                         Inr \<lparr>cpNode = n, cpPeers = peerAddresses (getenv ''PEERS'') port, cpPollInterval = nodePoll sc,
                              cpCatalog = c, cpLoops = Start True\<rparr>)))))))"

subsection \<open>The other processes\<close>

definition discoveryMain :: "environment \<Rightarrow> (string \<Rightarrow> string option) \<Rightarrow> startError + Registry \<times> duration" where
  "discoveryMain getenv listen =
     (let port = orDefault (getenv ''DISCOVERY_PORT'') ''8500''
      in case discoveryLoadConfigFromEnv getenv of Inl e \<Rightarrow> Inl (BadConfig e) | Inr cfg \<Rightarrow>
           (case listen (CHR '':'' # port) of Some e \<Rightarrow> Inl (CannotListen port e) | None \<Rightarrow>
              Inr (NewRegistry (dcPeers cfg), dcPollInterval cfg)))"

definition clientProxyMain :: "environment \<Rightarrow> 'o \<Rightarrow> ('c, 'o) newClient \<Rightarrow> startError + 'b Proxy \<times> ('c, 'o) pool \<times> duration" where
  "clientProxyMain getenv insecure newClient =
     (let discoveryAddr = getenv ''DISCOVERY_ADDR''
      in if discoveryAddr = '''' then Inl (Required ''DISCOVERY_ADDR'')
         else (case proxyLoadConfigFromEnv getenv of Inl e \<Rightarrow> Inl (BadConfig e) | Inr cfg \<Rightarrow>
              (case NewGRPCDiscoveryClient insecure newClient discoveryAddr [] of Inl e \<Rightarrow> Inl (CannotDial discoveryAddr e) | Inr _ \<Rightarrow>
                 Inr (NewProxy, NewGRPCClientFactory insecure [], pcRefreshInterval cfg))))"

definition NewCompactor :: "Store \<Rightarrow> CompactorConfig \<Rightarrow> Compactor" where
  "NewCompactor s cfg = \<lparr>store = s, compactorCfg = cfg, compacting = False\<rparr>"

definition backupMain :: "environment \<Rightarrow> (string \<Rightarrow> datadir) \<Rightarrow> 'o \<Rightarrow> ('c, 'o) newClient \<Rightarrow> (string \<Rightarrow> string option) \<Rightarrow>
    startError + Compactor \<times> ('c, 'o) pool" where
  "backupMain getenv disk insecure newClient listen =
     (let port = orDefault (getenv ''SNAPSHOT_PORT'') ''8600'';
          d = disk (orDefault (getenv ''DATA_DIR'') ''/data'');
          discoveryAddr = getenv ''DISCOVERY_ADDR''
      in if discoveryAddr = '''' then Inl (Required ''DISCOVERY_ADDR'')
         else (case backupLoadConfigFromEnv getenv of Inl e \<Rightarrow> Inl (BadConfig e) | Inr cfg \<Rightarrow>
              (case NewStore d of Inl e \<Rightarrow> Inl (BadSnapshot e) | Inr s \<Rightarrow>
              (case Snapshot_NewGRPCDiscoveryClient insecure newClient discoveryAddr [] of Inl e \<Rightarrow> Inl (CannotDial discoveryAddr e) | Inr _ \<Rightarrow>
              (case listen (CHR '':'' # port) of Some e \<Rightarrow> Inl (CannotListen port e) | None \<Rightarrow>
                 Inr (NewCompactor s cfg, NewGRPCTransferClient []))))))"

section \<open>A deployment is a cluster\<close>

text \<open>
  What the deployment supplies: every process gets the same list of the members' addresses, a port that
  exactly its own entry has, and an identifier of its own.
\<close>

definition deployed :: "addr list \<Rightarrow> (addr \<Rightarrow> environment) \<Rightarrow> bool" where
  "deployed as envs \<longleftrightarrow> plain_entries as \<and> distinct as \<and> inj_on (\<lambda>a. envs a ''NODE_ID'') (set as) \<and>
     (\<forall>a \<in> set as. envs a ''PEERS'' = joinWith CHR '','' as \<and>
        (\<forall>b \<in> set as. isOwn (orDefault (envs a ''CONSENSUS_PORT'') ''9000'') b \<longleftrightarrow> b = a))"

lemma deployed_config:
  assumes "deployed as envs" "a \<in> set as"
  shows "cfgAddress (consensusConfig (envs a) tc sc) = a" "cfgPeers (consensusConfig (envs a) tc sc) = filter (\<lambda>b. b \<noteq> a) as"
proof -
  obtain xs ys where as: "as = xs @ a # ys" using assms(2) by (meson split_list)
  have d: "plain_entries (xs @ a # ys)" "isOwn (orDefault (envs a ''CONSENSUS_PORT'') ''9000'') a"
    "list_all (\<lambda>b. \<not> isOwn (orDefault (envs a ''CONSENSUS_PORT'') ''9000'') b) (xs @ ys)"
    "envs a ''PEERS'' = joinWith CHR '','' (xs @ a # ys)" "a \<notin> set (xs @ ys)"
    using assms as by (auto simp: deployed_def list_all_iff)
  have ne: "a \<noteq> ''''" using d(1) by (auto simp: plain_entries_def list_all_iff)
  from peer_list [OF d(1-4)] have "ownAddress (envs a ''PEERS'') (orDefault (envs a ''CONSENSUS_PORT'') ''9000'') = a"
    "peerAddresses (envs a ''PEERS'') (orDefault (envs a ''CONSENSUS_PORT'') ''9000'') = xs @ ys" by simp_all
  moreover have "filter (\<lambda>b. b \<noteq> a) zs = zs" if "a \<notin> set zs" for zs using that by (induction zs) auto
  then have "filter (\<lambda>b. b \<noteq> a) as = xs @ ys" using d(5) as by simp
  ultimately show "cfgAddress (consensusConfig (envs a) tc sc) = a" "cfgPeers (consensusConfig (envs a) tc sc) = filter (\<lambda>b. b \<noteq> a) as"
    using ne by (simp_all add: consensusConfig_def advertised_def Let_def)
qed

lemma Latest_empty: "Latest emptyDir = Inr None"
  by (simp add: Latest_def readDir_def emptyDir_def)

lemma bootNode_fields:
  assumes "bootNode ev cfg d = Inr n"
  shows "role n = Follower" "timing n = cfgTiming cfg"
proof -
  have nn: "role n' = Follower \<and> timing n' = cfgTiming cfg" if "NewNode ev (cfg\<lparr>cfgLocalSnapshot := s\<rparr>) d = Inr n'" for s n'
    using that by (auto simp: NewNode_def resetElectionDeadlineLocked_def Let_def split: sum.splits prod.splits)
  obtain s n' where "NewNode ev (cfg\<lparr>cfgLocalSnapshot := s\<rparr>) d = Inr n'" "role n' = role n" "timing n' = timing n"
    using assms by (fastforce simp: bootNode_def map_sum_def split: sum.splits option.splits prod.splits)
  then show "role n = Follower" "timing n = cfgTiming cfg" using nn by auto
qed

text \<open>What a process that came up has passed, and the node it runs.\<close>

lemma consensusMain_up:
  assumes "consensusMain getenv disk ev insecure nc listen = Inr p"
  shows "getenv ''NODE_ID'' \<noteq> ''''" "getenv ''SNAPSHOT_ADDR'' \<noteq> ''''"
    "\<exists>tc sc. LoadTimingConfigFromEnv getenv = Inr tc \<and> LoadSnapshotConfigFromEnv getenv = Inr sc \<and>
       bootNode ev (consensusConfig getenv tc sc) (disk (orDefault (getenv ''DATA_DIR'') ''/data'') (getenv ''NODE_ID'')) = Inr (cpNode p)"
  using assms by (auto simp: consensusMain_def Let_def split: if_splits sum.splits option.splits)

text \<open>
  C15: The processes of a deployment form the cluster the safety theorems are about. When every member's process comes up on
  an empty data directory, from environments that agree on the peer list, the configurations they build are
  those of a cluster and their nodes are its starting state, so that every run of the cluster relation from there is one the
  safety theorems speak of. The processes also attach a catalog: once a node compacts or catches up it leaves that relation.
\<close>

theorem deployment_is_cluster:
  assumes dep: "deployed as envs" and ev: "\<forall>a. healthy (ev a)"
    and up: "\<forall>a \<in> set as. consensusMain (envs a) (\<lambda>_ _. emptyDir) (ev a) insecure nc listen = Inr (p a)"
  shows "\<exists>C. cluster_ok as C \<and> cluster_start as C (startedCluster (\<lambda>a. cpNode (p a))) \<and>
    (\<forall>c. (cstep as C)\<^sup>*\<^sup>* (startedCluster (\<lambda>a. cpNode (p a))) c \<longrightarrow> creach as C c)"
proof -
  have "\<forall>a \<in> set as. \<exists>cfg. (\<exists>tc sc. cfg = consensusConfig (envs a) tc sc) \<and> NewNode (ev a) cfg emptyDir = Inr (cpNode (p a)) \<and> cfgID cfg \<noteq> ''''"
  proof
    fix a assume "a \<in> set as"
    with up have u: "consensusMain (envs a) (\<lambda>_ _. emptyDir) (ev a) insecure nc listen = Inr (p a)" by blast
    from consensusMain_up(3) [OF this] obtain tc sc
      where "bootNode (ev a) (consensusConfig (envs a) tc sc) emptyDir = Inr (cpNode (p a))" by blast
    moreover have "consensusConfig (envs a) tc sc\<lparr>cfgLocalSnapshot := None\<rparr> = consensusConfig (envs a) tc sc"
      by (simp add: consensusConfig_def Let_def)
    ultimately have "NewNode (ev a) (consensusConfig (envs a) tc sc) emptyDir = Inr (cpNode (p a))"
      by (simp add: bootNode_def Latest_empty)
    moreover have "cfgID (consensusConfig (envs a) tc sc) \<noteq> ''''"
      using consensusMain_up(1) [OF u] by (simp add: consensusConfig_def Let_def)
    ultimately show "\<exists>cfg. (\<exists>tc sc. cfg = consensusConfig (envs a) tc sc) \<and> NewNode (ev a) cfg emptyDir = Inr (cpNode (p a)) \<and> cfgID cfg \<noteq> ''''"
      by blast
  qed
  then obtain C where C: "\<forall>a \<in> set as. (\<exists>tc sc. C a = consensusConfig (envs a) tc sc) \<and> NewNode (ev a) (C a) emptyDir = Inr (cpNode (p a)) \<and> cfgID (C a) \<noteq> ''''"
    by metis
  have id: "cfgID (C a) = envs a ''NODE_ID'' \<and> cfgAddress (C a) = a \<and> cfgPeers (C a) = filter (\<lambda>b. b \<noteq> a) as \<and> cfgLocalSnapshot (C a) = None"
    if m: "a \<in> set as" for a
  proof -
    obtain tc sc where "C a = consensusConfig (envs a) tc sc" using C m by blast
    then show ?thesis using deployed_config [OF dep m, of tc sc] by (simp add: consensusConfig_def Let_def)
  qed
  have "cluster_ok as C" unfolding cluster_ok_def
  proof (intro conjI ballI)
    show "inj_on (\<lambda>a. cfgID (C a)) (set as)"
      using dep id by (simp add: deployed_def inj_on_def)
  qed (use dep C id in \<open>simp_all add: deployed_def\<close>)
  moreover have "cluster_start as C (startedCluster (\<lambda>a. cpNode (p a)))"
    using C ev by (auto simp: cluster_start_def startedCluster_def)
  ultimately show ?thesis unfolding creach_def by blast
qed

definition demoEnv :: "addr \<Rightarrow> environment" where
  "demoEnv a k = (if k = ''NODE_ID'' then a else if k = ''CONSENSUS_PORT'' then [last a] else if k = ''PEERS'' then ''a:1,b:2,c:3''
     else if k = ''SNAPSHOT_ADDR'' then ''s:4'' else '''')"

definition demoProcess :: "addr \<Rightarrow> nat consensusProcess" where
  "demoProcess a = projr (consensusMain (demoEnv a) (\<lambda>_ _. emptyDir) calm () (\<lambda>_ _. Inr 0) (\<lambda>_. None))"

lemma demo_deployed: "deployed [''a:1'', ''b:2'', ''c:3''] demoEnv"
  by (auto simp: deployed_def plain_entries_def isSpace_def inj_on_def demoEnv_def orDefault_def isOwn_def SplitHostPort_def)

lemma demo_up: "a \<noteq> '''' \<Longrightarrow> consensusMain (demoEnv a) (\<lambda>_ _. emptyDir) calm () (\<lambda>_ _. Inr 0) (\<lambda>_. None) = Inr (demoProcess a)"
  by (simp add: demoProcess_def consensusMain_def demoEnv_def LoadTimingConfigFromEnv_def LoadSnapshotConfigFromEnv_def envIntDefault_def
      Latest_empty NewCatalogClient_def DialPassthrough_def bootNode_def new_node_empty)

theorem deployment_is_cluster_witness:
  "deployed [''a:1'', ''b:2'', ''c:3''] demoEnv \<and> role (cpNode (demoProcess ''a:1'')) = Follower \<and>
   (\<exists>C. cluster_ok [''a:1'', ''b:2'', ''c:3''] C \<and> cluster_start [''a:1'', ''b:2'', ''c:3''] C (startedCluster (\<lambda>a. cpNode (demoProcess a))))"
proof -
  have "role (cpNode (demoProcess ''a:1'')) = Follower"
    using consensusMain_up(3) [OF demo_up [of "''a:1''"]] bootNode_fields(1) by blast
  moreover have "\<forall>a \<in> set [''a:1'', ''b:2'', ''c:3'']. consensusMain (demoEnv a) (\<lambda>_ _. emptyDir) calm () (\<lambda>_ _. Inr 0) (\<lambda>_. None) = Inr (demoProcess a)"
    using demo_up by simp
  ultimately show ?thesis
    using deployment_is_cluster [OF demo_deployed, of "\<lambda>_. calm" "()" "\<lambda>_ _. Inr 0" "\<lambda>_. None" demoProcess] demo_deployed by auto
qed

section \<open>Intervals that are accepted and panic\<close>

text \<open>
  A process can come up with an interval its loop cannot run with: \<open>time.NewTicker\<close> panics when it is zero or
  negative, and the process ends. The node accepts such a heartbeat interval, and a negative interval for its poll of the
  catalog (zero means the default there); the backup service accepts both for its own poll. Discovery and the proxy
  refuse them; for these the milliseconds have to overflow.
\<close>

theorem accepted_interval_panics:
  assumes "getenv ''HEARTBEAT_INTERVAL_MS'' = ''0''" "consensusMain getenv disk ev insecure nc listen = Inr p"
  shows "HeartbeatTicker \<in> set (cpLoops p) \<and> heartbeatTicker evs (cpNode p) = None"
proof -
  have a: "Atoi ''0'' = Some 0" by code_simp
  from consensusMain_up(3) [OF assms(2)] obtain tc sc where t: "LoadTimingConfigFromEnv getenv = Inr tc"
    "bootNode ev (consensusConfig getenv tc sc) (disk (orDefault (getenv ''DATA_DIR'') ''/data'') (getenv ''NODE_ID'')) = Inr (cpNode p)"
    by blast
  have "HeartbeatInterval tc = 0"
    using t(1) assms(1) a by (auto simp: LoadTimingConfigFromEnv_def envIntDefault_def millis_def swrap64_def Let_def split: sum.splits if_splits)
  moreover have "timing (cpNode p) = tc" using bootNode_fields(2) [OF t(2)] by (simp add: consensusConfig_def Let_def)
  moreover have "HeartbeatTicker \<in> set (cpLoops p)"
    using assms(2) by (auto simp: consensusMain_def Start_def Let_def split: if_splits sum.splits option.splits)
  ultimately show ?thesis by (simp add: heartbeatTicker_def withTicker_def)
qed

lemma backup_interval_panics:
  assumes "getenv ''SNAPSHOT_BACKUP_POLL_INTERVAL_MS'' = ''0''" "backupLoadConfigFromEnv getenv = Inr cfg" "compactorCfg c = cfg"
  shows "compactorRun unmarshal evs c = None"
proof -
  have a: "Atoi ''0'' = Some 0" by code_simp
  have "PollInterval cfg = 0"
    using assms(1,2) a by (auto simp: backupLoadConfigFromEnv_def envIntDefault_def millis_def swrap64_def split: sum.splits if_splits)
  then show ?thesis using assms(3) by (simp add: compactorRun_def withTicker_def)
qed

lemma proxy_interval_positive:
  assumes "proxyLoadConfigFromEnv getenv = Inr cfg" "\<forall>ms. Atoi (getenv ''PROXY_REFRESH_INTERVAL_MS'') = Some ms \<longrightarrow> ms < 2 ^ 63 div 1000000"
  shows "proxyStart first (pcRefreshInterval cfg) evs p \<noteq> None"
proof -
  have m: "millis n = n * 1000000" if "0 < n" "n < 2 ^ 63 div 1000000" for n
    unfolding millis_def using that by (intro swrap64_id) auto
  have "0 < pcRefreshInterval cfg"
    using assms m
    by (auto simp: proxyLoadConfigFromEnv_def envDurationMS_def second_def Let_def split: sum.splits option.splits if_splits)
  then show ?thesis by (simp add: proxyStart_def withTicker_def Let_def)
qed

lemma discovery_interval_positive:
  assumes "discoveryMain getenv listen = Inr (r, interval)" "\<forall>ms. Atoi (getenv ''DISCOVERY_POLL_INTERVAL_MS'') = Some ms \<longrightarrow> ms < 2 ^ 63 div 1000000"
  shows "registryRun first interval evs r \<noteq> None"
proof -
  have m: "millis n = n * 1000000" if "0 < n" "n < 2 ^ 63 div 1000000" for n
    unfolding millis_def using that by (intro swrap64_id) auto
  have "0 < interval"
    using assms m
    by (auto simp: discoveryMain_def discoveryLoadConfigFromEnv_def Let_def split: sum.splits option.splits if_splits)
  then show ?thesis by (simp add: registryRun_def withTicker_def Let_def)
qed

end
