(* ===== verification/State_Json.thy ===== *)
theory State_Json
  imports Go_Json Persistence
begin

text \<open>
  The text of \<open>state.json\<close>, in which a node keeps its term and vote, and the two files \<open>SaveState\<close> works on: the file
  itself and the temporary one that is renamed over it. The rest of the development treats the file as the value it decodes
  to (\<open>stateFile\<close>); this theory shows that this is what the bytes amount to.
\<close>

section \<open>The text\<close>

definition encodeState :: "uint64 \<Rightarrow> string \<Rightarrow> string" where
  "encodeState t v = ''{'' @ jsonMember ''currentTerm'' (showNat t) @ '','' @ jsonMember ''votedFor'' (encStr v) @ ''}''"

definition ParseUint64 :: "string \<Rightarrow> uint64 option" where
  "ParseUint64 s = (if s \<noteq> [] \<and> list_all isDigit s \<and> digitsVal s < 2 ^ 64 then Some (digitsVal s) else None)"

fun assignState :: "(string \<times> json) list \<Rightarrow> uint64 \<times> string \<Rightarrow> (uint64 \<times> string) option" where
  "assignState [] s = Some s"
| "assignState ((k, j) # ms) (t, v) =
     (if asciiLower k = ''currentterm'' then
        (case j of
           JNum l \<Rightarrow> (case ParseUint64 l of Some t' \<Rightarrow> assignState ms (t', v) | None \<Rightarrow> None)
         | JNull \<Rightarrow> assignState ms (t, v)
         | _ \<Rightarrow> None)
      else if asciiLower k = ''votedfor'' then
        (case j of JStr v' \<Rightarrow> assignState ms (t, v') | JNull \<Rightarrow> assignState ms (t, v) | _ \<Rightarrow> None)
      else assignState ms (t, v))"

definition decodeState :: "string \<Rightarrow> (uint64 \<times> string) option" where
  "decodeState text =
     (case jsonUnmarshal text of
        Some (JObj ms) \<Rightarrow> assignState ms (0, [])
      | Some JNull \<Rightarrow> Some (0, [])
      | _ \<Rightarrow> None)"

section \<open>The files\<close>

record stateDir =
  stText :: "string option"
  stTmp :: "string option"

definition SaveStateText :: "fault \<Rightarrow> uint64 \<Rightarrow> string \<Rightarrow> stateDir \<Rightarrow> perror option \<times> stateDir" where
  "SaveStateText flt t v d =
     (let data = encodeState t v
      in case flt of
           NoFault \<Rightarrow> (None, d\<lparr>stText := Some data, stTmp := None\<rparr>)
         | FailEarly \<Rightarrow> (Some IOError, d)
         | FailWrite k \<Rightarrow> (Some IOError, d\<lparr>stTmp := Some (take k data)\<rparr>)
         | _ \<Rightarrow> (Some IOError, d\<lparr>stTmp := Some data\<rparr>))"

definition LoadStateText :: "fault \<Rightarrow> stateDir \<Rightarrow> perror + (uint64 \<times> string)" where
  "LoadStateText flt d =
     (case stText d of
        None \<Rightarrow> Inr (0, '''')
      | Some text \<Rightarrow>
          if flt = FailEarly then Inl IOError
          else (case decodeState text of None \<Rightarrow> Inl IOError | Some s \<Rightarrow> Inr s))"

text \<open>What the rest of the development sees of them.\<close>

definition absState :: "stateDir \<Rightarrow> stateFile" where
  "absState d =
     (case stText d of
        None \<Rightarrow> NoState
      | Some text \<Rightarrow> (case decodeState text of None \<Rightarrow> BadState | Some (t, v) \<Rightarrow> SavedState t v))"

section \<open>The text is read back\<close>

lemma ParseUint64_showNat: "t < 2 ^ 64 \<Longrightarrow> ParseUint64 (showNat t) = Some t"
  using showNat_digits by (auto simp: ParseUint64_def list_all_iff)

lemma decodeState_encodeState: "t < 2 ^ 64 \<Longrightarrow> decodeState (encodeState t v) = Some (t, toValidUTF8 v)"
proof -
  assume t: "t < 2 ^ 64"
  have "toValidUTF8 ''currentTerm'' = ''currentTerm''" "toValidUTF8 ''votedFor'' = ''votedFor''"
    "asciiLower ''currentTerm'' = ''currentterm''" "asciiLower ''votedFor'' = ''votedfor''" by code_simp+
  then show ?thesis
    by (simp add: decodeState_def encodeState_def jsonMember_def decode_simps ParseUint64_showNat [OF t])
qed

text \<open>
  C13: The state file refines the value the other theories work with. Whatever goes wrong in a call of \<open>SaveState\<close>, at whatever
  byte, the call reports it and the file is the old one; otherwise it decodes to the term and vote that were
  saved, and loading the file gives what loading the value gives. The name in the vote has to be UTF-8.
\<close>

theorem state_file_refines:
  assumes "t < 2 ^ 64" "validUTF8 v" "stateJson D = absState d"
  shows "fst (SaveState flt t v D) = fst (SaveStateText flt t v d) \<and>
    stateJson (snd (SaveState flt t v D)) = absState (snd (SaveStateText flt t v d)) \<and>
    LoadState flt' D = LoadStateText flt' d \<and>
    (flt \<noteq> NoFault \<or> LoadStateText NoFault (snd (SaveStateText flt t v d)) = Inr (t, v))"
proof -
  have "decodeState (encodeState t v) = Some (t, v)"
    using decodeState_encodeState [OF assms(1)] assms(2) by (simp add: validUTF8_def)
  then show ?thesis using assms(3)
    by (auto simp: SaveState_def SaveStateText_def LoadState_def LoadStateText_def absState_def Let_def split: fault.splits option.splits prod.splits)
qed

theorem state_file_refines_witness:
  "let d = \<lparr>stText = Some (encodeState 3 ''a''), stTmp = None\<rparr>; D = emptyDisk\<lparr>stateJson := SavedState 3 ''a''\<rparr>
   in stateJson D = absState d \<and> stateJson (snd (SaveState NoFault 4 ''b'' D)) = absState (snd (SaveStateText NoFault 4 ''b'' d))"
proof -
  let ?d = "\<lparr>stText = Some (encodeState 3 ''a''), stTmp = None\<rparr>" and ?D = "emptyDisk\<lparr>stateJson := SavedState 3 ''a''\<rparr>"
  have v: "validUTF8 ''a''" "validUTF8 ''b''" by (rule ascii_valid; simp add: code_def)+
  have s: "(3 :: nat) < 2 ^ 64" "(4 :: nat) < 2 ^ 64" by simp_all
  have d: "stateJson ?D = absState ?d"
    using decodeState_encodeState [OF s(1), of "''a''"] v(1) unfolding validUTF8_def absState_def by simp
  show ?thesis unfolding Let_def using d state_file_refines [OF s(2) v(2) d, of NoFault] by blast
qed

text \<open>A name that is not UTF-8 comes back changed: after a restart the node no longer knows whom it voted for.\<close>

lemma vote_name_changes: "t < 2 ^ 64 \<Longrightarrow> decodeState (encodeState t [char_of (200 :: nat)]) \<noteq> Some (t, [char_of (200 :: nat)])"
proof -
  assume t: "t < 2 ^ 64"
  have "toValidUTF8 [char_of (200 :: nat)] = runeError"
    by (simp add: toValidUTF8.simps cleanElem_def code_def runeLen_def leadByte_def tailOk_def)
  moreover have "length runeError = 3" by (simp add: runeError_def utf8_def)
  ultimately have "toValidUTF8 [char_of (200 :: nat)] \<noteq> [char_of (200 :: nat)]"
    by (metis One_nat_def length_Cons list.size(3) numeral_eq_one_iff semiring_norm(86))
  then show ?thesis by (simp only: decodeState_encodeState [OF t] option.inject prod.inject simp_thms)
qed

end
