(* ===== verification/Dump.thy ===== *)
theory Dump
  imports Go_Json Snapshotfile
begin

text \<open>
  The tool that prints a checkpoint file, \<open>snapshotdump/main.go\<close>: the file is decoded and written as indented JSON, the pairs
  of the map in the order of their keys.
\<close>

section \<open>Indented text\<close>

definition indentLine :: "nat \<Rightarrow> string" where
  "indentLine n = newline @ replicate (2 * n) (CHR '' '')"

fun indentMembers :: "nat \<Rightarrow> (string \<times> string) list \<Rightarrow> string" where
  "indentMembers n [] = []"
| "indentMembers n ((k, text) # ms) =
     indentLine n @ encStr k @ '': '' @ text @ (if ms = [] then [] else '','' @ indentMembers n ms)"

definition indentObject :: "nat \<Rightarrow> (string \<times> string) list \<Rightarrow> string" where
  "indentObject n ms = (if ms = [] then ''{}'' else ''{'' @ indentMembers (n + 1) ms @ indentLine n @ ''}'')"

text \<open>A stream without the field leaves the map of the struct nil, which is written as \<open>null\<close>.\<close>

definition stateSent :: "bytes \<Rightarrow> bool" where
  "stateSent data =
     (case readUint (drop (length fileTypeDef) data) of
        None \<Rightarrow> False
      | Some (n, r) \<Rightarrow> (case readUint (drop 2 (take n r)) of None \<Rightarrow> False | Some (d, _) \<Rightarrow> d = 1))"

definition MarshalIndent :: "bool \<Rightarrow> (string \<times> string) list \<Rightarrow> File \<Rightarrow> string" where
  "MarshalIndent sent xs f =
     indentObject 0
       [(''State'', if sent then indentObject 1 (map (\<lambda>(k, v). (k, encStr v)) (sort_key fst xs)) else ''null''),
        (''LastIncludedIndex'', showNat (LastIncludedIndex f)),
        (''LastIncludedTerm'', showNat (LastIncludedTerm f))]"

section \<open>The tool\<close>

record processExit =
  exitCode :: nat
  exitOut :: string
  exitErr :: string

text \<open>
  The arguments with the name of the program first. The encoder has no failing case for this struct, so its error branch is
  never taken.
\<close>

definition dumpMain :: "string list \<Rightarrow> (perror \<Rightarrow> string) \<Rightarrow> (string \<times> string) list \<Rightarrow> datadir \<Rightarrow> processExit" where
  "dumpMain args errText xs d =
     (case args of
        [_, path] \<Rightarrow>
          (case ReadFile path d of
             Inl e \<Rightarrow> \<lparr>exitCode = 1, exitOut = [], exitErr = ''read error: '' @ errText e @ newline\<rparr>
           | Inr f \<Rightarrow>
               \<lparr>exitCode = 0,
                exitOut = MarshalIndent (\<exists>data \<in> set_option (map_of (files d) path). stateSent data) xs f @ newline,
                exitErr = []\<rparr>)
      | _ \<Rightarrow> \<lparr>exitCode = 1, exitOut = [], exitErr = ''usage: snapshotdump <path-to-file.dat>'' @ newline\<rparr>)"

section \<open>Reading the output back\<close>

lemma lex_white: "\<forall>c \<in> set w. isWs c \<Longrightarrow> lexJson (w @ t) = lexJson t"
proof -
  assume "\<forall>c \<in> set w. isWs c"
  then have "skipWs (w @ t) = skipWs t" by (simp add: skipWs_def dropWhile_append2)
  then show ?thesis by (simp add: lexJson.simps [of "w @ t"] lexJson.simps [of t] nextToken_def)
qed

lemma line_white: "c \<in> set (indentLine n) \<Longrightarrow> isWs c"
  by (auto simp: indentLine_def newline_def isWs_def code_def)

lemma lex_line: "lexJson (indentLine n @ t) = lexJson t"
  by (rule lex_white) (simp add: line_white)

lemma lex_space: "lexJson (CHR '' '' # t) = lexJson t"
  using lex_white [of "'' ''" t] by (simp add: isWs_def code_def)

lemma lex_number_line: "lexJson (showNat i @ indentLine n @ t) = TLit (JNum (showNat i)) # lexJson t"
proof -
  have "newline = [CHR 0x0A]" by code_simp
  then have "indentLine n @ t = CHR 0x0A # replicate (2 * n) (CHR '' '') @ t" by (simp add: indentLine_def)
  then show ?thesis using lex_number [of "CHR 0x0A" i] lex_line [of n t] by simp
qed

lemma lex_newline: "lexJson newline = []"
  using lex_white [of newline "[]"] by (simp add: newline_def isWs_def code_def lex_Nil)

definition decodedPairs :: "(string \<times> string) list \<Rightarrow> (string \<times> json) list" where
  "decodedPairs xs = map (\<lambda>(k, v). (toValidUTF8 k, JStr (toValidUTF8 v))) xs"

lemma run_members:
  "xs \<noteq> [] \<Longrightarrow> m = WantKey \<or> m = WantKeyOrEnd \<Longrightarrow>
     pRun (InObj ms # st) m (lexJson (indentMembers n (map (\<lambda>(k, v). (k, encStr v)) xs) @ t))
       = pRun (InObj (ms @ decodedPairs xs) # st) AfterValue (lexJson t)"
proof (induction xs arbitrary: ms m)
  case (Cons x xs)
  obtain k v where x: "x = (k, v)" by force
  let ?rest = "if xs = [] then t else CHR '','' # indentMembers n (map (\<lambda>(k, v). (k, encStr v)) xs) @ t"
  have "pRun (InObj ms # st) m (lexJson (indentMembers n (map (\<lambda>(k, v). (k, encStr v)) (x # xs)) @ t))
      = pRun (InObj (ms @ [(toValidUTF8 k, JStr (toValidUTF8 v))]) # st) AfterValue (lexJson ?rest)"
    using Cons.prems(2) by (auto simp: x lex_line lex_space lex_string lex_simps pRun_steps)
  with Cons.IH [of WantKey "ms @ [(toValidUTF8 k, JStr (toValidUTF8 v))]"] show ?case
    by (auto simp: x decodedPairs_def lex_simps pRun_steps)
qed simp

lemma run_object:
  assumes "length st < maxNestingDepth"
  shows "pRun (InMember ms k # st) WantValue (lexJson (indentObject n (map (\<lambda>(k, v). (k, encStr v)) xs) @ t))
    = (if Suc (length st) < maxNestingDepth then pRun (InObj (ms @ [(k, JObj (decodedPairs xs))]) # st) AfterValue (lexJson t) else None)"
  using run_members [of xs WantKeyOrEnd "[]" "InMember ms k # st" "n + 1" "indentLine n @ CHR ''}'' # t"]
  by (cases "xs = []") (simp_all add: indentObject_def lex_simps lex_line pRun_steps decodedPairs_def pRun.simps(2) complete_def)

lemma marshalled:
  "jsonUnmarshal (MarshalIndent True xs f @ newline) =
     Some (JObj [(''State'', JObj (decodedPairs (sort_key fst xs))),
       (''LastIncludedIndex'', JNum (showNat (LastIncludedIndex f))), (''LastIncludedTerm'', JNum (showNat (LastIncludedTerm f)))])"
proof -
  have "toValidUTF8 ''State'' = ''State''" "toValidUTF8 ''LastIncludedIndex'' = ''LastIncludedIndex''"
    "toValidUTF8 ''LastIncludedTerm'' = ''LastIncludedTerm''" by code_simp+
  then show ?thesis
    unfolding MarshalIndent_def indentObject_def [of 0]
    by (simp add: decode_simps lex_line lex_space lex_newline lex_number_line run_object)
qed

lemma stateSent_Encode: "file_ok xs f \<Longrightarrow> stateSent (Encode xs f)"
proof -
  assume f: "file_ok xs f"
  let ?v = "[0xff, 0x82] @ fileValue xs (LastIncludedIndex f) (LastIncludedTerm f)"
  have "length ?v < 2 ^ 64" using f by (simp add: file_ok_def Encode_def Let_def)
  from readUint_gobUint [OF this, of ?v] have "readUint (gobUint (length ?v) @ ?v) = Some (length ?v, ?v)" .
  moreover have "readUint (fileValue xs (LastIncludedIndex f) (LastIncludedTerm f)) \<noteq> None \<and>
      fst (the (readUint (fileValue xs (LastIncludedIndex f) (LastIncludedTerm f)))) = 1"
    unfolding fileValue_def by (simp add: readUint_gobUint)
  ultimately show ?thesis by (auto simp: stateSent_def Encode_def Let_def)
qed

text \<open>Whatever order the map was visited in, the pairs come out in the same order.\<close>

lemma iteration_sorted:
  assumes "iteration xs m" "iteration ys m"
  shows "sort_key fst xs = sort_key fst ys"
proof (rule map_sorted_distinct_set_unique [of fst])
  have xy: "distinct (map fst xs)" "distinct (map fst ys)" "map_of xs = map_of ys" using assms by (simp_all add: iteration_def)
  then have s: "set xs = set ys" by (metis map_of_inject_set)
  show "inj_on fst (set (sort_key fst xs) \<union> set (sort_key fst ys))" using xy(1) s by (simp add: distinct_map)
  show "set (sort_key fst xs) = set (sort_key fst ys)" using s by simp
  show "distinct (map fst (sort_key fst xs))" "distinct (map fst (sort_key fst ys))"
    using xy(1,2) by (simp_all add: distinct_map)
qed simp_all

lemma decodedPairs_map:
  "\<forall>(k, v) \<in> set xs. validUTF8 k \<and> validUTF8 v \<Longrightarrow> map_of (decodedPairs xs) = map_option JStr \<circ> map_of xs"
  by (induction xs) (auto simp: decodedPairs_def validUTF8_def fun_eq_iff)

lemma map_of_sorted: "distinct (map fst xs) \<Longrightarrow> map_of (sort_key fst xs) = map_of xs"
  by (subst map_of_inject_set) (simp_all add: distinct_map)

text \<open>
  C30: The dump of a checkpoint is the checkpoint. For a file that holds an encoded checkpoint the tool exits with code zero and
  prints a text that parses as a JSON object with the three fields; the members of the state are in ascending order of their keys,
  independently of the orders in which the map was visited when the file was written and when it was printed, and where all
  keys and values are UTF-8 they are exactly the pairs of the map.
\<close>

theorem dump_roundtrip:
  assumes "file_ok xs f" "map_of (files d) path = Some (Encode xs f)" "iteration ys (State f)"
  shows "\<exists>out. dumpMain [prog, path] errText ys d = \<lparr>exitCode = 0, exitOut = out, exitErr = []\<rparr> \<and>
    jsonUnmarshal out = Some (JObj [(''State'', JObj (decodedPairs (sort_key fst xs))),
      (''LastIncludedIndex'', JNum (showNat (LastIncludedIndex f))), (''LastIncludedTerm'', JNum (showNat (LastIncludedTerm f)))]) \<and>
    ((\<forall>(k, v) \<in> set xs. validUTF8 k \<and> validUTF8 v) \<longrightarrow>
      (\<forall>k. map_of (decodedPairs (sort_key fst xs)) k = map_option JStr (State f k)))"
proof -
  have it: "iteration xs (State f)" using assms(1) by (simp add: file_ok_def)
  have "ReadFile path d = Inr f" using Decode_Encode [OF assms(1)] assms(2) by (simp add: ReadFile_def)
  then have "dumpMain [prog, path] errText ys d = \<lparr>exitCode = 0, exitOut = MarshalIndent True ys f @ newline, exitErr = []\<rparr>"
    using assms(2) stateSent_Encode [OF assms(1)] by (simp add: dumpMain_def)
  moreover have "map_of (decodedPairs (sort_key fst xs)) k = map_option JStr (State f k)"
    if "\<forall>(k, v) \<in> set xs. validUTF8 k \<and> validUTF8 v" for k
    using decodedPairs_map [of "sort_key fst xs"] that it map_of_sorted [of xs] by (simp add: iteration_def)
  ultimately show ?thesis using marshalled [of ys f] iteration_sorted [OF it assms(3)] by simp
qed

theorem dump_roundtrip_witness:
  "let f = \<lparr>State = map_of [(''b'', ''2''), (''a'', ''1'')], LastIncludedIndex = 5, LastIncludedTerm = 2\<rparr>;
       d = \<lparr>logFile = None, stateJson = NoState, files = [(''s.dat'', Encode [(''b'', ''2''), (''a'', ''1'')] f)]\<rparr>
   in \<exists>out. dumpMain [''snapshotdump'', ''s.dat''] (\<lambda>_. []) [(''a'', ''1''), (''b'', ''2'')] d = \<lparr>exitCode = 0, exitOut = out, exitErr = []\<rparr> \<and>
        jsonUnmarshal out = Some (JObj [(''State'', JObj [(''a'', JStr ''1''), (''b'', JStr ''2'')]),
          (''LastIncludedIndex'', JNum ''5''), (''LastIncludedTerm'', JNum ''2'')])"
proof -
  let ?xs = "[(''b'', ''2''), (''a'', ''1'')]" and ?ys = "[(''a'', ''1''), (''b'', ''2'')]"
  let ?f = "\<lparr>State = map_of ?xs, LastIncludedIndex = 5, LastIncludedTerm = 2\<rparr>"
  let ?d = "\<lparr>logFile = None, stateJson = NoState, files = [(''s.dat'', Encode ?xs ?f)]\<rparr>"
  have ok: "file_ok ?xs ?f"
    by (simp add: file_ok_def iteration_def Encode_def fileTypeDef_def fileValue_def gobUint_def gobString_def
      gobField_def asciiBytes_def encUintField_def Let_def)
  have it: "iteration ?ys (State ?f)" by (simp add: iteration_def fun_eq_iff)
  have at: "map_of (files ?d) ''s.dat'' = Some (Encode ?xs ?f)" by simp
  have dec: "decodedPairs (sort_key fst ?xs) = [(''a'', JStr ''1''), (''b'', JStr ''2'')]" "showNat 5 = ''5''" "showNat 2 = ''2''" by code_simp+
  from dump_roundtrip [OF ok at it, of "''snapshotdump''" "\<lambda>_. []"] show ?thesis unfolding Let_def dec(1) using dec(2,3) by auto
qed

end
