(* ===== verification/Service.thy ===== *)
theory Service
  imports KV_Server Rest
begin

text \<open>
  The whole path of a client's request: the REST surface and the proxy of \<open>Rest\<close> and \<open>Proxy\<close>, whose calls are answered by
  the key-value service of \<open>KV_Server\<close> on the nodes of a running cluster (\<open>Raft_Cluster\<close>). The answers a proxy
  gets were arguments so far; here they are those of the handlers, with the node that answers running on while the
  call waits.
\<close>

section \<open>Cluster steps as steps of a running process\<close>

lemma sent_ok:
  assumes "cluster_ok M C" "creach M C c" "(a, r) \<in> aeCalls c"
  shows "req_ok (oaReq r)"
proof -
  from sim_two [OF assms(1,2) rtranclp.rtrancl_refl] obtain s where s: "sim M C c s" by metis
  note rel = simD(6) [OF assms(1) s assms(3)]
  then obtain m where m: "aePrevLogIndex (oaReq r) = oaPrevIndex r" "ldr s (aeTerm (oaReq r)) \<noteq> None"
    "aeEntries (oaReq r) = map pbOfEntry (drop (oaPrevIndex r) (take m (llog s (aeTerm (oaReq r)))))"
    by (auto simp: ae_rel_def Let_def)
  have "positional 0 (llog s (aeTerm (oaReq r)))" using s m(2) by (simp add: sim_def llogs_ok_def)
  then show ?thesis using m(1,3) by (auto simp: req_ok_def positional_def less_diff_conv)
qed

text \<open>Every step that does not restart a node leaves it alone or is a step of its process.\<close>

lemma cstep_local:
  assumes "cluster_ok M C" "creach M C c" "cstep M C c c'"
  shows "nodeAt c' a = nodeAt c a \<or> lstep (nodeAt c a) (nodeAt c' a) \<or>
    (\<exists>n1 ev n'. interrupted c a n1 \<and> healthy ev \<and> NewNode ev (C a) (dir n1) = Inr n' \<and> c' = forgetElections a (setNode a n' c))"
  using assms(3)
proof cases
  case (DeliverAppend b r ev reply n')
  then show ?thesis
    using lstep.append [OF sent_ok [OF assms(1,2) DeliverAppend(2)], of "nodeAt c (oaPeer r)" ev] by (auto simp: setNode_def)
next
  case (Timeout b ev el n')
  then show ?thesis using lstep.stand [of "nodeAt c b" ev] by (auto simp: setNode_def)
next
  case (SelfElect b t el)
  then show ?thesis using lstep.self by (auto simp: setNode_def)
next
  case (DeliverVote b p req ev reply n')
  then show ?thesis using lstep.vote [of "nodeAt c p" ev req] by (auto simp: setNode_def)
next
  case (VoteReply b p t reply ev el el' n')
  then show ?thesis using lstep.voteReply [of "nodeAt c b" ev reply el] by (auto simp: setNode_def)
next
  case (AppendReply b r reply ev ok n')
  then show ?thesis using lstep.sendReply [of "nodeAt c b" ev "aeTerm (oaReq r)" r "Some reply"] by (auto simp: setNode_def)
next
  case (ClientPropose b ev cmd res n')
  then show ?thesis using lstep.propose [of "nodeAt c b" ev cmd] by (auto simp: setNode_def)
next
  case (ClientProposeSync b ev cmd res n')
  then show ?thesis using lstep.proposeSync [of "nodeAt c b" ev cmd] by (auto simp: setNode_def)
next
  case (ClientReceive b ch v n')
  then show ?thesis using lstep.receive [of "nodeAt c b" ch] by (auto simp: setNode_def)
next
  case (ClientCancel b i)
  then show ?thesis using lstep.cancel by (auto simp: setNode_def)
next
  case (CrashRestart b n1 ev n')
  then show ?thesis by (cases "a = b") (auto simp: setNode_def forgetElections_def)
qed auto

lemma applied_at:
  assumes "cluster_ok M C" "creach M C c" "a \<in> set M"
  shows "ApplyFn \<lparr>msgIndex = i, msgTerm = t, msgCommand = cmd\<rparr> \<in> set (appliedEntries c a) \<longleftrightarrow>
    0 < i \<and> i \<le> commitIndex (nodeAt c a) \<and> log (nodeAt c a) ! (i - 1) = \<lparr>Term = t, Index = i, Command = cmd\<rparr>"
proof -
  let ?k = "commitIndex (nodeAt c a)" and ?l = "log (nodeAt c a)"
  note p = positional_log(1,2) [OF assms]
  from sim_two [OF assms(1,2) rtranclp.rtrancl_refl] obtain s where "sim M C c s" by metis
  note ap = sim_log(4) [OF assms(1) this assms(3)]
  have op: "ApplyFn \<lparr>msgIndex = i, msgTerm = t, msgCommand = cmd\<rparr> = applyOp e \<longleftrightarrow> e = \<lparr>Term = t, Index = i, Command = cmd\<rparr>" for e
    by (cases e) (auto simp: applyOp_def)
  show ?thesis
  proof
    assume "ApplyFn \<lparr>msgIndex = i, msgTerm = t, msgCommand = cmd\<rparr> \<in> set (appliedEntries c a)"
    then obtain j where j: "j < ?k" "?l ! j = \<lparr>Term = t, Index = i, Command = cmd\<rparr>" unfolding ap using p(2)
      by (auto simp: in_set_conv_nth op)
    with p have "i = j + 1" by (auto simp: positional_def dest!: spec [of _ j])
    with j show "0 < i \<and> i \<le> ?k \<and> ?l ! (i - 1) = \<lparr>Term = t, Index = i, Command = cmd\<rparr>" by simp
  next
    assume i: "0 < i \<and> i \<le> ?k \<and> ?l ! (i - 1) = \<lparr>Term = t, Index = i, Command = cmd\<rparr>"
    then have "?l ! (i - 1) \<in> set (take ?k ?l)" using p(2) by (auto simp: in_set_conv_nth intro!: exI [of _ "i - 1"])
    with i show "ApplyFn \<lparr>msgIndex = i, msgTerm = t, msgCommand = cmd\<rparr> \<in> set (appliedEntries c a)"
      unfolding ap by (simp add: op [symmetric] image_iff) (metis op)
  qed
qed

text \<open>What a node has applied, every node applies that commits as far, then and later.\<close>

lemma applied_later:
  assumes "cluster_ok M C" "creach M C c" "(cstep M C)\<^sup>*\<^sup>* c c'" "a \<in> set M" "b \<in> set M"
    "i \<le> commitIndex (nodeAt c' b)" "ApplyFn \<lparr>msgIndex = i, msgTerm = t, msgCommand = cmd\<rparr> \<in> set (appliedEntries c a)"
  shows "ApplyFn \<lparr>msgIndex = i, msgTerm = t, msgCommand = cmd\<rparr> \<in> set (appliedEntries c' b)"
proof -
  note at = assms(7) [unfolded applied_at [OF assms(1,2,4)]]
  have r: "creach M C c'" using assms(2,3) unfolding creach_def by (meson rtranclp_trans)
  from sim_two [OF assms(1-3)] obtain s s' where s: "sim M C c s" "sim M C c' s'" by metis
  have len: "i \<le> length (appliedEntries c a)" "i \<le> length (appliedEntries c' b)"
    using at assms(6) positional_log(2) [OF assms(1,2,4)] positional_log(2) [OF assms(1) r assms(5)]
    by (simp_all add: sim_log(4) [OF assms(1) s(1) assms(4)] sim_log(4) [OF assms(1) s(2) assms(5)])
  have "appliedEntries c' b ! (i - 1) = appliedEntries c a ! (i - 1)"
    using applied_comparable [OF assms(1-5)] len at by (auto simp: prefix_def nth_append)
  moreover have "i - 1 < commitIndex (nodeAt c a)" "i - 1 < length (log (nodeAt c a))" using at positional_log(2) [OF assms(1,2,4)] by auto
  then have "appliedEntries c a ! (i - 1) = ApplyFn \<lparr>msgIndex = i, msgTerm = t, msgCommand = cmd\<rparr>"
    using at by (simp add: sim_log(4) [OF assms(1) s(1) assms(4)] applyOp_def)
  moreover have "i - 1 < length (appliedEntries c' b)" using len at by auto
  ultimately show ?thesis by (metis nth_mem)
qed

text \<open>The books a node keeps about waiting calls are in order, in every state of the cluster.\<close>

lemma reach_local:
  assumes "cluster_ok M C" "creach M C c" "a \<in> set M"
  shows "local_ok {} (nodeAt c a)" "lastApplied (nodeAt c a) \<le> lastLogIndexLocked (nodeAt c a)"
proof -
  have off: "logOffset (nodeAt c a) = 0 \<and> positional 0 (log (nodeAt c a)) \<and> lastApplied (nodeAt c a) \<le> length (log (nodeAt c a))" if "creach M C c" for c
  proof -
    from sim_two [OF assms(1) that rtranclp.rtrancl_refl] obtain s where s: "sim M C c s" by metis
    with simD(3) [OF assms(1) s assms(3)] positional_log(1,2) [OF assms(1) that assms(3)] show ?thesis by (simp add: node_rel_def)
  qed
  then show "lastApplied (nodeAt c a) \<le> lastLogIndexLocked (nodeAt c a)" using assms(2) by (simp add: lastLogIndexLocked_def)
  obtain c0 where c0: "cluster_start M C c0" "(cstep M C)\<^sup>*\<^sup>* c0 c" using assms(2) by (auto simp: creach_def)
  from c0(2) show "local_ok {} (nodeAt c a)"
  proof induction
    case base
    have "creach M C c0" using c0(1) by (auto simp: creach_def)
    moreover obtain ev where "NewNode ev (C a) emptyDir = Inr (nodeAt c0 a)" using c0(1) assms(3) by (auto simp: cluster_start_def)
    ultimately show ?case using off [of c0] lo_start by metis
  next
    case (step c1 c2)
    have r: "creach M C c1" "creach M C c2" using c0(1) step.hyps unfolding creach_def by (meson rtranclp.rtrancl_into_rtrancl)+
    from cstep_local [OF assms(1) r(1) step.hyps(2), of a] consider "nodeAt c2 a = nodeAt c1 a" | "lstep (nodeAt c1 a) (nodeAt c2 a)"
      | ev d where "NewNode ev (C a) d = Inr (nodeAt c2 a)" by (auto simp: setNode_def forgetElections_def)
    then show ?case
    proof cases
      case 3
      then show ?thesis using off [OF r(2)] lo_start by metis
    qed (use step.IH lo_step in auto)
  qed
qed

section \<open>Answers of the nodes\<close>

text \<open>The steps of a cluster during which the process at \<open>a\<close> keeps running.\<close>

definition alive :: "addr list \<Rightarrow> (addr \<Rightarrow> Config) \<Rightarrow> addr \<Rightarrow> cluster \<Rightarrow> cluster \<Rightarrow> bool" where
  "alive M C a c c' \<longleftrightarrow> cstep M C c c' \<and> (nodeAt c' a = nodeAt c a \<or> lstep (nodeAt c a) (nodeAt c' a))"

text \<open>The dispatch of the service's three writing calls.\<close>

definition handleCall :: "(KVCommand \<Rightarrow> bytes option) \<Rightarrow> env \<Rightarrow> kvCall \<Rightarrow> node \<Rightarrow> notice option \<Rightarrow> node \<Rightarrow> (raftError + WriteReply) \<times> node" where
  "handleCall marshal ev call =
     (case call of
        CallPut req \<Rightarrow> Put marshal ev req
      | CallUpdate req \<Rightarrow> Update marshal ev req
      | CallDelete req \<Rightarrow> Delete marshal ev req)"

definition commandOf :: "kvCall \<Rightarrow> KVCommand" where
  "commandOf call =
     (case call of
        CallPut req \<Rightarrow> \<lparr>cmdOp = PUT, cmdKey = prKey req, cmdValue = prValue req\<rparr>
      | CallUpdate req \<Rightarrow> \<lparr>cmdOp = UPDATE, cmdKey = prKey req, cmdValue = prValue req\<rparr>
      | CallDelete req \<Rightarrow> \<lparr>cmdOp = DELETE, cmdKey = drKey req, cmdValue = ''''\<rparr>)"

text \<open>
  A call answered by the node at \<open>a\<close>, by the time the cluster is in state \<open>c\<close>. It begins in a reachable state \<open>c0\<close>; the process
  runs on until \<open>c1\<close>, where the call hears from its channel or has run out of time.
\<close>

inductive answered_by :: "addr list \<Rightarrow> (addr \<Rightarrow> Config) \<Rightarrow> (KVCommand \<Rightarrow> bytes option) \<Rightarrow> addr \<Rightarrow> kvCall \<Rightarrow> raftError + WriteReply \<Rightarrow> cluster \<Rightarrow> bool"
  for M C marshal a call where
  "a \<in> set M \<Longrightarrow> creach M C c0 \<Longrightarrow> healthy ev \<Longrightarrow> (\<And>payload. marshal (commandOf call) = Some payload \<Longrightarrow> fits payload (nodeAt c0 a)) \<Longrightarrow>
   handleCall marshal ev call (nodeAt c0 a) got nl = (res, n1) \<Longrightarrow> (alive M C a)\<^sup>*\<^sup>* (setNode a n1 c0) c1 \<Longrightarrow>
   got = None \<or> (\<exists>payload i t ch. marshal (commandOf call) = Some payload \<and>
      fst (proposeBegin ev payload (nodeAt c0 a)) = Inr (i, t, ch) \<and> got = fst (proposeReceive ch (nodeAt c1 a))) \<Longrightarrow>
   (cstep M C)\<^sup>*\<^sup>* c1 c \<Longrightarrow> answered_by M C marshal a call res c"

lemma handleCall_write: "handleCall marshal ev call = serverWrite marshal ev (cmdOp (commandOf call)) (cmdKey (commandOf call)) (cmdValue (commandOf call))"
  by (cases call) (simp_all add: handleCall_def commandOf_def Put_def Update_def Delete_def)

lemma alive_run: "(alive M C a)\<^sup>*\<^sup>* c c' \<Longrightarrow> (cstep M C)\<^sup>*\<^sup>* c c' \<and> lstep\<^sup>*\<^sup>* (nodeAt c a) (nodeAt c' a)"
proof (induction rule: rtranclp_induct)
  case (step c1 c2)
  then have "(cstep M C)\<^sup>*\<^sup>* c c2" by (auto simp: alive_def intro: rtranclp.rtrancl_into_rtrancl)
  moreover have "lstep\<^sup>*\<^sup>* (nodeAt c a) (nodeAt c2 a)"
    using step by (auto simp: alive_def intro: rtranclp.rtrancl_into_rtrancl)
  ultimately show ?case ..
qed simp

lemma success_applied:
  assumes "cluster_ok M C" "answered_by M C marshal a call (Inr reply) c" "wrSuccess reply"
  obtains payload t c1 where "marshal (commandOf call) = Some payload" "creach M C c1" "(cstep M C)\<^sup>*\<^sup>* c1 c" "a \<in> set M"
    "ApplyFn \<lparr>msgIndex = wrCommitIndex reply, msgTerm = t, msgCommand = payload\<rparr> \<in> set (appliedEntries c1 a)"
  using assms(2)
proof cases
  case (1 c0 ev got nl n1 c1)
  let ?n = "nodeAt c0 a" and ?cmd = "commandOf call"
  have w: "fst (serverWrite marshal ev (cmdOp ?cmd) (cmdKey ?cmd) (cmdValue ?cmd) ?n got nl) = Inr reply"
    "snd (serverWrite marshal ev (cmdOp ?cmd) (cmdKey ?cmd) (cmdValue ?cmd) ?n got nl) = n1"
    using 1(5) by (simp_all add: handleCall_write)
  have cmd: "\<lparr>cmdOp = cmdOp ?cmd, cmdKey = cmdKey ?cmd, cmdValue = cmdValue ?cmd\<rparr> = ?cmd" by simp
  obtain payload where p: "marshal ?cmd = Some payload" using w(1) by (auto simp: serverWrite_def cmd split: option.splits)
  obtain begun where b: "proposeBegin ev payload ?n = (begun, n1)" using w(2) p
    by (cases "proposeBegin ev payload ?n") (auto simp: serverWrite_def cmd)
  have "writeReply (proposeResult begun got) nl = Inr reply" using w(1) p b by (simp add: serverWrite_def cmd)
  then obtain i t ch where begun: "begun = Inr (i, t, ch)" "got = Some Committed"
    using assms(3) by (auto simp: writeReply_def proposeResult_def split: sum.splits option.splits notice.splits if_splits)
  with 1(7) p b have g: "got = fst (proposeReceive ch (nodeAt c1 a))" by auto
  note run = alive_run [OF 1(6)]
  have mk: "marshal \<lparr>cmdOp = cmdOp ?cmd, cmdKey = cmdKey ?cmd, cmdValue = cmdValue ?cmd\<rparr> = Some payload" using p by (simp add: cmd)
  have "cstep M C c0 (setNode a n1 c0)" using cstep.ClientProposeSync [OF 1(1,3) 1(4) [OF p] b] .
  then have r: "creach M C c1" using 1(2) run unfolding creach_def by (meson rtranclp_trans r_into_rtranclp)
  have l: "lstep\<^sup>*\<^sup>* n1 (nodeAt c1 a)" using run by (simp add: setNode_def)
  have "role ?n = Leader \<and> wrCommitIndex reply = i \<and> ApplyFn \<lparr>msgIndex = i, msgTerm = t, msgCommand = payload\<rparr> \<in> set (smOps (nodeAt c1 a))"
    by (rule write_applied [where marshal = marshal, OF reach_local [OF assms(1) 1(2,1)] mk b [unfolded begun(1)] l w(1) [unfolded g] assms(3)])
  then show thesis using that [OF p r 1(8) 1(1), of t] by (simp add: appliedEntries_def)
qed

section \<open>What a node serves\<close>

lemma untouched:
  assumes "\<forall>c \<in> set cs. \<forall>cmd. um c = Some cmd \<longrightarrow> cmdKey cmd \<noteq> k"
  shows "kvData (applyCommands um cs kv) k = kvData kv k"
  using assms
proof (induction cs arbitrary: kv)
  case (Cons c cs)
  then have "kvData (applyCommand um c kv) k = kvData kv k"
    by (auto simp: applyCommand_def Apply_def split: option.split KVOp.split)
  with Cons show ?case by (simp add: applyCommands_def)
qed simp

text \<open>The commands a node has applied behind an index.\<close>

definition laterCommands :: "uint64 \<Rightarrow> node \<Rightarrow> bytes list" where
  "laterCommands i n = map Command (drop i (take (commitIndex n) (log n)))"

definition untouchedSince :: "(bytes \<Rightarrow> KVCommand option) \<Rightarrow> string \<Rightarrow> uint64 \<Rightarrow> node \<Rightarrow> bool" where
  "untouchedSince um k i n \<longleftrightarrow> (\<forall>c \<in> set (laterCommands i n). \<forall>cmd. um c = Some cmd \<longrightarrow> cmdKey cmd \<noteq> k)"

lemma served_value:
  assumes "cluster_ok M C" "creach M C c" "b \<in> set M" "ApplyFn \<lparr>msgIndex = i, msgTerm = t, msgCommand = payload\<rparr> \<in> set (appliedEntries c b)"
    "um payload = Some cmd" "untouchedSince um (cmdKey cmd) i (nodeAt c b)" "commandEffect cmd = Some (cmdKey cmd, v)"
  shows "Get (machine um (nodeAt c b)) (cmdKey cmd) = (case v of None \<Rightarrow> ('''', False) | Some x \<Rightarrow> (x, True))"
proof -
  let ?n = "nodeAt c b" and ?k = "cmdKey cmd"
  note at = assms(4) [unfolded applied_at [OF assms(1-3)]]
  let ?es = "take (commitIndex ?n) (log ?n)"
  have "i - 1 < length ?es" "?es ! (i - 1) = \<lparr>Term = t, Index = i, Command = payload\<rparr>" using at positional_log(2) [OF assms(1-3)] by auto
  then have "?es = take (i - 1) ?es @ \<lparr>Term = t, Index = i, Command = payload\<rparr> # drop i ?es"
    using id_take_nth_drop [of "i - 1" ?es] at by simp
  then have "map Command ?es = map Command (take (i - 1) ?es) @ [payload] @ laterCommands i ?n"
    by (metis (no_types, lifting) LogEntry.select_convs(3) append_Cons append_Nil laterCommands_def list.simps(9) map_append)
  then have "machine um ?n = applyCommands um (laterCommands i ?n) (applyCommand um payload (applyCommands um (map Command (take (i - 1) ?es)) New))"
    unfolding machine_log [OF assms(1-3)] by (simp add: applyCommands_def)
  then have "kvData (machine um ?n) ?k = kvData (applyCommand um payload (applyCommands um (map Command (take (i - 1) ?es)) New)) ?k"
    using untouched [of "laterCommands i ?n" um ?k] assms(6) by (simp add: untouchedSince_def)
  also have "\<dots> = v" using assms(5,7) by (simp add: applyCommand_def kvData_Apply)
  finally show ?thesis by (simp add: Get_def)
qed

section \<open>Writes of a client\<close>

text \<open>The three writing requests: method, body, the status that reports success, and what the key holds afterwards.\<close>

inductive clientWrite :: "string \<Rightarrow> string \<Rightarrow> nat \<Rightarrow> WriteOp \<Rightarrow> string \<Rightarrow> string option \<Rightarrow> bool" where
  "validUTF8 v \<Longrightarrow> clientWrite ''POST'' (valueBody v @ t) 201 OpPut v (Some v)"
| "validUTF8 v \<Longrightarrow> clientWrite ''PUT'' (valueBody v @ t) 200 OpUpdate v (Some v)"
| "clientWrite ''DELETE'' t 204 OpDelete '''' None"

lemma proxy_success:
  assumes "proxyWrite pe op k v p = (Inr reply, p')"
  obtains j a where "peWrite pe j a (writeRequest op k v) = Inr reply" "wrSuccess reply"
proof -
  obtain b p1 where o: "allNodesOpen (peLib pe) (peStart pe) (pxView p) p = (b, p1)" by force
  have "writeLoop pe op k v maxHops (cvLeaderAddress (pxView p)) p1 = (Inr reply, p')"
    using assms by (auto simp: proxyWrite_def o Let_def split: bool.splits if_splits)
  from writeLoop_trace [OF order.refl this] obtain xs where
    "write_trace pe (writeRequest op k v) (Suc maxHops - maxHops) (cvLeaderAddress (pxView p)) xs (Inr reply)" by blast
  then show thesis using that unfolding write_trace_def by blast
qed

lemma client_success:
  assumes "addressable k" "clientWrite meth body st op v eff" "ServeHTTP pe meth (keyPath k) body p = (Served r, p')" "rwStatus r = st"
  obtains reply q where "proxyWrite pe op k v p = (Inr reply, q)" "map_of (rwHeaders r) ''X-Commit-Index'' = Some (showNat (wrCommitIndex reply))"
proof -
  have b: "decodeBody (valueBody x @ t) = Parsed (Some x)" if "validUTF8 x" for x t
    using request_body [of x t] that by (simp add: valueBody_def validUTF8_def)
  have e: "rsStatus (writeError e) = 503" if "proxyWrite pe op' k v' p = (Inl e, q)" for op' v' e q
    using proxyWrite_error [OF that] by (auto simp: writeError_unavailable)
  show thesis
    using assms(2)
  proof cases
    case (1 t)
    then show thesis using assms(3,4) that e b
      by (auto simp: served_key [OF assms(1)] handlePush_def decodeValueBody_def respond_def writeCommitted_def writeJSON_def split: prod.splits sum.splits)
  next
    case (2 t)
    then show thesis using assms(3,4) that e b
      by (auto simp: served_key [OF assms(1)] handleUpdate_def decodeValueBody_def respond_def writeCommitted_def writeJSON_def split: prod.splits sum.splits)
  next
    case 3
    then show thesis using assms(3,4) that e
      by (auto simp: served_key [OF assms(1)] handleDelete_def respond_def split: prod.splits sum.splits)
  qed
qed

lemma command_effect:
  assumes "clientWrite meth body st op v eff"
  shows "cmdKey (commandOf (writeRequest op k v)) = k" "commandEffect (commandOf (writeRequest op k v)) = Some (k, eff)"
  using assms by (cases op; auto simp: writeRequest_def commandOf_def commandEffect_def elim: clientWrite.cases)+

text \<open>
  C10: A write acknowledged to a client is committed. When the nodes answer the proxy's calls and a POST, PUT or DELETE of a key is
  reported with its status of success, the command of the request has been committed at the index in the response's header: from
  then on every node whose commit index reaches it has applied exactly that command there, crashes
  included, and serves the written value, or its absence, until a later command for the key is applied.
\<close>

theorem client_write_committed:
  assumes ok: "cluster_ok M C" and codec: "\<forall>cmd payload. marshal cmd = Some payload \<longrightarrow> unmarshal payload = Some cmd"
    and served: "\<forall>j a call reply. peWrite pe j a call = Inr reply \<longrightarrow> answered_by M C marshal a call (Inr reply) c"
    and w: "addressable k" "clientWrite meth body st op v eff" "ServeHTTP pe meth (keyPath k) body p = (Served r, p')" "rwStatus r = st"
  shows "\<exists>i t payload. map_of (rwHeaders r) ''X-Commit-Index'' = Some (showNat i) \<and> unmarshal payload = Some (commandOf (writeRequest op k v)) \<and>
    (\<forall>c' b. (cstep M C)\<^sup>*\<^sup>* c c' \<and> b \<in> set M \<and> i \<le> commitIndex (nodeAt c' b) \<longrightarrow>
       ApplyFn \<lparr>msgIndex = i, msgTerm = t, msgCommand = payload\<rparr> \<in> set (appliedEntries c' b) \<and>
       (untouchedSince unmarshal k i (nodeAt c' b) \<longrightarrow>
          Get (machine unmarshal (nodeAt c' b)) k = (case eff of None \<Rightarrow> ('''', False) | Some x \<Rightarrow> (x, True))))"
proof -
  obtain reply q where r: "proxyWrite pe op k v p = (Inr reply, q)" "map_of (rwHeaders r) ''X-Commit-Index'' = Some (showNat (wrCommitIndex reply))"
    by (rule client_success [OF w])
  obtain j a where a: "peWrite pe j a (writeRequest op k v) = Inr reply" "wrSuccess reply" by (rule proxy_success [OF r(1)])
  with served have "answered_by M C marshal a (writeRequest op k v) (Inr reply) c" by blast
  from success_applied [OF ok this a(2)] obtain payload t c1 where x: "marshal (commandOf (writeRequest op k v)) = Some payload"
    "creach M C c1" "(cstep M C)\<^sup>*\<^sup>* c1 c" "a \<in> set M"
    "ApplyFn \<lparr>msgIndex = wrCommitIndex reply, msgTerm = t, msgCommand = payload\<rparr> \<in> set (appliedEntries c1 a)" by metis
  have u: "unmarshal payload = Some (commandOf (writeRequest op k v))" using codec x(1) by blast
  note e = command_effect [OF w(2), of k]
  have "ApplyFn \<lparr>msgIndex = wrCommitIndex reply, msgTerm = t, msgCommand = payload\<rparr> \<in> set (appliedEntries c' b) \<and>
      (untouchedSince unmarshal k (wrCommitIndex reply) (nodeAt c' b) \<longrightarrow>
         Get (machine unmarshal (nodeAt c' b)) k = (case eff of None \<Rightarrow> ('''', False) | Some x \<Rightarrow> (x, True)))"
    if "(cstep M C)\<^sup>*\<^sup>* c c'" "b \<in> set M" "wrCommitIndex reply \<le> commitIndex (nodeAt c' b)" for c' b
  proof -
    have run: "(cstep M C)\<^sup>*\<^sup>* c1 c'" using x(3) that(1) by (rule rtranclp_trans)
    then have "creach M C c'" using x(2) unfolding creach_def by (meson rtranclp_trans)
    with applied_later [OF ok x(2) run x(4) that(2,3) x(5)] served_value [where um = unmarshal, OF ok this that(2) _ u] e show ?thesis by auto
  qed
  then show ?thesis using r(2) u by blast
qed

section \<open>Reads of a client\<close>

text \<open>
  A read answered by the node at \<open>a\<close>: the moments at which the handler looks at its node belong to one run of the cluster, during which the
  process keeps running, and the machine is read last.
\<close>

inductive read_by :: "addr list \<Rightarrow> (addr \<Rightarrow> Config) \<Rightarrow> (bytes \<Rightarrow> KVCommand option) \<Rightarrow> addr \<Rightarrow> GetRequest \<Rightarrow> GetReply \<Rightarrow> cluster \<Rightarrow> bool"
  for M C unmarshal a req where
  "a \<in> set M \<Longrightarrow> creach M C c0 \<Longrightarrow> (alive M C a)\<^sup>*\<^sup>* c0 c1 \<Longrightarrow> (alive M C a)\<^sup>*\<^sup>* c1 c2 \<Longrightarrow> (alive M C a)\<^sup>*\<^sup>* c2 c \<Longrightarrow>
   serverGet unmarshal req (nodeAt c0 a) (nodeAt c1 a) reply (nodeAt c2 a) evs nl (nodeAt c a) = Some r \<Longrightarrow> read_by M C unmarshal a req r c"

lemma callGet_reply: "callGet pe j a key p = (Inr reply, p') \<Longrightarrow> peGet pe j a \<lparr>grKey = key\<rparr> = Inr reply"
  using guarded_effect(5) by (fastforce simp: callGet_def)

text \<open>Where the result of a read comes from: an authoritative reply of some node, or the proxy gives up.\<close>

definition sourced :: "'b proxyEnv \<Rightarrow> string \<Rightarrow> apiError + GetReply \<Rightarrow> bool" where
  "sourced pe key res \<longleftrightarrow>
     (\<exists>j a reply. peGet pe j a \<lparr>grKey = key\<rparr> = Inr reply \<and> grOk reply \<and> res = answered reply) \<or> (\<exists>msg d. res = Inl (errUnavailable msg d))"

lemma sourced_unavailable [simp]: "sourced pe key (Inl (errUnavailable msg d))"
  by (auto simp: sourced_def)

lemma sourced_answer: "callGet pe j a key p = (Inr reply, p') \<Longrightarrow> grOk reply \<Longrightarrow> sourced pe key (answered reply)"
  unfolding sourced_def using callGet_reply by blast

lemma leaderPath_sourced: "sourced pe key (fst (leaderPathLoop pe key left a p))"
proof (induction left arbitrary: a p)
  case (Suc left)
  then show ?case
    by (cases "callGet pe (maxHops - left) a key p") (auto simp: Let_def sourced_answer split: sum.split)
qed simp

lemma singleHop_sourced: "sourced pe key (fst (singleHopLeaderGet pe key p))"
  by (cases "callGet pe 2 (cvLeaderAddress (pxView p)) key p") (auto simp: singleHopLeaderGet_def Let_def sourced_answer split: sum.split)

lemma proxyGet_sourced: "sourced pe key (fst (proxyGet pe key p))"
proof (cases "allNodesOpen (peLib pe) (peStart pe) (pxView p) p")
  case (Pair b p1)
  show ?thesis
  proof (cases "b \<or> cvFollowers (pxView p) = []")
    case True
    then show ?thesis using leaderPath_sourced by (auto simp: proxyGet_def Pair leaderPathGet_def Let_def split: bool.split)
  next
    case False
    obtain a p2 where n: "pickFollowerRoundRobin (cvFollowers (pxView p)) p1 = (a, p2)" by force
    from False show ?thesis
      by (cases "callGet pe 1 a key p2") (auto simp: proxyGet_def Pair n Let_def sourced_answer singleHop_sourced split: sum.split)
  qed
qed

lemma read_machine:
  assumes "read_by M C um a req r c" "grOk r"
  shows "(grValue r, grFound r) = Get (machine um (nodeAt c a)) (grKey req) \<and> a \<in> set M \<and> creach M C c"
  using assms(1)
proof cases
  case (1 c0 c1 c2 reply evs nl)
  have "(cstep M C)\<^sup>*\<^sup>* c0 c" using alive_run 1(3-5) by (metis rtranclp_trans)
  then have "creach M C c" using 1(2) unfolding creach_def by (meson rtranclp_trans)
  with 1(1,6) assms(2) show ?thesis by (auto simp: serverGet_def Let_def split: if_splits option.splits prod.splits)
qed

text \<open>
  C11: A client reads committed data only. When the nodes answer the proxy's calls, a value in a response with status 200, and the
  absence a 404 reports, are those of the key in the replay of a committed prefix of some member's log, in a state the
  cluster has reached.
\<close>

theorem client_read_committed:
  assumes ok: "cluster_ok M C" and served: "\<forall>j a req reply. peGet pe j a req = Inr reply \<longrightarrow> (\<exists>c. read_by M C unmarshal a req reply c)"
    and w: "addressable k" "ServeHTTP pe ''GET'' (keyPath k) body p = (Served r, p')" "rwStatus r = 200 \<or> rwStatus r = 404"
  shows "\<exists>c a es. creach M C c \<and> a \<in> set M \<and> es = take (commitIndex (nodeAt c a)) (log (nodeAt c a)) \<and>
    (case Get (applyCommands unmarshal (map Command es) New) k of
       (v, True) \<Rightarrow> rwStatus r = 200 \<and> jsonDecode (rwText r) = Some (JObj [(''key'', JStr (toValidUTF8 k)), (''value'', JStr (toValidUTF8 v))])
     | (v, False) \<Rightarrow> rwStatus r = 404)"
proof -
  obtain res q where g: "proxyGet pe k p = (res, q)" by force
  have h: "Served r = respond ''GET'' (fst (handleGet pe k p))" using w(2) by (cases "handleGet pe k p") (simp add: served_key [OF w(1)])
  from proxyGet_sourced [of pe k p] g consider
    j a reply where "peGet pe j a \<lparr>grKey = k\<rparr> = Inr reply" "grOk reply" "res = answered reply" | msg d where "res = Inl (errUnavailable msg d)"
    by (auto simp: sourced_def)
  then show ?thesis
  proof cases
    case 1
    with served obtain c where c: "read_by M C unmarshal a \<lparr>grKey = k\<rparr> reply c" by blast
    from read_machine [OF c 1(2)] have m: "(grValue reply, grFound reply) = Get (machine unmarshal (nodeAt c a)) k" "a \<in> set M" "creach M C c" by simp_all
    have "Get (applyCommands unmarshal (map Command (take (commitIndex (nodeAt c a)) (log (nodeAt c a)))) New) k = (grValue reply, grFound reply)"
      using m(1) by (simp add: machine_log [OF ok m(3,2)])
    moreover have "if grFound reply then rwStatus r = 200 \<and> jsonDecode (rwText r) = Some (JObj [(''key'', JStr (toValidUTF8 k)), (''value'', JStr (toValidUTF8 (grValue reply)))])
      else rwStatus r = 404"
      using h 1(3) by (simp add: handleGet_def g answered_def respond_def writeJSON_def writeError_def errNotFound_def response_body Let_def split: if_splits)
    ultimately show ?thesis using m(2,3) by (intro exI [of _ c] exI [of _ a]) (simp split: if_splits bool.split)
  next
    case 2
    with h w(3) show ?thesis by (simp add: handleGet_def g respond_def writeError_def errUnavailable_def writeJSON_def Let_def)
  qed
qed

section \<open>A request on a running cluster\<close>

text \<open>The run of \<open>Raft_Run\<close> with the command proposed by a call that waits, and a proxy that knows the first node.\<close>

definition syncLeader :: node where
  "syncLeader = snd (proposeBegin calm [7] demoLeader)"

definition syncDone :: node where
  "syncDone = snd (handleSendReply calm 1 demoRequest (Some demoAck) syncLeader)"

lemma syncLeader_eq: "proposeBegin calm [7] demoLeader = (Inr (1, 1, 0), syncLeader)" "syncLeader = demoProposer\<lparr>waiters := [(1, 0)], nextChan := 1\<rparr>"
  by (simp_all add: syncLeader_def proposeBegin_def appendLocalLocked_def demoProposer_eq demoLeader_eq demo_log_defs)

lemma syncDone_eq: "handleSendReply calm 1 demoRequest (Some demoAck) syncLeader = (True, syncDone)" "chans syncDone 0 = [Committed]"
  "commitIndex syncDone = 1" "log syncDone = [seven]"
  by (simp_all add: syncDone_def handleSendReply_def handleAppendEntriesReplyLocked_def maybeAdvanceCommitIndexLocked_def demoAck_eq syncLeader_eq
      demoRequest_eq demoProposer_eq demoLeader_eq gm_get_def quorumSize_def demoMembers_def demo_log_defs demo_apply_defs)

lemma syncRequests: "buildAppendEntriesRequestsLocked syncLeader = buildAppendEntriesRequestsLocked demoProposer" "role syncLeader = Leader"
  by (simp_all add: buildAppendEntriesRequestsLocked_def syncLeader_eq buildRequest_def lastLogIndexLocked_def entryAtLocked_def Let_def)
    (simp add: demoProposer_eq demoLeader_eq)

definition sc4 :: cluster where
  "sc4 = setNode ''a'' syncLeader dc3"

definition sc5 :: cluster where
  "sc5 = sc4\<lparr>aeCalls := aeCalls sc4 \<union> {(''a'', r) | r. r \<in> set (snd (buildAppendEntriesRequestsLocked demoProposer))}\<rparr>"

definition sc6 :: cluster where
  "sc6 = (setNode (oaPeer demoRequest) demoFollower sc5)\<lparr>aeReplies := insert (''a'', demoRequest, demoAck) (aeReplies sc5)\<rparr>"

definition sc7 :: cluster where
  "sc7 = setNode ''a'' syncDone sc6"

lemmas sc_defs = sc4_def sc5_def sc6_def sc7_def

lemma sync_alive: "(alive demoMembers demoConfig ''a'')\<^sup>*\<^sup>* sc4 sc7"
proof -
  have "cstep demoMembers demoConfig sc4 sc5" unfolding sc5_def
    by (rule Broadcast) (simp_all add: sc4_def setNode_def broadcastAppendEntries_def syncRequests prod_eq_iff)
  then have s5: "alive demoMembers demoConfig ''a'' sc4 sc5" by (simp add: alive_def sc5_def)
  have "cstep demoMembers demoConfig sc5 sc6" unfolding sc6_def
    by (rule DeliverAppend [of _ _ _ calm]) (simp_all add: sc_defs dc_defs demo_sent demoAppend demoAck_eq demoFollower_eq)
  then have s6: "alive demoMembers demoConfig ''a'' sc5 sc6" by (simp add: alive_def sc6_def setNode_def)
  have n: "nodeAt sc6 ''a'' = syncLeader" by (simp add: sc_defs setNode_def)
  have "cstep demoMembers demoConfig sc6 sc7" unfolding sc7_def
    by (rule AppendReply [of _ demoRequest demoAck _ calm]) (simp_all add: n syncDone_eq(1) [simplified], simp add: sc6_def)
  moreover have "lstep syncLeader syncDone" using lstep.sendReply [of syncLeader calm 1 demoRequest "Some demoAck"] unfolding syncDone_def .
  ultimately have "alive demoMembers demoConfig ''a'' sc6 sc7" using n by (simp add: alive_def sc7_def setNode_def)
  with s5 s6 show ?thesis by (meson converse_rtranclp_into_rtranclp rtranclp.rtrancl_refl)
qed

definition demoMarshal :: "KVCommand \<Rightarrow> bytes option" where
  "demoMarshal cmd = (if cmd = \<lparr>cmdOp = PUT, cmdKey = ''k'', cmdValue = ''v''\<rparr> then Some [7] else None)"

definition clientEnv :: "(breakerSettings \<times> cbState \<times> nat \<times> int) proxyEnv" where
  "clientEnv = demoEnv\<lparr>
     peWrite := \<lambda>j a call. if a = ''a'' \<and> call = CallPut \<lparr>prKey = ''k'', prValue = ''v''\<rparr>
       then Inr \<lparr>wrSuccess = True, wrRedirectLeader = '''', wrCommitIndex = 1\<rparr> else Inl ''refused'',
     peGet := \<lambda>j a req. if a = ''a'' \<and> req = \<lparr>grKey = ''k''\<rparr>
       then Inr \<lparr>grFound = True, grValue = ''v'', grRedirectLeader = '''', grOk = True\<rparr> else Inl ''refused''\<rparr>"

definition clientProxy :: "(breakerSettings \<times> cbState \<times> nat \<times> int) Proxy" where
  "clientProxy = NewProxy\<lparr>pxView := \<lparr>cvLeaderAddress = ''a'', cvFollowers = [], cvAllNodes = []\<rparr>\<rparr>"

lemmas client_defs = clientEnv_def clientProxy_def NewProxy_def allNodesOpen_def maxHops_def numeral_3_eq_3 guarded_def
  demoEnv_def demoLib_def breakerCall_def breakerFor_def NewBreakerRegistry_def settingsFor_def Let_def

lemma client_answered: "answered_by demoMembers demoConfig demoMarshal ''a'' (CallPut \<lparr>prKey = ''k'', prValue = ''v''\<rparr>)
    (Inr \<lparr>wrSuccess = True, wrRedirectLeader = '''', wrCommitIndex = 1\<rparr>) sc7"
proof (rule answered_by.intros)
  let ?call = "CallPut \<lparr>prKey = ''k'', prValue = ''v''\<rparr>"
  have n: "nodeAt dc3 ''a'' = demoLeader" by (simp add: dc3_def setNode_def)
  have m: "demoMarshal (commandOf ?call) = Some [7]" by (simp add: demoMarshal_def commandOf_def)
  have g: "fst (proposeReceive 0 (nodeAt sc7 ''a'')) = Some Committed" by (simp add: sc7_def setNode_def proposeReceive_def syncDone_eq(2))
  show "''a'' \<in> set demoMembers" "healthy calm" by simp_all
  show "creach demoMembers demoConfig dc3" using demo_start demo_step1 demo_step2 demo_step3 unfolding creach_def
    by (meson converse_rtranclp_into_rtranclp rtranclp.rtrancl_refl)
  show "fits payload (nodeAt dc3 ''a'')" if "demoMarshal (commandOf ?call) = Some payload" for payload using that m demoFits n by simp
  show "handleCall demoMarshal calm ?call (nodeAt dc3 ''a'') (Some Committed) demoLeader
      = (Inr \<lparr>wrSuccess = True, wrRedirectLeader = '''', wrCommitIndex = 1\<rparr>, syncLeader)"
    by (simp add: handleCall_def Put_def serverWrite_def n demoMarshal_def syncLeader_eq(1) proposeResult_def writeReply_def)
  show "(alive demoMembers demoConfig ''a'')\<^sup>*\<^sup>* (setNode ''a'' syncLeader dc3) sc7" using sync_alive by (simp add: sc4_def)
  show "Some Committed = None \<or> (\<exists>payload i t ch. demoMarshal (commandOf ?call) = Some payload \<and>
      fst (proposeBegin calm payload (nodeAt dc3 ''a'')) = Inr (i, t, ch) \<and> Some Committed = fst (proposeReceive ch (nodeAt sc7 ''a'')))"
    using m n g syncLeader_eq(1) by auto
qed simp

theorem client_write_committed_witness:
  "\<exists>i t payload. demoUnmarshal payload = Some \<lparr>cmdOp = PUT, cmdKey = ''k'', cmdValue = ''v''\<rparr> \<and> showNat i = ''1'' \<and>
     ApplyFn \<lparr>msgIndex = i, msgTerm = t, msgCommand = payload\<rparr> \<in> set (appliedEntries sc7 ''a'') \<and>
     Get (machine demoUnmarshal (nodeAt sc7 ''a'')) ''k'' = (''v'', True)"
proof -
  have a: "addressable ''k''" by (simp add: addressable_def)
  have v: "validUTF8 ''v''" by (rule ascii_valid) (simp add: code_def)
  have one: "showNat 1 = ''1''" by code_simp
  have x: "fst (proxyWrite clientEnv OpPut ''k'' ''v'' clientProxy) = Inr \<lparr>wrSuccess = True, wrRedirectLeader = '''', wrCommitIndex = 1\<rparr>"
    by (simp add: proxyWrite_def callWrite_def writeRequest_def client_defs)
  have b: "decodeBody (valueBody ''v'' @ []) = Parsed (Some ''v'')" using request_body [of "''v''" "[]"] v by (simp add: valueBody_def validUTF8_def)
  obtain r p' where r: "ServeHTTP clientEnv ''POST'' (keyPath ''k'') (valueBody ''v'' @ []) clientProxy = (Served r, p')"
    "rwStatus r = 201" "map_of (rwHeaders r) ''X-Commit-Index'' = Some ''1''"
    using x one unfolding served_key(1) [OF a] b
    by (cases "proxyWrite clientEnv OpPut ''k'' ''v'' clientProxy") (simp add: handlePush_def decodeValueBody_def respond_def writeCommitted_def writeJSON_def)
  have codec: "\<forall>cmd payload. demoMarshal cmd = Some payload \<longrightarrow> demoUnmarshal payload = Some cmd" by (simp add: demoMarshal_def demoUnmarshal_def)
  have served: "\<forall>j a call reply. peWrite clientEnv j a call = Inr reply \<longrightarrow> answered_by demoMembers demoConfig demoMarshal a call (Inr reply) sc7"
    using client_answered by (auto simp: clientEnv_def)
  from client_write_committed [OF demo_ok codec served a clientWrite.intros(1) [OF v, of "[]"] r(1,2)] obtain i t payload where
    i: "map_of (rwHeaders r) ''X-Commit-Index'' = Some (showNat i)" "demoUnmarshal payload = Some (commandOf (writeRequest OpPut ''k'' ''v''))" and
    u: "\<forall>c' b. (cstep demoMembers demoConfig)\<^sup>*\<^sup>* sc7 c' \<and> b \<in> set demoMembers \<and> i \<le> commitIndex (nodeAt c' b) \<longrightarrow>
       ApplyFn \<lparr>msgIndex = i, msgTerm = t, msgCommand = payload\<rparr> \<in> set (appliedEntries c' b) \<and>
       (untouchedSince demoUnmarshal ''k'' i (nodeAt c' b) \<longrightarrow>
          Get (machine demoUnmarshal (nodeAt c' b)) ''k'' = (case Some ''v'' of None \<Rightarrow> ('''', False) | Some x \<Rightarrow> (x, True)))"
    by blast
  have one': "showNat i = showNat 1" using i(1) r(3) one by simp
  then have n: "i = 1" by (rule showNat_inj)
  have d: "nodeAt sc7 ''a'' = syncDone" by (simp add: sc7_def setNode_def)
  have un: "untouchedSince demoUnmarshal ''k'' i syncDone" by (simp add: untouchedSince_def laterCommands_def n syncDone_eq(3,4))
  have "ApplyFn \<lparr>msgIndex = i, msgTerm = t, msgCommand = payload\<rparr> \<in> set (appliedEntries sc7 ''a'') \<and> Get (machine demoUnmarshal (nodeAt sc7 ''a'')) ''k'' = (''v'', True)"
    using u [rule_format, of sc7 "''a''"] un d n syncDone_eq(3) by simp
  moreover have "commandOf (writeRequest OpPut ''k'' ''v'') = \<lparr>cmdOp = PUT, cmdKey = ''k'', cmdValue = ''v''\<rparr>" by (simp add: commandOf_def writeRequest_def)
  ultimately show ?thesis using i(2) one' one by auto
qed

theorem client_read_committed_witness:
  "\<exists>r p'. ServeHTTP clientEnv ''GET'' (keyPath ''k'') [] clientProxy = (Served r, p') \<and> rwStatus r = 200 \<and>
     (\<exists>c a. creach demoMembers demoConfig c \<and>
        snd (Get (applyCommands demoUnmarshal (map Command (take (commitIndex (nodeAt c a)) (log (nodeAt c a)))) New) ''k''))"
proof -
  have a: "addressable ''k''" by (simp add: addressable_def)
  have x: "fst (proxyGet clientEnv ''k'' clientProxy) = Inr \<lparr>grFound = True, grValue = ''v'', grRedirectLeader = '''', grOk = True\<rparr>"
    by (simp add: proxyGet_def leaderPathGet_def callGet_def answered_def client_defs)
  obtain r p' where r: "ServeHTTP clientEnv ''GET'' (keyPath ''k'') [] clientProxy = (Served r, p')" "rwStatus r = 200"
    using x unfolding served_key(3) [OF a]
    by (cases "proxyGet clientEnv ''k'' clientProxy") (simp add: handleGet_def respond_def writeJSON_def)
  have "Get (machine demoUnmarshal demoCommitter) ''k'' = (''v'', True)"
    by (simp add: machine_def runOp_def applyOp_def applyCommand_def demoUnmarshal_def Apply_def New_def Get_def)
  then have "serverGet demoUnmarshal \<lparr>grKey = ''k''\<rparr> (nodeAt dc7 ''a'') (nodeAt dc7 ''a'') None (nodeAt dc7 ''a'') [] demoCommitter (nodeAt dc7 ''a'')
      = Some \<lparr>grFound = True, grValue = ''v'', grRedirectLeader = '''', grOk = True\<rparr>"
    by (simp add: serverGet_def Status_def)
  from read_by.intros [OF demo_members(1) demo_reach(1) rtranclp.rtrancl_refl rtranclp.rtrancl_refl rtranclp.rtrancl_refl this]
  have served: "\<forall>j a req reply. peGet clientEnv j a req = Inr reply \<longrightarrow> (\<exists>c. read_by demoMembers demoConfig demoUnmarshal a req reply c)"
    by (auto simp: clientEnv_def)
  have st: "rwStatus r = 200 \<or> rwStatus r = 404" using r(2) by simp
  from client_read_committed [OF demo_ok served a r(1) st] obtain c x es where
    c: "creach demoMembers demoConfig c" "es = take (commitIndex (nodeAt c x)) (log (nodeAt c x))"
      "case Get (applyCommands demoUnmarshal (map Command es) New) ''k'' of
        (v, True) \<Rightarrow> rwStatus r = 200 \<and> jsonDecode (rwText r) = Some (JObj [(''key'', JStr (toValidUTF8 ''k'')), (''value'', JStr (toValidUTF8 v))])
      | (v, False) \<Rightarrow> rwStatus r = 404"
    by (elim exE conjE) (rule that)
  obtain v f where g: "Get (applyCommands demoUnmarshal (map Command es) New) ''k'' = (v, f)" by force
  with c(3) r(2) have "f" by (cases f) simp_all
  with g have "snd (Get (applyCommands demoUnmarshal (map Command es) New) ''k'')" by simp
  with c(1) r show ?thesis unfolding c(2) by (intro exI conjI)
qed

end
