(* ===== verification/Spec2Isabelle.thy ===== *)
theory Spec2Isabelle
  imports Loadgen Raft_Safety Raft_Reads Raft_Typing KV_Server Snapshot_Service Discovery Circuitbreaker Proxy Settings Connections Harness Catalog Processes
    State_Json Dump Service
begin

text \<open>
  A verification development of the replicated key-value store under \<open>src/b5-kvstore\<close>: a Raft-style consensus core with a
  durable log, a key-value service on top of it, a backup service that compacts the log, service discovery, and
  a REST proxy with circuit breakers, together with the processes around them, the test harness and two tools. Paths below are
  relative to that directory.

  \<^bold>\<open>The parts and their theories.\<close>

  \<^item> \<open>KV_Prelude\<close>: 64-bit arithmetic, Go maps as association lists, the outcomes of I/O calls (\<open>fault\<close>) and the
    environment of a handler (\<open>env\<close>: the clock, a random draw, one outcome per I/O call). \<open>Go_Text\<close> and \<open>Go_Json\<close>: the
    text functions and the JSON codec of Go's library, as far as the code uses them.
  \<^item> \<open>Persistence\<close>: \<open>internal/raft/persistence\<close>. \<open>log.dat\<close> byte for byte with its recovery scan; appends, truncation and
    rewriting under every fault. The contract other theories use is the locale \<open>durable_log\<close>. \<open>State_Json\<close>: the text of
    \<open>state.json\<close> and its two files, a refinement of the value the node works with.
  \<^item> \<open>Statemachine\<close>: \<open>internal/statemachine/statemachine.go\<close> and the apply callback. The locale \<open>overwrite_machine\<close> is
    what makes replaying a range twice harmless.
  \<^item> \<open>Snapshotfile\<close>: \<open>internal/snapshotfile\<close>, the checkpoint format and the search for the newest file. \<open>Pb_Messages\<close>:
    the messages of \<open>api/proto\<close>.
  \<^item> \<open>Raft_Node\<close>, \<open>Raft_Election\<close>, \<open>Raft_Replication\<close>: \<open>node.go\<close>, \<open>election.go\<close> and \<open>replication.go\<close> of
    \<open>internal/raft\<close>, one function per handler or critical section; the \<open>Node\<close> struct is the record \<open>node\<close>.
  \<^item> \<open>Raft_Cluster\<close>: all nodes together as a step relation \<open>cstep\<close>: a step is one critical section of one node, a
    delivery, or a crash with a restart. \<open>Raft_Abstract\<close> is an abstract protocol with its invariants over any
    \<open>quorum_system\<close>; \<open>Raft_Refinement\<close> shows that every concrete step is simulated by it; \<open>Raft_Run\<close> is a
    concrete run for the witnesses; \<open>Raft_Safety\<close> draws the safety properties.
  \<^item> \<open>Raft_ReadIndex\<close>, \<open>Raft_Compaction\<close>: \<open>readindex.go\<close>; \<open>compaction.go\<close>, \<open>snapshottransfer.go\<close>, \<open>snapshotcatchup.go\<close>
    and the start of the process. \<open>Raft_Local\<close>: all handlers of one node, local compaction included and catch-up
    excepted, as a step relation \<open>lstep\<close>, for what holds of a single node whatever the others do. \<open>Raft_Handlers\<close> and \<open>Raft_Reads\<close>:
    properties of single handlers and of reads over the cluster.
  \<^item> \<open>KV_Server\<close>: \<open>internal/statemachine/server.go\<close>. \<open>Snapshot_Service\<close>: \<open>internal/snapshot\<close> and
    \<open>internal/raft/snapshotcatalogclient\<close>. \<open>Discovery\<close>: \<open>internal/discovery\<close>. \<open>Circuitbreaker\<close> and \<open>Proxy\<close>:
    \<open>internal/circuitbreaker\<close> and \<open>internal/proxy\<close>. \<open>Settings\<close>: the configuration of all processes.
  \<^item> \<open>Rest\<close>: \<open>internal/proxy/http.go\<close> down to the text: the routes, the escaping and matching of paths, the decoding of bodies and the
    encoding of responses. \<open>Service\<close>: the path of a request through the REST surface, the proxy and the key-value service of
    a node in a running cluster.
  \<^item> \<open>Connections\<close>: dialling and the connection caches of \<open>grpctransport\<close>, \<open>grpcutil\<close>, the prober, the proxy's clients and the
    backup's. \<open>Catalog\<close>: a node polling the catalog of a backup. \<open>Processes\<close>: the \<open>main\<close> functions up to the point where they serve, and the
    ticker loops.
  \<^item> \<open>Raft_Typing\<close>: all counters of a cluster stay 64-bit values. \<open>Harness\<close>: \<open>internal/raft/harness\<close>, the in-process test cluster with its
    filters and its fake catalog.
  \<^item> \<open>Loadgen\<close>: \<open>cmd/loadgen\<close>, the load generator with its floating-point report. \<open>Dump\<close>: \<open>snapshotdump\<close>, which prints a checkpoint.

  \<^bold>\<open>How calls are modelled.\<close> A handler that holds the lock throughout is a function on the state. A call that
  releases it is cut at the lock points, each part taking the state it finds, so that any other handler can run in
  between. A wait is a list of events, the result \<open>None\<close> meaning that the call is still waiting. Answers of other processes are
  arguments, \<open>None\<close> or \<open>Inl\<close> being a failed call. The protobuf codec and the gobreaker library are arguments too; what
  a property needs of the latter is the named hypothesis \<open>closed_breaker\<close>, and of the codec that it decodes what it has encoded. A Go map is written in an arbitrary order, which
  is an argument of the operations that encode one.

  \<^bold>\<open>What is shown.\<close> Over every run of \<open>cstep\<close>: election safety, log matching, leader completeness, state machine
  safety, that a node has applied exactly the committed prefix of its log and holds it on disk, that replicas with equal
  commit index hold equal maps, and, in this theory, that an acknowledged write is never lost and is seen by every later
  follower read granted by a leader that had applied it. For a client of the REST interface (\<open>Service\<close>): a write answered with success is
  committed at the index in the header, and the value of a read is that of a committed prefix. Over every run of \<open>lstep\<close>: terms and votes are
  monotone, notices to waiting clients are true and never block, parked reads are woken. For the handlers: the merge equals its
  reference, the commit rule, application in order, recovery at start. For the disk: recovery after any failed
  append, compaction interrupted anywhere. For the backup: its replica is a replay of the log through any aborted
  cycle, and a whole cycle followed by a restart loses nothing. For the deployment: nodes started by the shipped processes, and those
  of the test harness, form a cluster of the model. For the texts: requests, responses, \<open>state.json\<close> and dumps are read back as what
  was written. For the outer services: the view of discovery does not depend on
  arrival order, redirects and fallbacks stay within their budgets, breakers trip as configured, connections are opened and closed
  once, the statuses of the REST handlers, the peer list, the reported percentiles. Theorems about defects are stated next to the component they concern: reads on a new
  leader, catch-up and backup of entries that are not committed, lost state after a fresh backup process, a hint that repeats for ever, temporary
  files taken for snapshots, appends after a failed one.

  \<^bold>\<open>Bounds.\<close> Counters are natural numbers with the 64-bit wrap-around written out (\<open>u64\<close>, \<open>sub64\<close>) where the code could
  reach it. In \<open>cstep\<close> a proposal is one whose record fits the format and whose term and index stay below \<open>2 ^ 64\<close>. The loop of
  \<open>StreamLogRange\<close> is a partial function because for one bound it does not end; every other loop is a total
  recursion, so no fuel is used. The redirect loops of the proxy recurse on the attempts left, which \<open>maxHops\<close> bounds. The
  JSON parser keeps the library's limit of 10000 open values. A \<open>float64\<close> is a rational rounded to 53 significant bits (\<open>fl\<close>), which is exact for
  the magnitudes the load generator works with; its percentiles are shown for up to \<open>2 ^ 40\<close> measurements.

  \<^bold>\<open>Assumptions of the cluster model.\<close> A crash stops the process and may interrupt any write at any byte, but what was
  written reaches the disk: \<open>state.json\<close> is replaced without a sync, which the code accepts, so the loss of power is outside
  the model. Memory works, a node's data directory is its own, and the static configuration is consistent (\<open>cluster_ok\<close>). The
  network loses, delays, reorders, and repeats \<open>AppendEntries\<close>.

  \<^bold>\<open>Not modelled.\<close> Compaction and catch-up are not steps of \<open>cstep\<close>: as the theorems about them show, catching up
  breaks the safety properties, so those hold for clusters without an attached catalog. What is left of the source is I/O and
  wiring without a result: listening, serving and the wait for a signal at the end of each \<open>main\<close>, the start of goroutines (their
  interleavings are the steps of the relations), sleeping, log lines other than those of the discovery service, and methods that only
  hand a call to a generated stub. The generated protobuf code and its bytes, gRPC, the gobreaker library and the pages Go's router writes
  for unknown paths are not part of the repository and appear as parameters or by name.
\<close>

section \<open>From an acknowledged write to the reads that see it\<close>

text \<open>
  C4: An acknowledged write is never lost. Once a command has been applied anywhere, which is what a successful
  write reports, it stands at its index in the log of every leader of the same or a later term from then on, crashes
  included, and every node whose commit index reaches that index has applied it.
\<close>

theorem acknowledged_write_durable:
  assumes "cluster_ok M C" "creach M C c" "(cstep M C)\<^sup>*\<^sup>* c c'" "a \<in> set M" "b \<in> set M"
    "ApplyFn \<lparr>msgIndex = i, msgTerm = t, msgCommand = cmd\<rparr> \<in> set (appliedEntries c a)"
  shows "(role (nodeAt c' b) = Leader \<and> currentTerm (nodeAt c a) \<le> currentTerm (nodeAt c' b) \<longrightarrow>
       i \<le> length (log (nodeAt c' b)) \<and> log (nodeAt c' b) ! (i - 1) = \<lparr>Term = t, Index = i, Command = cmd\<rparr>) \<and>
    (i \<le> commitIndex (nodeAt c' b) \<longrightarrow> ApplyFn \<lparr>msgIndex = i, msgTerm = t, msgCommand = cmd\<rparr> \<in> set (appliedEntries c' b))"
proof -
  note at = assms(6) [unfolded applied_at [OF assms(1,2,4)]]
  have r: "creach M C c'" using assms(2,3) unfolding creach_def by (meson rtranclp_trans)
  have lead: "i \<le> length (log (nodeAt c' b)) \<and> log (nodeAt c' b) ! (i - 1) = \<lparr>Term = t, Index = i, Command = cmd\<rparr>"
    if "role (nodeAt c' b) = Leader" "currentTerm (nodeAt c a) \<le> currentTerm (nodeAt c' b)"
    using committed_in_leader [OF assms(1-5) _ that, of i] at nth_take [of "i - 1" i "log (nodeAt c' b)"]
      nth_take [of "i - 1" i "log (nodeAt c a)"] by simp
  have "ApplyFn \<lparr>msgIndex = i, msgTerm = t, msgCommand = cmd\<rparr> \<in> set (appliedEntries c' b)" if "i \<le> commitIndex (nodeAt c' b)"
    using applied_later [OF assms(1-5)] that assms(6) .
  with lead show ?thesis by blast
qed

theorem acknowledged_write_durable_witness:
  "ApplyFn \<lparr>msgIndex = 1, msgTerm = 1, msgCommand = [7]\<rparr> \<in> set (appliedEntries dc7 ''a'') \<and>
   ApplyFn \<lparr>msgIndex = 1, msgTerm = 1, msgCommand = [7]\<rparr> \<in> set (appliedEntries dc9 ''b'')"
proof -
  have a: "ApplyFn \<lparr>msgIndex = 1, msgTerm = 1, msgCommand = [7]\<rparr> \<in> set (appliedEntries dc7 ''a'')"
    by (simp add: appliedEntries_def applyOp_def)
  from acknowledged_write_durable [OF demo_ok demo_reach(1) demo_steps(2) demo_members a] a show ?thesis by simp
qed

text \<open>
  C8: A write that was acknowledged before a follower's read is seen by it. When the leader that grants the read index has
  applied the command, the follower has applied it once the wait for the index is over, and its contents are the
  replay of a log that has the command at its index.
\<close>

theorem read_sees_acknowledged_write:
  assumes "cluster_ok M C" "creach M C c" "(cstep M C)\<^sup>*\<^sup>* c c'" "a \<in> set M" "b \<in> set M"
    "ApplyFn \<lparr>msgIndex = i, msgTerm = t, msgCommand = cmd\<rparr> \<in> set (appliedEntries c a)"
    "RequestReadIndex (nodeAt c a) n1 acksSeen n2 = Some (Inr r)" "riOk r" "waitForApplied (riReadIndex r) [Looked (nodeAt c' b)] = Some None"
  shows "\<exists>es. machine unmarshal (nodeAt c' b) = replayed unmarshal es (length es) \<and> i \<le> length es \<and>
    es ! (i - 1) = \<lparr>Term = t, Index = i, Command = cmd\<rparr>"
proof -
  note g = readIndex_granted [OF assms(7,8)]
  have "commitIndex (nodeAt c a) \<le> lastApplied (nodeAt c' b)"
    using assms(9) g(2) by (simp add: waitTurn_def split: if_splits option.splits)
  from applied_prefix [OF assms(1-5) this] assms(6)
  have "ApplyFn \<lparr>msgIndex = i, msgTerm = t, msgCommand = cmd\<rparr> \<in> set (appliedEntries c' b)" by (auto simp: prefix_def)
  moreover have r: "creach M C c'" using assms(2,3) unfolding creach_def by (meson rtranclp_trans)
  ultimately have at: "0 < i" "i \<le> commitIndex (nodeAt c' b)" "log (nodeAt c' b) ! (i - 1) = \<lparr>Term = t, Index = i, Command = cmd\<rparr>"
    by (simp_all add: applied_at [OF assms(1) r assms(5)])
  show ?thesis
    using machine_log [OF assms(1) r assms(5), of unmarshal] at positional_log(2) [OF assms(1) r assms(5)]
    by (intro exI [of _ "take (commitIndex (nodeAt c' b)) (log (nodeAt c' b))"]) (auto simp: replayed_def)
qed

theorem read_sees_acknowledged_write_witness:
  "\<exists>es. machine demoUnmarshal (nodeAt dc9 ''b'') = replayed demoUnmarshal es (length es) \<and> 1 \<le> length es \<and> Command (es ! 0) = [7]"
proof -
  have a: "ApplyFn \<lparr>msgIndex = 1, msgTerm = 1, msgCommand = [7]\<rparr> \<in> set (appliedEntries dc7 ''a'')"
    by (simp add: appliedEntries_def applyOp_def)
  have r: "RequestReadIndex (nodeAt dc7 ''a'') demoCommitter [Result True] demoCommitter = Some (Inr \<lparr>riOk = True, riReadIndex = 1, riRedirectLeader = ''''\<rparr>)"
    by (simp add: RequestReadIndex_def readIndexBegin_def confirmLeadershipQuorum_def confirmBegin_def quorumSize_def)
  have w: "waitForApplied 1 [Looked (nodeAt dc9 ''b'')] = Some None" by (simp add: waitTurn_def demoApplier_eq)
  from read_sees_acknowledged_write [OF demo_ok demo_reach(1) demo_steps(2) demo_members a r, of demoUnmarshal] w show ?thesis by force
qed

end
